(* ===== verification/Prelude.thy ===== *)
theory Prelude
  imports Main "HOL-Library.Word" "HOL-Library.Monad_Syntax" "HOL-Library.Sublist"
    "HOL-Library.Signed_Division"
begin

unbundle bit_operations_syntax

text \<open>
  Shared vocabulary of the development. Bytes and C integers are words of their width, a
  byte string is a list of bytes, an address is a natural number with 0 as the null
  pointer. A computation that may leave defined behaviour (a null or dangling pointer
  is dereferenced, the process exits, a loop does not return) is a value of an option
  type and \<open>None\<close> stands for that outcome; the do-notation is the one of the option
  monad.

  The named collections gather the facts that proofs about one kind of goal share:
  \<open>heap_simps\<close> rewrites reads of an updated heap, \<open>c_word\<close> normalises word
  arithmetic of fixed width.
\<close>

named_theorems heap_simps "reads of an updated heap"
named_theorems c_word "fixed-width integer facts"

type_synonym byte = "8 word"
type_synonym bytes = "8 word list"
type_synonym u16 = "16 word"
type_synonym u32 = "32 word"
type_synonym u64 = "64 word"
type_synonym addr = nat

abbreviation (input) NULL :: addr where "NULL \<equiv> 0"

subsection \<open>The option monad\<close>

lemma bind_eq_Some [simp]:
  "Option.bind m f = Some y \<longleftrightarrow> (\<exists>x. m = Some x \<and> f x = Some y)"
  by (cases m) auto

text \<open>What a projection \<open>g\<close> determines agrees when the projections agree.\<close>

lemma map_option_factor:
  assumes "map_option g x = map_option g y" "\<And>a. f (g a) = f a"
  shows "map_option f x = map_option f y"
proof (cases x)
  case (Some a)
  then obtain b where "y = Some b" "g b = g a" using assms(1) by (cases y) auto
  moreover have "f b = f a" using \<open>g b = g a\<close> assms(2) by metis
  ultimately show ?thesis using Some by simp
qed (use assms in auto)

lemma bind_cong_Some:
  "m = Some x \<Longrightarrow> Option.bind m f = f x"
  by simp

text \<open>A guard: the run goes on only when the condition holds.\<close>

definition ensure :: "bool \<Rightarrow> unit option" where
  "ensure b = (if b then Some () else None)"

lemma ensure_Some [simp]: "ensure b = Some u \<longleftrightarrow> b"
  by (simp add: ensure_def)

lemma ensure_bind [simp]: "Option.bind (ensure b) f = (if b then f () else None)"
  by (simp add: ensure_def)

subsection \<open>Characters of C strings\<close>

text \<open>The bytes of a string literal; the terminating zero is written where the code counts it.\<close>

definition cstr :: "string \<Rightarrow> bytes" where
  "cstr s = map (\<lambda>c. of_nat (of_char c)) s"

lemma cstr_Nil [simp]: "cstr [] = []"
  by (simp add: cstr_def)

lemma cstr_Cons [simp]: "cstr (c # s) = of_nat (of_char c) # cstr s"
  by (simp add: cstr_def)

lemma length_cstr [simp]: "length (cstr s) = length s"
  by (simp add: cstr_def)

text \<open>Decimal numbers: \<open>%u\<close> and \<open>%d\<close> of sprintf.\<close>

fun dec_nat :: "nat \<Rightarrow> string" where
  "dec_nat n = (if n < 10 then [char_of (48 + n)] else dec_nat (n div 10) @ [char_of (48 + n mod 10)])"

declare dec_nat.simps [simp del]

definition sprintf_d :: "int \<Rightarrow> string" where
  "sprintf_d i = (if i < 0 then ''-'' @ dec_nat (nat (- i)) else dec_nat (nat i))"

subsection \<open>Lists\<close>

lemma remove1_append_notin: "x \<notin> set xs \<Longrightarrow> remove1 x (xs @ x # ys) = xs @ ys"
  by (simp add: remove1_append)

lemma dropWhile_neq_split: "x \<notin> set xs \<Longrightarrow> dropWhile (\<lambda>a. a \<noteq> x) (xs @ x # ys) = x # ys"
  by (induction xs) auto

lemma takeWhile_True [simp]: "takeWhile (\<lambda>_. True) xs = xs"
  by (induction xs) auto

lemma take_Suc_nth: "i < length xs \<Longrightarrow> take (Suc i) xs = take i xs @ [xs ! i]"
  by (simp add: take_Suc_conv_app_nth)

lemma drop_nth_Cons: "i < length xs \<Longrightarrow> drop i xs = xs ! i # drop (Suc i) xs"
  by (simp add: Cons_nth_drop_Suc)


subsection \<open>Big-endian integers\<close>

text \<open>The value of bytes in network order, and the low \<open>n\<close> bytes of a number in that order.\<close>

definition be :: "bytes \<Rightarrow> nat" where
  "be bs = fold (\<lambda>b v. v * 256 + unat b) bs 0"

primrec to_be :: "nat \<Rightarrow> nat \<Rightarrow> bytes" where
  "to_be 0 v = []"
| "to_be (Suc n) v = to_be n (v div 256) @ [of_nat (v mod 256)]"

lemma length_to_be [simp]: "length (to_be n v) = n"
  by (induction n arbitrary: v) auto

lemma be_Nil [simp]: "be [] = 0"
  by (simp add: be_def)

lemma be_snoc [simp]: "be (bs @ [b]) = be bs * 256 + unat b"
  by (simp add: be_def)

lemma be_to_be [simp]: "be (to_be n v) = v mod 256 ^ n"
proof (induction n arbitrary: v)
  case (Suc n)
  have "unat (of_nat (v mod 256) :: byte) = v mod 256" by (simp add: unat_of_nat)
  with Suc show ?case by (simp add: mod_mult2_eq mult.commute)
qed (simp add: be_def)

end
