(* ===== verification/UsTypes.thy ===== *)
theory UsTypes
  imports Prelude
begin

text \<open>
  The data of uSockets (SocketExams/uSockets/src): the structs of internal/common.h,
  internal/loop.h and internal/eventing/epoll.h, and the world they live in.

  The heap is split by struct: a map from addresses to the records of that struct. A
  \<open>us_socket\<close> starts with its \<open>us_poll\<close>, so the same address is a key of
  both maps, as the casts of the code have it. Freed memory is absent from the maps, so
  every read through a dangling pointer is \<open>None\<close>. Memory fresh from malloc holds
  unspecified contents, which the world carries as \<open>junk_*\<close>. malloc hands out
  addresses that were never used before and does not fail (the code never checks it).

  The operating system is a parameter carried by the world: every system call is
  appended to a log, and what a call returns is an unconstrained function of the log.
\<close>

datatype fnptr = Fn_null | Fn_sweep_timer | Fn_user nat

record us_poll =
  p_fd :: int
  p_type :: "4 word"

record us_socket =
  s_context :: addr
  s_prev :: addr
  s_next :: addr
  s_timeout :: u16

record us_socket_context =
  c_loop :: addr
  c_head :: addr
  c_iterator :: addr
  c_prev :: addr
  c_next :: addr
  c_on_open :: fnptr
  c_on_data :: fnptr
  c_on_writable :: fnptr
  c_on_close :: fnptr
  c_on_socket_timeout :: fnptr
  c_on_end :: fnptr

record us_internal_callback =
  cb_loop :: addr
  cb_expects_the_loop :: bool
  cb_cb :: fnptr

record us_loop =
  l_sweep_timer :: addr
  l_wakeup_async :: addr
  l_last_write_failed :: int
  l_head :: addr
  l_iterator :: addr
  l_recv_buf :: addr
  l_ssl_data :: addr
  l_pre_cb :: fnptr
  l_post_cb :: fnptr
  l_closed_head :: addr
  l_num_polls :: int
  l_num_fd_ready :: int
  l_fd_iterator :: int
  l_epfd :: int
  l_ready_events :: "(addr \<times> u32) list"

text \<open>
  System calls, with the arguments the code passes. The flags of socket and accept4 are
  fixed by bsd.h and are not repeated here.
\<close>

datatype sockopt = So_reuseport | So_reuseaddr | Ipv6_v6only | Tcp_nodelay | Tcp_cork

datatype os_event =
    Sys_epoll_create
  | Sys_epoll_add int int u32 addr
  | Sys_epoll_mod int int u32 addr
  | Sys_epoll_del int int
  | Sys_epoll_wait int
  | Sys_socket int int int
  | Sys_setsockopt int sockopt int
  | Sys_bind int nat
  | Sys_listen int int
  | Sys_connect int nat
  | Sys_accept int
  | Sys_recv int int
  | Sys_send int bytes int
  | Sys_shutdown_wr int
  | Sys_close int
  | Sys_getaddrinfo "string option" string bool
  | Sys_freeaddrinfo
  | Sys_read8 int
  | Sys_write8 int u64
  | Sys_timerfd_create
  | Sys_eventfd
  | Sys_timerfd_settime int int int int int

text \<open>One entry of the list getaddrinfo returns; \<open>ai_addr\<close> names the address bytes.\<close>

record addrinfo =
  ai_family :: int
  ai_socktype :: int
  ai_protocol :: int
  ai_addr :: nat

record os =
  sys_ret :: "os_event list \<Rightarrow> int"
  sys_errno :: "os_event list \<Rightarrow> int"
  sys_addrs :: "os_event list \<Rightarrow> addrinfo list"
  sys_ready :: "os_event list \<Rightarrow> (addr \<times> u32) list"
  sys_bytes :: "os_event list \<Rightarrow> bytes"
  sys_realloc :: "os_event list \<Rightarrow> addr \<Rightarrow> bool"

record world =
  polls :: "addr \<rightharpoonup> us_poll"
  socks :: "addr \<rightharpoonup> us_socket"
  lexts :: "addr \<rightharpoonup> u32"
  ctxs :: "addr \<rightharpoonup> us_socket_context"
  loops :: "addr \<rightharpoonup> us_loop"
  cbs :: "addr \<rightharpoonup> us_internal_callback"
  bufs :: "addr \<rightharpoonup> bytes"
  brk :: addr
  os_log :: "os_event list"
  os_fn :: os
  junk_poll :: us_poll
  junk_sock :: us_socket
  junk_ctx :: us_socket_context
  junk_cb :: us_internal_callback
  junk_loop :: us_loop

subsection \<open>Constants\<close>

definition LIBUS_RECV_BUFFER_LENGTH :: nat where "LIBUS_RECV_BUFFER_LENGTH = 524288"
definition LIBUS_TIMEOUT_GRANULARITY :: nat where "LIBUS_TIMEOUT_GRANULARITY = 4"
definition LIBUS_RECV_BUFFER_PADDING :: nat where "LIBUS_RECV_BUFFER_PADDING = 32"
definition LIBUS_SOCKET_ERROR :: int where "LIBUS_SOCKET_ERROR = -1"

definition POLL_TYPE_SOCKET :: "4 word" where "POLL_TYPE_SOCKET = 0"
definition POLL_TYPE_SOCKET_SHUT_DOWN :: "4 word" where "POLL_TYPE_SOCKET_SHUT_DOWN = 1"
definition POLL_TYPE_SEMI_SOCKET :: "4 word" where "POLL_TYPE_SEMI_SOCKET = 2"
definition POLL_TYPE_CALLBACK :: "4 word" where "POLL_TYPE_CALLBACK = 3"
definition POLL_TYPE_POLLING_OUT :: "4 word" where "POLL_TYPE_POLLING_OUT = 4"
definition POLL_TYPE_POLLING_IN :: "4 word" where "POLL_TYPE_POLLING_IN = 8"

lemmas poll_type_defs = POLL_TYPE_SOCKET_def POLL_TYPE_SOCKET_SHUT_DOWN_def
  POLL_TYPE_SEMI_SOCKET_def POLL_TYPE_CALLBACK_def POLL_TYPE_POLLING_OUT_def
  POLL_TYPE_POLLING_IN_def

text \<open>EPOLLIN, EPOLLOUT, EPOLLERR and EPOLLHUP of the Linux headers.\<close>

definition LIBUS_SOCKET_READABLE :: u32 where "LIBUS_SOCKET_READABLE = 1"
definition LIBUS_SOCKET_WRITABLE :: u32 where "LIBUS_SOCKET_WRITABLE = 4"
definition EPOLLERR :: u32 where "EPOLLERR = 8"
definition EPOLLHUP :: u32 where "EPOLLHUP = 16"

lemmas event_defs = LIBUS_SOCKET_READABLE_def LIBUS_SOCKET_WRITABLE_def EPOLLERR_def EPOLLHUP_def

subsection \<open>System calls\<close>

text \<open>A call is logged (newest first) and returns what the system answers to that log.\<close>

definition syscall :: "os_event \<Rightarrow> world \<Rightarrow> int \<times> world" where
  "syscall e w = (let l = e # os_log w in (sys_ret (os_fn w) l, w\<lparr>os_log := l\<rparr>))"

definition log_call :: "os_event \<Rightarrow> world \<Rightarrow> world" where
  "log_call e w = w\<lparr>os_log := e # os_log w\<rparr>"

lemma snd_syscall [simp]: "snd (syscall e w) = log_call e w"
  by (simp add: syscall_def log_call_def Let_def)

lemma fst_syscall: "fst (syscall e w) = sys_ret (os_fn w) (e # os_log w)"
  by (simp add: syscall_def Let_def)

lemma syscall_frame [simp, heap_simps]:
  "polls (log_call e w) = polls w" "socks (log_call e w) = socks w"
  "lexts (log_call e w) = lexts w" "ctxs (log_call e w) = ctxs w"
  "loops (log_call e w) = loops w" "cbs (log_call e w) = cbs w"
  "bufs (log_call e w) = bufs w" "brk (log_call e w) = brk w"
  "os_log (log_call e w) = e # os_log w" "os_fn (log_call e w) = os_fn w"
  by (simp_all add: log_call_def)

subsection \<open>Reading and writing structs through pointers\<close>

definition upd_sock :: "addr \<Rightarrow> (us_socket \<Rightarrow> us_socket) \<Rightarrow> world \<Rightarrow> world option" where
  "upd_sock p f w = do { s \<leftarrow> socks w p; Some (w\<lparr>socks := (socks w)(p \<mapsto> f s)\<rparr>) }"

definition upd_ctx :: "addr \<Rightarrow> (us_socket_context \<Rightarrow> us_socket_context) \<Rightarrow> world \<Rightarrow> world option" where
  "upd_ctx p f w = do { c \<leftarrow> ctxs w p; Some (w\<lparr>ctxs := (ctxs w)(p \<mapsto> f c)\<rparr>) }"

definition upd_loop :: "addr \<Rightarrow> (us_loop \<Rightarrow> us_loop) \<Rightarrow> world \<Rightarrow> world option" where
  "upd_loop p f w = do { l \<leftarrow> loops w p; Some (w\<lparr>loops := (loops w)(p \<mapsto> f l)\<rparr>) }"

definition upd_poll :: "addr \<Rightarrow> (us_poll \<Rightarrow> us_poll) \<Rightarrow> world \<Rightarrow> world option" where
  "upd_poll p f w = do { x \<leftarrow> polls w p; Some (w\<lparr>polls := (polls w)(p \<mapsto> f x)\<rparr>) }"

definition upd_cb :: "addr \<Rightarrow> (us_internal_callback \<Rightarrow> us_internal_callback) \<Rightarrow> world \<Rightarrow> world option" where
  "upd_cb p f w = do { x \<leftarrow> cbs w p; Some (w\<lparr>cbs := (cbs w)(p \<mapsto> f x)\<rparr>) }"

lemmas upd_defs = upd_sock_def upd_ctx_def upd_loop_def upd_poll_def upd_cb_def

lemma upd_sock_Some: "upd_sock p f w = Some w' \<longleftrightarrow>
    (\<exists>s. socks w p = Some s \<and> w' = w\<lparr>socks := (socks w)(p \<mapsto> f s)\<rparr>)"
  by (auto simp: upd_sock_def)

lemma upd_ctx_Some: "upd_ctx p f w = Some w' \<longleftrightarrow>
    (\<exists>c. ctxs w p = Some c \<and> w' = w\<lparr>ctxs := (ctxs w)(p \<mapsto> f c)\<rparr>)"
  by (auto simp: upd_ctx_def)

lemma upd_loop_Some: "upd_loop p f w = Some w' \<longleftrightarrow>
    (\<exists>l. loops w p = Some l \<and> w' = w\<lparr>loops := (loops w)(p \<mapsto> f l)\<rparr>)"
  by (auto simp: upd_loop_def)

lemma upd_poll_Some: "upd_poll p f w = Some w' \<longleftrightarrow>
    (\<exists>x. polls w p = Some x \<and> w' = w\<lparr>polls := (polls w)(p \<mapsto> f x)\<rparr>)"
  by (auto simp: upd_poll_def)


lemma upd_cb_Some: "upd_cb p f w = Some w' \<longleftrightarrow>
    (\<exists>x. cbs w p = Some x \<and> w' = w\<lparr>cbs := (cbs w)(p \<mapsto> f x)\<rparr>)"
  by (auto simp: upd_cb_def)

lemmas upd_Some = upd_sock_Some upd_ctx_Some upd_loop_Some upd_poll_Some upd_cb_Some

subsection \<open>A concrete world\<close>

text \<open>
  The world the concrete instances start from: one loop at address 1, addresses from 10 on
  are free, and a system whose calls return 5 and whose realloc always moves.
\<close>

definition os0 :: os where
  "os0 = \<lparr>sys_ret = \<lambda>_. 5, sys_errno = \<lambda>_. 0, sys_addrs = \<lambda>_. [], sys_ready = \<lambda>_. [],
          sys_bytes = \<lambda>_. [], sys_realloc = \<lambda>_ _. True\<rparr>"

definition loop0 :: us_loop where
  "loop0 = \<lparr>l_sweep_timer = 0, l_wakeup_async = 0, l_last_write_failed = 0, l_head = 0, l_iterator = 0,
            l_recv_buf = 0, l_ssl_data = 0, l_pre_cb = Fn_null, l_post_cb = Fn_null, l_closed_head = 0,
            l_num_polls = 0, l_num_fd_ready = 0, l_fd_iterator = 0, l_epfd = 3,
            l_ready_events = [(0, 0)]\<rparr>"

definition sock0 :: us_socket where
  "sock0 = \<lparr>s_context = 0, s_prev = 0, s_next = 0, s_timeout = 0\<rparr>"

definition ctx0 :: us_socket_context where
  "ctx0 = \<lparr>c_loop = 1, c_head = 0, c_iterator = 0, c_prev = 0, c_next = 0, c_on_open = Fn_null,
           c_on_data = Fn_null, c_on_writable = Fn_null, c_on_close = Fn_null,
           c_on_socket_timeout = Fn_null, c_on_end = Fn_null\<rparr>"

definition world0 :: world where
  "world0 = \<lparr>polls = Map.empty, socks = Map.empty, lexts = Map.empty, ctxs = Map.empty,
             loops = [1 \<mapsto> loop0], cbs = Map.empty, bufs = Map.empty, brk = 10, os_log = [], os_fn = os0,
             junk_poll = \<lparr>p_fd = 0, p_type = 0\<rparr>, junk_sock = sock0, junk_ctx = ctx0,
             junk_cb = \<lparr>cb_loop = 0, cb_expects_the_loop = False, cb_cb = Fn_null\<rparr>, junk_loop = loop0\<rparr>"

lemmas world0_defs = os0_def loop0_def sock0_def ctx0_def world0_def

end
