(* ===== verification/UsPoll.thy ===== *)
theory UsPoll
  imports UsTypes
begin

text \<open>
  Polls, timers and asyncs of the epoll backend (eventing/epoll.c). A poll keeps its file
  descriptor in 28 bits and its kind with the two polling bits in 4. The abstract view of
  the kernel side is \<open>epoll_interest\<close>: which events and which pointer the epoll instance
  holds for a descriptor after the calls in the log. The lemmas show that the bits of the
  poll and the kernel's interest list never drift apart.
\<close>

subsection \<open>The poll state word\<close>

definition poll_kind :: "us_poll \<Rightarrow> 4 word" where
  "poll_kind x = p_type x AND 3"

definition poll_events :: "us_poll \<Rightarrow> u32" where
  "poll_events x =
     (if p_type x AND POLL_TYPE_POLLING_IN \<noteq> 0 then LIBUS_SOCKET_READABLE else 0) OR
     (if p_type x AND POLL_TYPE_POLLING_OUT \<noteq> 0 then LIBUS_SOCKET_WRITABLE else 0)"

definition polling_bits :: "u32 \<Rightarrow> 4 word" where
  "polling_bits events =
     (if events AND LIBUS_SOCKET_READABLE \<noteq> 0 then POLL_TYPE_POLLING_IN else 0) OR
     (if events AND LIBUS_SOCKET_WRITABLE \<noteq> 0 then POLL_TYPE_POLLING_OUT else 0)"

definition us_internal_poll_type :: "addr \<Rightarrow> world \<Rightarrow> 4 word option" where
  "us_internal_poll_type p w = do { x \<leftarrow> polls w p; Some (poll_kind x) }"

definition us_poll_events :: "addr \<Rightarrow> world \<Rightarrow> u32 option" where
  "us_poll_events p w = do { x \<leftarrow> polls w p; Some (poll_events x) }"

definition us_poll_fd :: "addr \<Rightarrow> world \<Rightarrow> int option" where
  "us_poll_fd p w = do { x \<leftarrow> polls w p; Some (p_fd x) }"

definition us_poll_init :: "addr \<Rightarrow> int \<Rightarrow> 4 word \<Rightarrow> world \<Rightarrow> world option" where
  "us_poll_init p fd t = upd_poll p (\<lambda>x. x\<lparr>p_fd := signed_take_bit 27 fd, p_type := t\<rparr>)"

definition us_internal_poll_set_type :: "addr \<Rightarrow> 4 word \<Rightarrow> world \<Rightarrow> world option" where
  "us_internal_poll_set_type p t = upd_poll p (\<lambda>x. x\<lparr>p_type := t OR (p_type x AND 12)\<rparr>)"

subsection \<open>Starting, changing and stopping\<close>

definition us_poll_start :: "addr \<Rightarrow> addr \<Rightarrow> u32 \<Rightarrow> world \<Rightarrow> world option" where
  "us_poll_start p loop events w = do {
     w \<leftarrow> upd_poll p (\<lambda>x. x\<lparr>p_type := poll_kind x OR polling_bits events\<rparr>) w;
     fd \<leftarrow> us_poll_fd p w;
     l \<leftarrow> loops w loop;
     Some (log_call (Sys_epoll_add (l_epfd l) fd events p) w) }"

definition us_poll_change :: "addr \<Rightarrow> addr \<Rightarrow> u32 \<Rightarrow> world \<Rightarrow> world option" where
  "us_poll_change p loop events w = do {
     old \<leftarrow> us_poll_events p w;
     (if old \<noteq> events then do {
        w \<leftarrow> upd_poll p (\<lambda>x. x\<lparr>p_type := poll_kind x OR polling_bits events\<rparr>) w;
        fd \<leftarrow> us_poll_fd p w;
        l \<leftarrow> loops w loop;
        Some (log_call (Sys_epoll_mod (l_epfd l) fd events p) w) }
      else Some w) }"

definition us_poll_stop :: "addr \<Rightarrow> addr \<Rightarrow> world \<Rightarrow> world option" where
  "us_poll_stop p loop w = do {
     fd \<leftarrow> us_poll_fd p w;
     l \<leftarrow> loops w loop;
     Some (log_call (Sys_epoll_del (l_epfd l) fd) w) }"

subsection \<open>Allocation\<close>

text \<open>
  What the caller will cast the memory to, which is what its \<open>ext_size\<close> argument is
  computed from; the number is the size of the user's extension.
\<close>

datatype poll_ext = Ext_socket nat | Ext_listen | Ext_callback nat

definition alloc_poll :: "poll_ext \<Rightarrow> world \<Rightarrow> addr \<times> world" where
  "alloc_poll ext w =
     (let p = brk w; w = w\<lparr>brk := Suc p, polls := (polls w)(p \<mapsto> junk_poll w)\<rparr>
      in (p, case ext of
           Ext_socket n \<Rightarrow> w\<lparr>socks := (socks w)(p \<mapsto> junk_sock w)\<rparr>
         | Ext_listen \<Rightarrow> w\<lparr>socks := (socks w)(p \<mapsto> junk_sock w), lexts := (lexts w)(p \<mapsto> 0)\<rparr>
         | Ext_callback n \<Rightarrow> w\<lparr>cbs := (cbs w)(p \<mapsto> junk_cb w)\<rparr>))"

definition us_create_poll :: "addr \<Rightarrow> bool \<Rightarrow> poll_ext \<Rightarrow> world \<Rightarrow> (addr \<times> world) option" where
  "us_create_poll loop fallthrough ext w = do {
     w \<leftarrow> (if \<not> fallthrough then upd_loop loop (\<lambda>l. l\<lparr>l_num_polls := l_num_polls l + 1\<rparr>) w
           else Some w);
     Some (alloc_poll ext w) }"

definition us_poll_free :: "addr \<Rightarrow> addr \<Rightarrow> world \<Rightarrow> world option" where
  "us_poll_free p loop w = do {
     w \<leftarrow> upd_loop loop (\<lambda>l. l\<lparr>l_num_polls := l_num_polls l - 1\<rparr>) w;
     _ \<leftarrow> polls w p;
     Some (w\<lparr>polls := (polls w)(p := None), socks := (socks w)(p := None),
             lexts := (lexts w)(p := None), cbs := (cbs w)(p := None)\<rparr>) }"

text \<open>realloc moves the contents to a fresh address when the system decides to.\<close>

definition realloc_poll :: "addr \<Rightarrow> world \<Rightarrow> (addr \<times> world) option" where
  "realloc_poll p w = do {
     x \<leftarrow> polls w p;
     (if sys_realloc (os_fn w) (os_log w) p then
        (let q = brk w in
         Some (q, w\<lparr>brk := Suc q,
                    polls := (polls w)(p := None, q \<mapsto> x),
                    socks := (socks w)(p := None, q := socks w p),
                    lexts := (lexts w)(p := None, q := lexts w p),
                    cbs := (cbs w)(p := None, q := cbs w p)\<rparr>))
      else Some (p, w)) }"

text \<open>The search of the pending events for the moved pointer; reads past the array fault.\<close>

function patch_ready :: "addr \<Rightarrow> addr \<Rightarrow> nat \<Rightarrow> nat \<Rightarrow> (addr \<times> u32) list \<Rightarrow> (addr \<times> u32) list option" where
  "patch_ready p q i n es =
     (if i < n then
        if i < length es then
          if fst (es ! i) = p then Some (es[i := (q, snd (es ! i))])
          else patch_ready p q (Suc i) n es
        else None
      else Some es)"
  by pat_completeness auto
termination
  by (relation "measure (\<lambda>(p, q, i, n, es). n - i)") auto

declare patch_ready.simps [simp del]

text \<open>Strip the event bits, so that the change below is not a no-op, and set them again.\<close>

definition resize_rearm :: "addr \<Rightarrow> addr \<Rightarrow> addr \<Rightarrow> u32 \<Rightarrow> world \<Rightarrow> world option" where
  "resize_rearm p new_p loop events w =
     (if p \<noteq> new_p \<and> events \<noteq> 0 then do {
        w \<leftarrow> upd_poll new_p (\<lambda>x. x\<lparr>p_type := poll_kind x\<rparr>) w;
        us_poll_change new_p loop events w }
      else Some w)"

definition resize_pending :: "addr \<Rightarrow> addr \<Rightarrow> addr \<Rightarrow> world \<Rightarrow> world option" where
  "resize_pending p new_p loop w = do {
     l \<leftarrow> loops w loop;
     _ \<leftarrow> ensure (0 \<le> l_fd_iterator l \<and> nat (l_fd_iterator l) < length (l_ready_events l));
     (if fst (l_ready_events l ! nat (l_fd_iterator l)) \<noteq> p then do {
        es \<leftarrow> patch_ready p new_p (nat (l_fd_iterator l)) (nat (l_num_fd_ready l)) (l_ready_events l);
        upd_loop loop (\<lambda>l. l\<lparr>l_ready_events := es\<rparr>) w }
      else Some w) }"

definition us_poll_resize :: "addr \<Rightarrow> addr \<Rightarrow> world \<Rightarrow> (addr \<times> world) option" where
  "us_poll_resize p loop w = do {
     events \<leftarrow> us_poll_events p w;
     (new_p, w) \<leftarrow> realloc_poll p w;
     w \<leftarrow> resize_rearm p new_p loop events w;
     w \<leftarrow> resize_pending p new_p loop w;
     Some (new_p, w) }"

subsection \<open>Timers and asyncs\<close>

definition us_internal_accept_poll_event :: "addr \<Rightarrow> world \<Rightarrow> world option" where
  "us_internal_accept_poll_event p w = do { fd \<leftarrow> us_poll_fd p w; Some (log_call (Sys_read8 fd) w) }"

definition us_create_timer :: "addr \<Rightarrow> bool \<Rightarrow> nat \<Rightarrow> world \<Rightarrow> (addr \<times> world) option" where
  "us_create_timer loop fallthrough ext_size w = do {
     (p, w) \<leftarrow> us_create_poll loop fallthrough (Ext_callback ext_size) w;
     let (fd, w) = syscall Sys_timerfd_create w;
     w \<leftarrow> us_poll_init p fd POLL_TYPE_CALLBACK w;
     w \<leftarrow> upd_cb p (\<lambda>c. c\<lparr>cb_loop := loop, cb_expects_the_loop := False\<rparr>) w;
     Some (p, w) }"

definition us_timer_close :: "addr \<Rightarrow> world \<Rightarrow> world option" where
  "us_timer_close t w = do {
     c \<leftarrow> cbs w t;
     w \<leftarrow> us_poll_stop t (cb_loop c) w;
     fd \<leftarrow> us_poll_fd t w;
     us_poll_free t (cb_loop c) (log_call (Sys_close fd) w) }"

text \<open>
  The timer specification passed to timerfd_settime is
  (repeat seconds, repeat nanoseconds, first seconds, first nanoseconds).
\<close>

definition timer_spec :: "int \<Rightarrow> int \<Rightarrow> int \<times> int \<times> int \<times> int" where
  "timer_spec ms repeat_ms =
     (repeat_ms sdiv 1000, repeat_ms smod 1000000, ms sdiv 1000, ms smod 1000000)"

definition us_timer_set :: "addr \<Rightarrow> fnptr \<Rightarrow> int \<Rightarrow> int \<Rightarrow> world \<Rightarrow> world option" where
  "us_timer_set t cb ms repeat_ms w = do {
     w \<leftarrow> upd_cb t (\<lambda>c. c\<lparr>cb_cb := cb\<rparr>) w;
     c \<leftarrow> cbs w t;
     fd \<leftarrow> us_poll_fd t w;
     let (rs, rn, s, n) = timer_spec ms repeat_ms;
     us_poll_start t (cb_loop c) LIBUS_SOCKET_READABLE (log_call (Sys_timerfd_settime fd rs rn s n) w) }"

definition us_timer_loop :: "addr \<Rightarrow> world \<Rightarrow> addr option" where
  "us_timer_loop t w = do { c \<leftarrow> cbs w t; Some (cb_loop c) }"

definition us_internal_create_async :: "addr \<Rightarrow> bool \<Rightarrow> nat \<Rightarrow> world \<Rightarrow> (addr \<times> world) option" where
  "us_internal_create_async loop fallthrough ext_size w = do {
     (p, w) \<leftarrow> us_create_poll loop fallthrough (Ext_callback ext_size) w;
     let (fd, w) = syscall Sys_eventfd w;
     w \<leftarrow> us_poll_init p fd POLL_TYPE_CALLBACK w;
     w \<leftarrow> upd_cb p (\<lambda>c. c\<lparr>cb_loop := loop, cb_expects_the_loop := True\<rparr>) w;
     Some (p, w) }"

definition us_internal_async_close :: "addr \<Rightarrow> world \<Rightarrow> world option" where
  "us_internal_async_close a w = do {
     c \<leftarrow> cbs w a;
     w \<leftarrow> us_poll_stop a (cb_loop c) w;
     fd \<leftarrow> us_poll_fd a w;
     us_poll_free a (cb_loop c) (log_call (Sys_close fd) w) }"

definition us_internal_async_set :: "addr \<Rightarrow> fnptr \<Rightarrow> world \<Rightarrow> world option" where
  "us_internal_async_set a cb w = do {
     w \<leftarrow> upd_cb a (\<lambda>c. c\<lparr>cb_cb := cb\<rparr>) w;
     c \<leftarrow> cbs w a;
     us_poll_start a (cb_loop c) LIBUS_SOCKET_READABLE w }"

definition us_internal_async_wakeup :: "addr \<Rightarrow> world \<Rightarrow> world option" where
  "us_internal_async_wakeup a w = do {
     fd \<leftarrow> us_poll_fd a w;
     Some (log_call (Sys_write8 fd 1) w) }"


subsection \<open>The bits of a poll\<close>

lemma polling_bits_and [simp]:
  "polling_bits e AND 3 = 0"
  "polling_bits e AND 8 = (if e AND LIBUS_SOCKET_READABLE \<noteq> 0 then 8 else 0)"
  "polling_bits e AND 4 = (if e AND LIBUS_SOCKET_WRITABLE \<noteq> 0 then 4 else 0)"
  by (simp_all add: polling_bits_def poll_type_defs)

lemma and_or_mask: "((k :: 4 word) AND 3 OR b) AND m = (k AND (3 AND m)) OR (b AND m)"
  by (simp only: word_ao_dist and.assoc)

lemma poll_kind_upd [simp]:
  "poll_kind (x\<lparr>p_type := poll_kind x OR polling_bits e\<rparr>) = poll_kind x"
  by (simp add: poll_kind_def and_or_mask)

lemma poll_kind_idem [simp]: "poll_kind (x\<lparr>p_type := poll_kind x\<rparr>) = poll_kind x"
  by (simp add: poll_kind_def and.assoc)

lemma poll_events_strip [simp]: "poll_events (x\<lparr>p_type := poll_kind x\<rparr>) = 0"
  by (simp add: poll_kind_def poll_events_def and.assoc poll_type_defs)

definition poll_mask :: "u32 \<Rightarrow> bool" where
  "poll_mask e \<longleftrightarrow> e \<in> {0, LIBUS_SOCKET_READABLE, LIBUS_SOCKET_WRITABLE,
                       LIBUS_SOCKET_READABLE OR LIBUS_SOCKET_WRITABLE}"

lemma poll_events_upd:
  "poll_mask e \<Longrightarrow> poll_events (x\<lparr>p_type := poll_kind x OR polling_bits e\<rparr>) = e"
  by (auto simp: poll_mask_def poll_events_def poll_kind_def and_or_mask poll_type_defs event_defs)

lemma poll_events_mask [simp]: "poll_mask (poll_events x)"
  by (simp add: poll_mask_def poll_events_def)

lemma poll_mask_and [simp]:
  "poll_mask e \<Longrightarrow> poll_mask (e AND LIBUS_SOCKET_READABLE)"
  "poll_mask e \<Longrightarrow> poll_mask (e AND LIBUS_SOCKET_WRITABLE)"
  by (auto simp: poll_mask_def event_defs)

lemma set_type_events:
  assumes "t \<in> {POLL_TYPE_SOCKET, POLL_TYPE_SOCKET_SHUT_DOWN, POLL_TYPE_SEMI_SOCKET, POLL_TYPE_CALLBACK}"
  shows "poll_events (x\<lparr>p_type := t OR (p_type x AND 12)\<rparr>) = poll_events x"
    and "poll_kind (x\<lparr>p_type := t OR (p_type x AND 12)\<rparr>) = t"
proof -
  have d: "(t OR (p_type x AND 12)) AND m = (t AND m) OR (p_type x AND (12 AND m))" for m
    by (simp only: word_ao_dist and.assoc)
  show "poll_events (x\<lparr>p_type := t OR (p_type x AND 12)\<rparr>) = poll_events x"
    and "poll_kind (x\<lparr>p_type := t OR (p_type x AND 12)\<rparr>) = t"
    using assms by (auto simp: poll_events_def poll_kind_def poll_type_defs d)
qed

subsection \<open>The kernel's interest list\<close>

text \<open>
  What the epoll instance holds for a descriptor, by the documented effect of epoll_ctl: ADD
  fails on a registered descriptor, MOD and DEL fail on an unregistered one, and closing the
  descriptor removes it. The log is read from the newest call.
\<close>

fun epoll_interest :: "os_event list \<Rightarrow> int \<Rightarrow> int \<Rightarrow> (u32 \<times> addr) option" where
  "epoll_interest [] ep fd = None"
| "epoll_interest (Sys_epoll_add e f ev p # l) ep fd =
     (if e = ep \<and> f = fd \<and> epoll_interest l ep fd = None then Some (ev, p) else epoll_interest l ep fd)"
| "epoll_interest (Sys_epoll_mod e f ev p # l) ep fd =
     (if e = ep \<and> f = fd \<and> epoll_interest l ep fd \<noteq> None then Some (ev, p) else epoll_interest l ep fd)"
| "epoll_interest (Sys_epoll_del e f # l) ep fd =
     (if e = ep \<and> f = fd then None else epoll_interest l ep fd)"
| "epoll_interest (Sys_close f # l) ep fd = (if f = fd then None else epoll_interest l ep fd)"
| "epoll_interest (_ # l) ep fd = epoll_interest l ep fd"

text \<open>A poll is armed on a loop when the kernel watches its descriptor for its events, through it.\<close>

definition poll_armed :: "addr \<Rightarrow> addr \<Rightarrow> world \<Rightarrow> bool" where
  "poll_armed p loop w \<longleftrightarrow>
     (\<exists>x l. polls w p = Some x \<and> loops w loop = Some l \<and>
       epoll_interest (os_log w) (l_epfd l) (p_fd x) = Some (poll_events x, p))"

lemma us_poll_start_armed:
  assumes "us_poll_start p loop e w = Some w'" "poll_mask e"
    and "polls w p = Some x" "loops w loop = Some l"
    and "epoll_interest (os_log w) (l_epfd l) (p_fd x) = None"
  shows "poll_armed p loop w' \<and> us_poll_events p w' = Some e"
  using assms
  by (auto simp: us_poll_start_def upd_Some us_poll_fd_def poll_armed_def us_poll_events_def poll_events_upd)

lemma us_poll_change_Some:
  "us_poll_change p loop e w = Some w' \<longleftrightarrow>
     (\<exists>x. polls w p = Some x \<and>
       (if poll_events x = e then w' = w
        else (\<exists>l. loops w loop = Some l \<and>
          w' = log_call (Sys_epoll_mod (l_epfd l) (p_fd x) e p)
                 (w\<lparr>polls := (polls w)(p \<mapsto> x\<lparr>p_type := poll_kind x OR polling_bits e\<rparr>)\<rparr>))))"
  by (auto simp: us_poll_change_def upd_poll_def us_poll_fd_def us_poll_events_def)

lemma us_poll_change_armed:
  assumes "us_poll_change p loop e w = Some w'" "poll_mask e" "poll_armed p loop w"
  shows "poll_armed p loop w' \<and> us_poll_events p w' = Some e"
proof -
  from assms obtain x l where x: "polls w p = Some x" "loops w loop = Some l"
    "epoll_interest (os_log w) (l_epfd l) (p_fd x) = Some (poll_events x, p)"
    by (auto simp: poll_armed_def)
  with assms show ?thesis
    by (cases "poll_events x = e")
      (auto simp: us_poll_change_Some poll_armed_def us_poll_events_def poll_events_upd)
qed

lemma us_poll_change_frame:
  assumes "us_poll_change p loop e w = Some w'"
  shows "socks w' = socks w" "ctxs w' = ctxs w" "loops w' = loops w" "cbs w' = cbs w" "lexts w' = lexts w"
    "brk w' = brk w" "bufs w' = bufs w" "os_fn w' = os_fn w"
    "dom (polls w') = dom (polls w)"
    "q \<noteq> p \<Longrightarrow> polls w' q = polls w q"
    "map_option poll_kind (polls w' p) = map_option poll_kind (polls w p)"
    "map_option p_fd (polls w' p) = map_option p_fd (polls w p)"
  using assms by (auto simp: us_poll_change_Some split: if_splits)

lemma us_poll_change_total:
  assumes "p \<in> dom (polls w)" "loop \<in> dom (loops w)"
  shows "\<exists>w'. us_poll_change p loop e w = Some w'"
  using assms by (auto simp: us_poll_change_def upd_poll_def us_poll_events_def us_poll_fd_def)

subsection \<open>Moving a poll\<close>

text \<open>Addresses from the break on were never handed out.\<close>

definition fresh_ok :: "world \<Rightarrow> bool" where
  "fresh_ok w \<longleftrightarrow> (\<forall>p \<ge> brk w. polls w p = None \<and> socks w p = None \<and> lexts w p = None \<and>
      ctxs w p = None \<and> loops w p = None \<and> cbs w p = None) \<and> 0 < brk w"

lemma patch_ready_spec:
  assumes "patch_ready p q i n es = Some es'" "p \<noteq> q" "n \<le> length es"
    and "distinct (map fst (take n es))"
  shows "length es' = length es \<and> (\<forall>j. i \<le> j \<and> j < n \<longrightarrow> fst (es' ! j) \<noteq> p) \<and>
    (\<forall>j < length es. es' ! j = es ! j \<or> (fst (es ! j) = p \<and> es' ! j = (q, snd (es ! j))))"
  using assms
proof (induction p q i n es rule: patch_ready.induct)
  case (1 p q i n es)
  consider "n \<le> i" | "i < n" "fst (es ! i) = p" | "i < n" "fst (es ! i) \<noteq> p" by linarith
  then show ?case
  proof cases
    case 2
    have "fst (es ! j) \<noteq> p" if "i < j" "j < n" for j
    proof -
      have "map fst (take n es) ! i \<noteq> map fst (take n es) ! j"
        using 1(5) 2 that \<open>n \<le> length es\<close> by (subst nth_eq_iff_index_eq) auto
      with 2 that \<open>n \<le> length es\<close> show ?thesis by simp
    qed
    moreover have "es' = es[i := (q, snd (es ! i))]"
      using 1(2) 2 \<open>n \<le> length es\<close> by (simp add: patch_ready.simps [of p q i])
    ultimately show ?thesis
      using 2 1(3) \<open>n \<le> length es\<close> by (auto simp: nth_list_update)
  next
    case 3
    with 1 have *: "patch_ready p q (Suc i) n es = Some es'" by (simp add: patch_ready.simps [of p q i])
    have IH: "length es' = length es \<and> (\<forall>j. Suc i \<le> j \<and> j < n \<longrightarrow> fst (es' ! j) \<noteq> p) \<and>
      (\<forall>j < length es. es' ! j = es ! j \<or> (fst (es ! j) = p \<and> es' ! j = (q, snd (es ! j))))"
      using 3 \<open>n \<le> length es\<close> by (intro 1(1)) (use * 1 in auto)
    have "fst (es' ! i) \<noteq> p"
      using IH [THEN conjunct2, THEN conjunct2, rule_format, of i] 3 \<open>n \<le> length es\<close> by auto
    with IH show ?thesis by (metis Suc_leI le_neq_implies_less)
  qed (use 1 in \<open>auto simp: patch_ready.simps [of p q i]\<close>)
qed

lemma realloc_poll_Some:
  "realloc_poll p w = Some (q, w') \<Longrightarrow> q \<noteq> p \<Longrightarrow>
    (\<exists>x. polls w p = Some x \<and> q = brk w \<and>
       w' = w\<lparr>brk := Suc q, polls := (polls w)(p := None, q \<mapsto> x), socks := (socks w)(p := None, q := socks w p),
              lexts := (lexts w)(p := None, q := lexts w p), cbs := (cbs w)(p := None, q := cbs w p)\<rparr>)"
  "realloc_poll p w = Some (p, w') \<Longrightarrow> fresh_ok w \<Longrightarrow> w' = w"
  by (auto simp: realloc_poll_def Let_def fresh_ok_def split: if_splits)

lemma resize_pending_frame:
  assumes "resize_pending p q loop w = Some w'"
  shows "polls w' = polls w" "socks w' = socks w" "ctxs w' = ctxs w" "os_log w' = os_log w" "brk w' = brk w"
    "cbs w' = cbs w" "lexts w' = lexts w" "os_fn w' = os_fn w" "bufs w' = bufs w"
    "map_option l_epfd \<circ> loops w' = map_option l_epfd \<circ> loops w"
    "dom (loops w') = dom (loops w)"
  using assms by (auto simp: resize_pending_def upd_loop_Some fun_eq_iff split: if_splits)


lemma realloc_poll_new:
  assumes "realloc_poll p w = Some (q, w')" "fresh_ok w" "polls w p = Some x"
  shows "polls w' q = Some x" "q \<noteq> p \<Longrightarrow> polls w' p = None" "loops w' = loops w" "os_log w' = os_log w"
    "ctxs w' = ctxs w" "r \<noteq> p \<Longrightarrow> r \<noteq> q \<Longrightarrow> polls w' r = polls w r"
    "socks w' q = socks w p" "r \<noteq> p \<Longrightarrow> r \<noteq> q \<Longrightarrow> socks w' r = socks w r"
proof -
  have "\<not> brk w \<le> p" using assms(2,3) by (auto simp: fresh_ok_def)
  then have "p < brk w" by simp
  with assms show "polls w' q = Some x" "q \<noteq> p \<Longrightarrow> polls w' p = None" "loops w' = loops w"
    "os_log w' = os_log w" "ctxs w' = ctxs w" "r \<noteq> p \<Longrightarrow> r \<noteq> q \<Longrightarrow> polls w' r = polls w r"
    "socks w' q = socks w p" "r \<noteq> p \<Longrightarrow> r \<noteq> q \<Longrightarrow> socks w' r = socks w r"
    by (auto simp: realloc_poll_def Let_def split: if_splits)
qed

lemma resize_rearm_frame:
  assumes "resize_rearm p q loop e w = Some w'"
  shows "socks w' = socks w" "ctxs w' = ctxs w" "loops w' = loops w" "brk w' = brk w"
    "r \<noteq> q \<Longrightarrow> polls w' r = polls w r"
  using assms
  by (auto simp: resize_rearm_def upd_Some us_poll_change_Some split: if_splits)

lemma resize_rearm_armed:
  assumes "resize_rearm p q loop e w = Some w'" "p \<noteq> q" "e \<noteq> 0" "poll_mask e"
    and "polls w q = Some x" "loops w loop = Some l" "epoll_interest (os_log w) (l_epfd l) (p_fd x) = Some i"
  shows "poll_armed q loop w' \<and> us_poll_events q w' = Some e"
proof -
  have "\<exists>y. polls w' q = Some y \<and> poll_events y = e \<and> p_fd y = p_fd x \<and> loops w' = loops w \<and>
      os_log w' = Sys_epoll_mod (l_epfd l) (p_fd x) e q # os_log w"
    using assms by (auto simp: resize_rearm_def upd_Some us_poll_change_Some poll_events_upd poll_events_strip)
  with assms show ?thesis by (auto simp: poll_armed_def us_poll_events_def)
qed

lemma resize_pending_armed:
  assumes "resize_pending p q loop w = Some w'"
  shows "poll_armed r l w' \<longleftrightarrow> poll_armed r l w"
proof -
  have e: "map_option l_epfd (loops w' l) = map_option l_epfd (loops w l)"
    using resize_pending_frame(10) [OF assms] by (simp add: fun_eq_iff)
  then show ?thesis
    by (cases "loops w l"; cases "loops w' l")
      (auto simp: poll_armed_def resize_pending_frame(1,4) [OF assms])
qed

lemma resize_pending_patched:
  assumes "resize_pending p q loop w = Some w'" "loops w loop = Some l" "p \<noteq> q"
    and "fst (l_ready_events l ! nat (l_fd_iterator l)) \<noteq> p"
    and "nat (l_num_fd_ready l) \<le> length (l_ready_events l)"
    and "distinct (map fst (take (nat (l_num_fd_ready l)) (l_ready_events l)))"
  shows "\<exists>l'. loops w' loop = Some l' \<and> l_fd_iterator l' = l_fd_iterator l \<and> l_num_fd_ready l' = l_num_fd_ready l \<and>
    (\<forall>j. nat (l_fd_iterator l) \<le> j \<and> j < nat (l_num_fd_ready l) \<longrightarrow> fst (l_ready_events l' ! j) \<noteq> p)"
proof -
  from assms obtain es where
    es: "patch_ready p q (nat (l_fd_iterator l)) (nat (l_num_fd_ready l)) (l_ready_events l) = Some es"
    and w': "w' = w\<lparr>loops := (loops w)(loop \<mapsto> l\<lparr>l_ready_events := es\<rparr>)\<rparr>"
    by (auto simp: resize_pending_def upd_Some split: if_splits)
  from patch_ready_spec [OF es assms(3,5,6)] w' show ?thesis by simp
qed

text \<open>The effect of a resize on the tables: the socket moves with its poll, nothing else changes.\<close>

lemma us_poll_resize_frame:
  assumes "us_poll_resize p loop w = Some (q, w')" "fresh_ok w" "p \<in> dom (polls w)"
  shows "socks w' q = socks w p" "r \<noteq> p \<Longrightarrow> r \<noteq> q \<Longrightarrow> socks w' r = socks w r" "ctxs w' = ctxs w"
    "q = p \<or> q = brk w"
proof -
  from assms obtain x where x: "polls w p = Some x" by auto
  from assms obtain w1 w2 e where w: "realloc_poll p w = Some (q, w1)" "resize_rearm p q loop e w1 = Some w2"
    "resize_pending p q loop w2 = Some w'"
    by (auto simp: us_poll_resize_def)
  note r = realloc_poll_new [OF w(1) assms(2) x]
  show "socks w' q = socks w p" "r \<noteq> p \<Longrightarrow> r \<noteq> q \<Longrightarrow> socks w' r = socks w r" "ctxs w' = ctxs w"
    using r resize_rearm_frame [OF w(2)] resize_pending_frame [OF w(3)] by auto
  show "q = p \<or> q = brk w" using w(1) realloc_poll_Some(1) by blast
qed

lemma us_poll_resize_armed:
  assumes "us_poll_resize p loop w = Some (q, w')" "fresh_ok w" "poll_armed p loop w"
    and "us_poll_events p w = Some e"
  shows "(e \<noteq> 0 \<or> q = p \<longrightarrow> poll_armed q loop w') \<and> us_poll_events q w' = Some e \<and> (q \<noteq> p \<longrightarrow> polls w' p = None)"
proof -
  from assms obtain x l where x: "polls w p = Some x" "loops w loop = Some l" "e = poll_events x"
    "epoll_interest (os_log w) (l_epfd l) (p_fd x) = Some (poll_events x, p)"
    by (auto simp: poll_armed_def us_poll_events_def)
  from assms obtain w1 w2 where w: "realloc_poll p w = Some (q, w1)" "resize_rearm p q loop e w1 = Some w2"
    "resize_pending p q loop w2 = Some w'"
    by (auto simp: us_poll_resize_def)
  note r = realloc_poll_new [OF w(1) assms(2) x(1)]
  show ?thesis
  proof (cases "q = p")
    case True
    have "w1 = w" using w(1) True assms(2) realloc_poll_Some(2) by simp
    then have "w2 = w" using w(2) True by (simp add: resize_rearm_def)
    with True show ?thesis
      using resize_pending_armed [OF w(3)] resize_pending_frame(1) [OF w(3)] assms
      by (simp add: us_poll_events_def)
  next
    case False
    have a: "poll_armed q loop w2 \<and> us_poll_events q w2 = Some e" if "e \<noteq> 0"
      using x r False that by (intro resize_rearm_armed [OF w(2)]) auto
    moreover have "us_poll_events q w2 = Some e" 
      using w(2) a r(1) x(3) by (cases "e = 0") (simp_all add: resize_rearm_def us_poll_events_def)
    moreover have "polls w' p = None"
      using False r resize_rearm_frame(5) [OF w(2), of p] resize_pending_frame(1) [OF w(3)] by simp
    ultimately show ?thesis
      using False resize_pending_armed [OF w(3)] resize_pending_frame(1) [OF w(3)]
      by (simp add: us_poll_events_def)
  qed
qed

text \<open>A resize reads the pending events, which are there when the iterator and the number of events lie in their array.\<close>

definition pending_ok :: "us_loop \<Rightarrow> bool" where
  "pending_ok l \<longleftrightarrow> 0 \<le> l_fd_iterator l \<and> nat (l_fd_iterator l) < length (l_ready_events l) \<and>
     nat (l_num_fd_ready l) \<le> length (l_ready_events l)"

lemma patch_ready_total: "n \<le> length es \<Longrightarrow> patch_ready p q i n es \<noteq> None"
  by (induction p q i n es rule: patch_ready.induct) (subst patch_ready.simps, auto)

lemma us_poll_resize_total:
  assumes "fresh_ok w" "p \<in> dom (polls w)" "loops w loop = Some l" "pending_ok l"
  shows "us_poll_resize p loop w \<noteq> None"
proof -
  obtain x where x: "polls w p = Some x" using assms(2) by auto
  have "realloc_poll p w \<noteq> None" using x by (simp add: realloc_poll_def Let_def)
  then obtain q w1 where w1: "realloc_poll p w = Some (q, w1)" by auto
  note r = realloc_poll_new [OF w1 assms(1) x]
  have "resize_rearm p q loop (poll_events x) w1 \<noteq> None"
    using r(1,3) assms(3) by (simp add: resize_rearm_def upd_poll_def us_poll_change_def us_poll_events_def us_poll_fd_def del: bind_eq_Some)
  then obtain w2 where w2: "resize_rearm p q loop (poll_events x) w1 = Some w2" by auto
  have "loops w2 loop = Some l" using resize_rearm_frame [OF w2] r(3) assms(3) by auto
  then have "resize_pending p q loop w2 \<noteq> None"
    using patch_ready_total assms(4) by (fastforce simp: resize_pending_def pending_ok_def ensure_def upd_loop_def)
  then show ?thesis using x w1 w2 by (auto simp: us_poll_resize_def us_poll_events_def)
qed

subsection \<open>Properties\<close>

text \<open>A poll that is registered with an empty event set (as after a received FIN) is not
re-registered when it moves: the kernel keeps the freed address, which EPOLLHUP and EPOLLERR
still report.\<close>

theorem us_poll_resize_stale:
  assumes "us_poll_resize p loop w = Some (q, w')" "fresh_ok w" "poll_armed p loop w"
    and "us_poll_events p w = Some 0" "q \<noteq> p"
  shows "\<exists>x l. polls w' q = Some x \<and> loops w' loop = Some l \<and>
    epoll_interest (os_log w') (l_epfd l) (p_fd x) = Some (0, p) \<and> polls w' p = None"
proof -
  from assms obtain x l where x: "polls w p = Some x" "loops w loop = Some l" "poll_events x = 0"
    "epoll_interest (os_log w) (l_epfd l) (p_fd x) = Some (poll_events x, p)"
    by (auto simp: poll_armed_def us_poll_events_def)
  from assms obtain w1 where w: "realloc_poll p w = Some (q, w1)" "resize_pending p q loop w1 = Some w'"
    by (auto simp: us_poll_resize_def resize_rearm_def)
  note r = realloc_poll_new [OF w(1) assms(2) x(1)]
  have "map_option l_epfd (loops w' loop) = map_option l_epfd (loops w1 loop)"
    using resize_pending_frame(10) [OF w(2)] by (simp add: fun_eq_iff)
  then show ?thesis
    using r x assms(5) resize_pending_frame(1,4) [OF w(2)] by (cases "loops w' loop") auto
qed

text \<open>The time a timer specification asks for, in nanoseconds.\<close>

definition timer_ns :: "int \<times> int \<Rightarrow> int" where
  "timer_ns = (\<lambda>(s, n). s * 1000000000 + n)"

lemma timer_spec_pos:
  assumes "0 \<le> ms" "0 \<le> r"
  shows "timer_spec ms r = (r div 1000, r mod 1000000, ms div 1000, ms mod 1000000)"
  using assms by (simp add: timer_spec_def signed_divide_int_def signed_modulo_int_def sgn_if)

lemma mod_mega: "(ms :: int) mod 1000000 = (ms mod 1000) * 1000000 \<longleftrightarrow> 1000000 dvd ms"
proof
  assume *: "ms mod 1000000 = (ms mod 1000) * 1000000"
  have "ms mod 1000000 < 1000000" "0 \<le> ms mod 1000" by simp_all
  with * have "ms mod 1000 = 0" by linarith
  with * show "1000000 dvd ms" by (simp add: dvd_eq_mod_eq_0)
next
  assume *: "1000000 dvd ms"
  then have "1000 dvd ms" by (rule dvd_trans [rotated]) simp
  with * show "ms mod 1000000 = (ms mod 1000) * 1000000" by simp
qed

text \<open>The specification of a timer of ms milliseconds is well formed (less than a
millisecond of nanoseconds), and it asks for ms milliseconds exactly when ms is a multiple of
1000000: the nanosecond field is ms modulo 1000000, not the milliseconds left over.\<close>

theorem timer_spec_delay:
  assumes "0 \<le> ms" "0 \<le> r" "timer_spec ms r = (rs, rn, s, n)"
  shows "0 \<le> n \<and> n < 1000000 \<and> (timer_ns (s, n) = ms * 1000000 \<longleftrightarrow> 1000000 dvd ms)"
proof -
  have sn: "s = ms div 1000" "n = ms mod 1000000" using assms by (auto simp: timer_spec_pos)
  have "ms = 1000 * s + ms mod 1000" by (simp add: sn)
  then have "timer_ns (s, n) = ms * 1000000 \<longleftrightarrow> n = (ms mod 1000) * 1000000"
    unfolding timer_ns_def by simp linarith
  with sn mod_mega show ?thesis by simp
qed



text \<open>Creating a timer and closing it leaves the loop's poll count as it was for a
counted timer, and one too small for a fallthrough timer, which was never counted. The poll and
the callback are freed.\<close>

lemma us_timer_close_num_polls:
  assumes "us_create_timer loop ft n w = Some (t, w1)" "us_timer_close t w1 = Some w2" "loops w loop = Some l"
  shows "\<exists>l2. loops w2 loop = Some l2 \<and> l_num_polls l2 = l_num_polls l - (if ft then 1 else 0) \<and>
    polls w2 t = None \<and> cbs w2 t = None"
  using assms
  by (auto simp: us_create_timer_def us_timer_close_def us_create_poll_def us_poll_free_def us_poll_stop_def
      us_poll_fd_def us_poll_init_def alloc_poll_def upd_Some syscall_def Let_def log_call_def
      split: if_splits)

lemma us_timer_close_num_polls_witness:
  "\<exists>t w1 w2. us_create_timer 1 True 0 world0 = Some (t, w1) \<and> us_timer_close t w1 = Some w2 \<and>
    map_option l_num_polls (loops w2 1) = Some (-1)"
proof -
  define r where "r = the (us_create_timer 1 True 0 world0)"
  have r: "us_create_timer 1 True 0 world0 = Some (fst r, snd r)"
    by (simp add: r_def us_create_timer_def us_create_poll_def us_poll_init_def alloc_poll_def upd_defs
        syscall_def world0_defs)
  have "\<exists>w2. us_timer_close (fst r) (snd r) = Some w2"
    by (simp add: r_def us_create_timer_def us_create_poll_def us_poll_init_def alloc_poll_def upd_defs
        syscall_def world0_defs us_timer_close_def us_poll_stop_def us_poll_fd_def us_poll_free_def log_call_def)
  then obtain w2 where w2: "us_timer_close (fst r) (snd r) = Some w2" by blast
  have "loops world0 1 = Some loop0" by (simp add: world0_def)
  from us_timer_close_num_polls [OF r w2 this] r w2 show ?thesis
    by (cases r) (auto simp: loop0_def)
qed

text \<open>A world with one armed poll at address 7.\<close>

definition polled_world :: "u32 \<Rightarrow> world" where
  "polled_world e = world0\<lparr>polls := [7 \<mapsto> \<lparr>p_fd = 4, p_type = polling_bits e\<rparr>],
      os_log := [Sys_epoll_add 3 4 e 7]\<rparr>"

lemma polled_world_ok: "fresh_ok (polled_world e)"
  by (simp add: polled_world_def fresh_ok_def world0_def)

lemma polled_world_armed: "poll_mask e \<Longrightarrow> poll_armed 7 1 (polled_world e) \<and> us_poll_events 7 (polled_world e) = Some e"
  by (auto simp: polled_world_def poll_armed_def world0_def loop0_def us_poll_events_def poll_mask_def
      polling_bits_def poll_events_def poll_type_defs event_defs)


lemma us_poll_resize_stale_witness:
  "\<exists>q w'. us_poll_resize 7 1 (polled_world 0) = Some (q, w') \<and> epoll_interest (os_log w') 3 4 = Some (0, 7) \<and> polls w' 7 = None"
proof -
  let ?w = "polled_world 0"
  have m: "poll_mask 0" by (simp add: poll_mask_def)
  have "\<exists>w'. us_poll_resize 7 1 ?w = Some (10, w')"
    "\<And>w' l. us_poll_resize 7 1 ?w = Some (10, w') \<Longrightarrow> (\<forall>x. polls w' 10 = Some x \<longrightarrow> p_fd x = 4) \<and> (loops w' 1 = Some l \<longrightarrow> l_epfd l = 3)"
    by (auto simp: us_poll_resize_def polled_world_def realloc_poll_def resize_rearm_def us_poll_change_def
       us_poll_events_def resize_pending_def upd_defs world0_defs us_poll_fd_def poll_events_def polling_bits_def
       poll_kind_def poll_type_defs event_defs patch_ready.simps)
  then obtain w' where w': "us_poll_resize 7 1 ?w = Some (10, w')"
    and *: "\<And>l. (\<forall>x. polls w' 10 = Some x \<longrightarrow> p_fd x = 4) \<and> (loops w' 1 = Some l \<longrightarrow> l_epfd l = 3)" by blast
  from us_poll_resize_stale [OF w' polled_world_ok] polled_world_armed [OF m] *
  have "epoll_interest (os_log w') 3 4 = Some (0, 7) \<and> polls w' 7 = None" by auto
  with w' show ?thesis by (intro exI [of _ 10] exI [of _ w']) simp
qed

lemma timer_spec_delay_witness:
  "timer_spec 1500 4000 = (4, 4000, 1, 1500) \<and> timer_ns (1, 1500) \<noteq> 1500 * 1000000"
proof -
  have s: "timer_spec 1500 4000 = (4, 4000, 1, 1500)" by (simp add: timer_spec_pos)
  from timer_spec_delay [OF _ _ s] have "timer_ns (1, 1500) = 1500 * 1000000 \<longleftrightarrow> (1000000 :: int) dvd 1500" by simp
  with s show ?thesis by simp
qed

end
