(* ===== verification/UsBsd.thy ===== *)
theory UsBsd
  imports UsTypes
begin

text \<open>
  The wrappers of the socket calls (internal/networking/bsd.h), on Linux: SOCK_CLOEXEC and
  SOCK_NONBLOCK are given to socket and accept4, TCP_CORK and MSG_MORE exist, the
  Windows and Apple branches are compiled out. \<open>open_fds\<close> is the set of descriptors that the
  calls of a log left open; the lemmas show which descriptors each operation leaves behind.
\<close>

definition apple_no_sigpipe :: "int \<Rightarrow> int" where
  "apple_no_sigpipe fd = fd"

definition bsd_socket_nodelay :: "int \<Rightarrow> int \<Rightarrow> world \<Rightarrow> world" where
  "bsd_socket_nodelay fd enabled w = log_call (Sys_setsockopt fd Tcp_nodelay enabled) w"

definition bsd_socket_flush :: "int \<Rightarrow> world \<Rightarrow> world" where
  "bsd_socket_flush fd w = log_call (Sys_setsockopt fd Tcp_cork 0) w"

definition bsd_create_socket :: "int \<Rightarrow> int \<Rightarrow> int \<Rightarrow> world \<Rightarrow> int \<times> world" where
  "bsd_create_socket domain type protocol w =
     (let (created_fd, w) = syscall (Sys_socket domain type protocol) w
      in (apple_no_sigpipe created_fd, w))"

definition bsd_close_socket :: "int \<Rightarrow> world \<Rightarrow> world" where
  "bsd_close_socket fd w = log_call (Sys_close fd) w"

definition bsd_shutdown_socket :: "int \<Rightarrow> world \<Rightarrow> world" where
  "bsd_shutdown_socket fd w = log_call (Sys_shutdown_wr fd) w"

definition bsd_accept_socket :: "int \<Rightarrow> world \<Rightarrow> int \<times> world" where
  "bsd_accept_socket fd w =
     (let (accepted_fd, w) = syscall (Sys_accept fd) w in (apple_no_sigpipe accepted_fd, w))"

definition bsd_recv :: "int \<Rightarrow> int \<Rightarrow> world \<Rightarrow> int \<times> bytes \<times> world" where
  "bsd_recv fd len w =
     (let (n, w) = syscall (Sys_recv fd len) w in (n, take (nat n) (sys_bytes (os_fn w) (os_log w)), w))"

definition MSG_NOSIGNAL :: int where "MSG_NOSIGNAL = 0x4000"
definition MSG_MORE :: int where "MSG_MORE = 0x8000"

text \<open>The bytes given to send are those the length argument counts.\<close>

definition bsd_send :: "int \<Rightarrow> bytes \<Rightarrow> int \<Rightarrow> world \<Rightarrow> int \<times> world" where
  "bsd_send fd data msg_more w = syscall (Sys_send fd data ((msg_more * MSG_MORE) OR MSG_NOSIGNAL)) w"

definition EWOULDBLOCK :: int where "EWOULDBLOCK = 11"

definition bsd_would_block :: "world \<Rightarrow> bool" where
  "bsd_would_block w \<longleftrightarrow> sys_errno (os_fn w) (os_log w) = EWOULDBLOCK"

subsection \<open>Listen and connect sockets\<close>

definition AF_INET :: int where "AF_INET = 2"
definition AF_INET6 :: int where "AF_INET6 = 10"

text \<open>One of the two passes over the address list; it leaves the descriptor and its address.\<close>

fun listen_pass :: "int \<Rightarrow> addrinfo list \<Rightarrow> int \<times> nat \<times> world \<Rightarrow> int \<times> nat \<times> world" where
  "listen_pass family [] st = st"
| "listen_pass family (a # as) (listenFd, listenAddr, w) =
     (if listenFd = LIBUS_SOCKET_ERROR then
        (if ai_family a = family then
           (let (fd, w) = bsd_create_socket (ai_family a) (ai_socktype a) (ai_protocol a) w
            in listen_pass family as (fd, ai_addr a, w))
         else listen_pass family as (listenFd, listenAddr, w))
      else (listenFd, listenAddr, w))"

definition listen_options :: "int \<Rightarrow> world \<Rightarrow> world" where
  "listen_options fd w =
     log_call (Sys_setsockopt fd Ipv6_v6only 0) (log_call (Sys_setsockopt fd So_reuseaddr 1)
       (log_call (Sys_setsockopt fd So_reuseport 1) w))"

definition listen_bind :: "int \<Rightarrow> nat \<Rightarrow> world \<Rightarrow> int \<times> world" where
  "listen_bind fd addr w =
     (let (b, w) = syscall (Sys_bind fd addr) w;
          (failed, w) = (if b \<noteq> 0 then (True, w)
                         else let (l, w) = syscall (Sys_listen fd 512) w in (l \<noteq> 0, w))
      in if failed then (LIBUS_SOCKET_ERROR, log_call Sys_freeaddrinfo (bsd_close_socket fd w))
         else (fd, log_call Sys_freeaddrinfo w))"

definition bsd_create_listen_socket :: "string option \<Rightarrow> int \<Rightarrow> int \<Rightarrow> world \<Rightarrow> int \<times> world" where
  "bsd_create_listen_socket host port options w =
     (let (r, w) = syscall (Sys_getaddrinfo host (sprintf_d port) True) w in
      if r \<noteq> 0 then (LIBUS_SOCKET_ERROR, w)
      else
        let result = sys_addrs (os_fn w) (os_log w);
            (listenFd, listenAddr, w) =
              listen_pass AF_INET result (listen_pass AF_INET6 result (LIBUS_SOCKET_ERROR, 0, w))
        in if listenFd = LIBUS_SOCKET_ERROR then (LIBUS_SOCKET_ERROR, log_call Sys_freeaddrinfo w)
           else listen_bind listenFd listenAddr (listen_options listenFd w))"

text \<open>The first address is read without a test, so an empty answer would fault.\<close>

definition bsd_create_connect_socket :: "string option \<Rightarrow> int \<Rightarrow> int \<Rightarrow> world \<Rightarrow> (int \<times> world) option" where
  "bsd_create_connect_socket host port options w =
     (let (r, w) = syscall (Sys_getaddrinfo host (sprintf_d port) False) w in
      if r \<noteq> 0 then Some (LIBUS_SOCKET_ERROR, w)
      else case sys_addrs (os_fn w) (os_log w) of
        [] \<Rightarrow> None
      | a # _ \<Rightarrow>
         (let (fd, w) = bsd_create_socket (ai_family a) (ai_socktype a) (ai_protocol a) w in
          if fd = LIBUS_SOCKET_ERROR then Some (LIBUS_SOCKET_ERROR, log_call Sys_freeaddrinfo w)
          else Some (fd, log_call Sys_freeaddrinfo (log_call (Sys_connect fd (ai_addr a)) w))))"

subsection \<open>Which descriptors are open\<close>

fun open_fds :: "os \<Rightarrow> os_event list \<Rightarrow> int set" where
  "open_fds f [] = {}"
| "open_fds f (Sys_socket a b c # l) =
     (if sys_ret f (Sys_socket a b c # l) = LIBUS_SOCKET_ERROR then open_fds f l
      else insert (sys_ret f (Sys_socket a b c # l)) (open_fds f l))"
| "open_fds f (Sys_accept a # l) =
     (if sys_ret f (Sys_accept a # l) = LIBUS_SOCKET_ERROR then open_fds f l
      else insert (sys_ret f (Sys_accept a # l)) (open_fds f l))"
| "open_fds f (Sys_close fd # l) = open_fds f l - {fd}"
| "open_fds f (_ # l) = open_fds f l"

text \<open>The system hands out descriptors that are not open.\<close>

definition os_fresh :: "os \<Rightarrow> bool" where
  "os_fresh f \<longleftrightarrow> (\<forall>l a b c. sys_ret f (Sys_socket a b c # l) \<notin> open_fds f l)"

text \<open>The run of a pass: it opens at most one descriptor, of its family, and logs only socket calls.\<close>

lemma listen_pass_done: "fd \<noteq> LIBUS_SOCKET_ERROR \<Longrightarrow> listen_pass fam as (fd, a, w) = (fd, a, w)"
  by (cases as) auto

lemma listen_pass_spec:
  assumes "listen_pass fam as (LIBUS_SOCKET_ERROR, a0, w) = (fd, a, w')"
  shows "os_fn w' = os_fn w \<and>
    (if fd = LIBUS_SOCKET_ERROR then open_fds (os_fn w) (os_log w') = open_fds (os_fn w) (os_log w)
     else (\<exists>x \<in> set as. ai_family x = fam \<and> ai_addr x = a) \<and>
       open_fds (os_fn w) (os_log w') = insert fd (open_fds (os_fn w) (os_log w)) \<and>
       (os_fresh (os_fn w) \<longrightarrow> fd \<notin> open_fds (os_fn w) (os_log w)))"
  using assms
proof (induction as arbitrary: w a0)
  case (Cons x as)
  show ?case
  proof (cases "ai_family x = fam")
    case True
    define e where "e = Sys_socket (ai_family x) (ai_socktype x) (ai_protocol x)"
    define r where "r = sys_ret (os_fn w) (e # os_log w)"
    have step: "listen_pass fam as (r, ai_addr x, log_call e w) = (fd, a, w')"
      using Cons.prems True
      by (simp add: bsd_create_socket_def apple_no_sigpipe_def syscall_def log_call_def Let_def r_def e_def)
    show ?thesis
    proof (cases "r = LIBUS_SOCKET_ERROR")
      case True
      then show ?thesis using Cons.IH [of "ai_addr x" "log_call e w"] step
        by (auto simp: r_def e_def split: if_splits)
    next
      case False
      then have "fd = r \<and> a = ai_addr x \<and> w' = log_call e w" using step by (simp add: listen_pass_done)
      with False \<open>ai_family x = fam\<close> show ?thesis by (auto simp: r_def e_def os_fresh_def)
    qed
  qed (use Cons in \<open>auto split: if_splits\<close>)
qed simp


text \<open>The newest calls are a successful bind and a successful listen on the descriptor.\<close>

definition listening :: "int \<Rightarrow> world \<Rightarrow> bool" where
  "listening fd w \<longleftrightarrow> (\<exists>a l. os_log w = Sys_freeaddrinfo # Sys_listen fd 512 # Sys_bind fd a # l \<and>
     sys_ret (os_fn w) (Sys_listen fd 512 # Sys_bind fd a # l) = 0 \<and>
     sys_ret (os_fn w) (Sys_bind fd a # l) = 0)"

lemma listen_bind_spec:
  assumes "listen_bind fd addr w = (r, w')"
  shows "(r = LIBUS_SOCKET_ERROR \<and> open_fds (os_fn w) (os_log w') = open_fds (os_fn w) (os_log w) - {fd}) \<or>
    (r = fd \<and> listening fd w' \<and> open_fds (os_fn w) (os_log w') = open_fds (os_fn w) (os_log w))"
  using assms
  by (auto simp: listen_bind_def syscall_def log_call_def bsd_close_socket_def listening_def Let_def split: if_splits)

lemma listen_options_frame [simp]:
  "os_fn (listen_options fd w) = os_fn w"
  "open_fds f (os_log (listen_options fd w)) = open_fds f (os_log w)"
  by (simp_all add: listen_options_def)

lemma listen_passes_spec:
  assumes "listen_pass AF_INET as (listen_pass AF_INET6 as (LIBUS_SOCKET_ERROR, 0, w)) = (fd, a, w')"
  shows "os_fn w' = os_fn w \<and>
    (if fd = LIBUS_SOCKET_ERROR then open_fds (os_fn w) (os_log w') = open_fds (os_fn w) (os_log w)
     else open_fds (os_fn w) (os_log w') = insert fd (open_fds (os_fn w) (os_log w)) \<and>
       (os_fresh (os_fn w) \<longrightarrow> fd \<notin> open_fds (os_fn w) (os_log w)))"
proof -
  obtain f1 a1 w1 where 1: "listen_pass AF_INET6 as (LIBUS_SOCKET_ERROR, 0, w) = (f1, a1, w1)"
    by (metis prod_cases3)
  show ?thesis
  proof (cases "f1 = LIBUS_SOCKET_ERROR")
    case True
    then show ?thesis
      using listen_pass_spec [OF 1] assms listen_pass_spec [of AF_INET as a1 w1 fd a w'] 1
      by (auto split: if_splits)
  next
    case False
    then show ?thesis
      using listen_pass_spec [OF 1] assms 1 listen_pass_done [of f1 AF_INET as a1 w1] by (auto split: if_splits)
  qed
qed

text \<open>C24: Creating a listen socket leaks no descriptor: when it fails, the descriptors that are
open are those open before; when it succeeds there is exactly one more, the one returned, on which
bind and listen both succeeded.\<close>

theorem bsd_create_listen_socket_no_leak:
  assumes "bsd_create_listen_socket host port opts w = (r, w')" "os_fresh (os_fn w)"
  shows "if r = LIBUS_SOCKET_ERROR then open_fds (os_fn w) (os_log w') = open_fds (os_fn w) (os_log w)
    else r \<notin> open_fds (os_fn w) (os_log w) \<and> listening r w' \<and>
      open_fds (os_fn w) (os_log w') = insert r (open_fds (os_fn w) (os_log w))"
proof -
  define w1 where "w1 = log_call (Sys_getaddrinfo host (sprintf_d port) True) w"
  have w1: "os_fn w1 = os_fn w" "open_fds f (os_log w1) = open_fds f (os_log w)" for f by (simp_all add: w1_def)
  let ?as = "sys_addrs (os_fn w1) (os_log w1)"
  obtain fd a w2 where p: "listen_pass AF_INET ?as (listen_pass AF_INET6 ?as (LIBUS_SOCKET_ERROR, 0, w1)) = (fd, a, w2)"
    by (metis prod_cases3)
  note s = listen_passes_spec [OF p]
  have c: "(r = LIBUS_SOCKET_ERROR \<and> w' = w1) \<or>
     (fd = LIBUS_SOCKET_ERROR \<and> r = LIBUS_SOCKET_ERROR \<and> w' = log_call Sys_freeaddrinfo w2) \<or>
     (fd \<noteq> LIBUS_SOCKET_ERROR \<and> listen_bind fd a (listen_options fd w2) = (r, w'))"
    using assms(1) p
    by (auto simp: bsd_create_listen_socket_def syscall_def log_call_def w1_def Let_def split: if_splits)
  show ?thesis
    using c s w1 assms(2) listen_bind_spec [of fd a "listen_options fd w2" r w']
    by (auto split: if_splits)
qed

text \<open>A system whose descriptors are the length of the log: it never reuses one.\<close>

definition os_len :: os where
  "os_len = os0\<lparr>sys_ret := \<lambda>l. case l of Sys_socket _ _ _ # _ \<Rightarrow> int (length l) | _ \<Rightarrow> 0,
    sys_addrs := \<lambda>_. [\<lparr>ai_family = AF_INET, ai_socktype = 1, ai_protocol = 6, ai_addr = 9\<rparr>]\<rparr>"

lemma os_len_fresh: "os_fresh os_len"
proof -
  have "\<forall>fd \<in> open_fds os_len l. fd \<le> int (length l)" for l
    by (induction os_len l rule: open_fds.induct) (auto simp: os_len_def LIBUS_SOCKET_ERROR_def split: if_splits)
  then show ?thesis by (fastforce simp: os_fresh_def os_len_def)
qed

lemma bsd_create_listen_socket_no_leak_witness:
  "\<exists>r w'. bsd_create_listen_socket None 80 0 (world0\<lparr>os_fn := os_len\<rparr>) = (r, w') \<and> listening r w'"
proof -
  obtain r w' where r: "bsd_create_listen_socket None 80 0 (world0\<lparr>os_fn := os_len\<rparr>) = (r, w')" by force
  have "r \<noteq> LIBUS_SOCKET_ERROR"
    using r by (auto simp: bsd_create_listen_socket_def syscall_def world0_defs os_len_def listen_bind_def
        bsd_create_socket_def apple_no_sigpipe_def LIBUS_SOCKET_ERROR_def Let_def AF_INET_def AF_INET6_def
        listen_options_def log_call_def)
  with bsd_create_listen_socket_no_leak [OF r] os_len_fresh r show ?thesis by auto
qed

lemma bsd_create_connect_socket_no_leak:
  assumes "bsd_create_connect_socket host port opts w = Some (r, w')" "os_fresh (os_fn w)"
  shows "if r = LIBUS_SOCKET_ERROR then open_fds (os_fn w) (os_log w') = open_fds (os_fn w) (os_log w)
    else r \<notin> open_fds (os_fn w) (os_log w) \<and>
      open_fds (os_fn w) (os_log w') = insert r (open_fds (os_fn w) (os_log w))"
proof -
  have fresh: "sys_ret (os_fn w) (Sys_socket a b c # Sys_getaddrinfo h s False # l) \<notin> open_fds (os_fn w) l" for a b c h s l
    using assms(2) [unfolded os_fresh_def, rule_format, of a b c "Sys_getaddrinfo h s False # l"] by simp
  show ?thesis
    using assms(1) fresh
    by (auto simp: bsd_create_connect_socket_def syscall_def log_call_def bsd_create_socket_def
        apple_no_sigpipe_def Let_def split: if_splits list.splits)
qed

end
