(* ===== verification/UsLinks.thy ===== *)
theory UsLinks
  imports UsTypes
begin

text \<open>
  The doubly linked list of sockets of a context (context.c). The code links a new socket at the
  head, unlinks anywhere, and repairs the iterator of a running timeout sweep when the socket
  it stands on goes away. \<open>ctx_list\<close> relates the pointer structure to the list of the addresses in
  it; link refines Cons, unlink refines remove1.
\<close>

definition us_internal_socket_context_unlink :: "addr \<Rightarrow> addr \<Rightarrow> world \<Rightarrow> world option" where
  "us_internal_socket_context_unlink ctx s w = do {
     c \<leftarrow> ctxs w ctx;
     w \<leftarrow> (if s = c_iterator c then do {
             x \<leftarrow> socks w s;
             upd_ctx ctx (\<lambda>c. c\<lparr>c_iterator := s_next x\<rparr>) w }
           else Some w);
     x \<leftarrow> socks w s;
     (if s_prev x = s_next x then upd_ctx ctx (\<lambda>c. c\<lparr>c_head := NULL\<rparr>) w
      else do {
        w \<leftarrow> (if s_prev x \<noteq> NULL then upd_sock (s_prev x) (\<lambda>y. y\<lparr>s_next := s_next x\<rparr>) w
              else upd_ctx ctx (\<lambda>c. c\<lparr>c_head := s_next x\<rparr>) w);
        x \<leftarrow> socks w s;
        (if s_next x \<noteq> NULL then upd_sock (s_next x) (\<lambda>y. y\<lparr>s_prev := s_prev x\<rparr>) w
         else Some w) }) }"

definition us_internal_socket_context_link :: "addr \<Rightarrow> addr \<Rightarrow> world \<Rightarrow> world option" where
  "us_internal_socket_context_link ctx s w = do {
     c \<leftarrow> ctxs w ctx;
     w \<leftarrow> upd_sock s (\<lambda>x. x\<lparr>s_context := ctx, s_timeout := 0, s_next := c_head c, s_prev := NULL\<rparr>) w;
     w \<leftarrow> (if c_head c \<noteq> NULL then upd_sock (c_head c) (\<lambda>y. y\<lparr>s_prev := s\<rparr>) w else Some w);
     upd_ctx ctx (\<lambda>c. c\<lparr>c_head := s\<rparr>) w }"

subsection \<open>List segments\<close>

fun first_or :: "addr list \<Rightarrow> addr \<Rightarrow> addr" where
  "first_or [] e = e"
| "first_or (a # as) e = a"

fun last_or :: "addr \<Rightarrow> addr list \<Rightarrow> addr" where
  "last_or p [] = p"
| "last_or p (a # as) = last_or a as"

lemma first_or_append [simp]: "first_or (xs @ ys) e = first_or xs (first_or ys e)"
  by (cases xs) auto

lemma last_or_append [simp]: "last_or p (xs @ ys) = last_or (last_or p xs) ys"
  by (induction xs arbitrary: p) auto

text \<open>The sockets of a segment, entered from \<open>p\<close> and followed by \<open>e\<close>.\<close>

fun chain :: "(addr \<rightharpoonup> us_socket) \<Rightarrow> addr \<Rightarrow> addr \<Rightarrow> addr list \<Rightarrow> addr \<Rightarrow> bool" where
  "chain h ctx p [] e \<longleftrightarrow> True"
| "chain h ctx p (a # as) e \<longleftrightarrow> a \<noteq> NULL \<and> chain h ctx a as e \<and>
     (\<exists>x. h a = Some x \<and> s_context x = ctx \<and> s_prev x = p \<and> s_next x = first_or as e)"

lemma chain_append [simp]:
  "chain h ctx p (xs @ ys) e \<longleftrightarrow>
     chain h ctx p xs (first_or ys e) \<and> chain h ctx (last_or p xs) ys e"
  by (induction xs arbitrary: p) auto

lemma chain_frame:
  "(\<And>a. a \<in> set xs \<Longrightarrow> h' a = h a) \<Longrightarrow> chain h' ctx p xs e = chain h ctx p xs e"
  by (induction xs arbitrary: p) auto

lemma chain_upd_other [simp]: "a \<notin> set xs \<Longrightarrow> chain (h(a := v)) ctx p xs e = chain h ctx p xs e"
  by (rule chain_frame) auto

lemma chain_nonzero: "chain h ctx p xs e \<Longrightarrow> a \<in> set xs \<Longrightarrow> a \<noteq> NULL \<and> a \<in> dom h"
  by (induction xs arbitrary: p) auto

lemma chain_set_next:
  assumes "chain h ctx p xs e" "xs \<noteq> []" "distinct xs" "h (last xs) = Some x"
  shows "chain (h(last xs \<mapsto> x\<lparr>s_next := e'\<rparr>)) ctx p xs e'"
  using assms
proof (induction xs arbitrary: p)
  case (Cons a as)
  then show ?case by (cases as) auto
qed simp

lemma chain_set_prev:
  assumes "chain h ctx p (b # ys) e" "b \<notin> set ys" "h b = Some x"
  shows "chain (h(b \<mapsto> x\<lparr>s_prev := p'\<rparr>)) ctx p' (b # ys) e"
  using assms by auto

lemma last_or_last: "xs \<noteq> [] \<Longrightarrow> last_or p xs = last xs"
  by (induction xs arbitrary: p) auto

subsection \<open>The list of a context\<close>

definition ctx_list :: "world \<Rightarrow> addr \<Rightarrow> addr list \<Rightarrow> bool" where
  "ctx_list w ctx xs \<longleftrightarrow> ctx \<noteq> NULL \<and> ctx \<notin> set xs \<and> distinct xs \<and> chain (socks w) ctx NULL xs NULL \<and>
     (\<exists>c. ctxs w ctx = Some c \<and> c_head c = first_or xs NULL)"

lemma ctx_list_frame:
  assumes "ctx_list w ctx xs" "\<And>a. a \<in> set xs \<Longrightarrow> socks w' a = socks w a"
    and "map_option c_head (ctxs w' ctx) = map_option c_head (ctxs w ctx)"
  shows "ctx_list w' ctx xs"
  using assms chain_frame [of xs "socks w'" "socks w"] by (auto simp: ctx_list_def)

text \<open>List operations write to sockets and contexts only.\<close>

definition rest_same :: "world \<Rightarrow> world \<Rightarrow> bool" where
  "rest_same w w' \<longleftrightarrow> polls w' = polls w \<and> lexts w' = lexts w \<and> loops w' = loops w \<and> cbs w' = cbs w \<and>
     bufs w' = bufs w \<and> brk w' = brk w \<and> os_log w' = os_log w \<and> os_fn w' = os_fn w"

definition link_effect :: "addr \<Rightarrow> addr \<Rightarrow> addr list \<Rightarrow> world \<Rightarrow> world \<Rightarrow> bool" where
  "link_effect ctx s xs w w' \<longleftrightarrow> ctx_list w' ctx (s # xs) \<and>
     rest_same w w' \<and>
     dom (socks w') = dom (socks w) \<and> dom (ctxs w') = dom (ctxs w) \<and>
     (\<forall>a. a \<notin> set (s # xs) \<longrightarrow> socks w' a = socks w a) \<and>
     (\<forall>a. a \<noteq> s \<longrightarrow> map_option s_timeout (socks w' a) = map_option s_timeout (socks w a)) \<and>
     map_option s_timeout (socks w' s) = Some 0 \<and>
     (\<forall>k. k \<noteq> ctx \<longrightarrow> ctxs w' k = ctxs w k) \<and>
     map_option (c_head_update (\<lambda>_. NULL)) (ctxs w' ctx) = map_option (c_head_update (\<lambda>_. NULL)) (ctxs w ctx)"

lemma link_spec:
  assumes "ctx_list w ctx xs" "s \<notin> set xs" "s \<noteq> NULL" "s \<noteq> ctx" "s \<in> dom (socks w)"
  shows "\<exists>w'. us_internal_socket_context_link ctx s w = Some w' \<and> link_effect ctx s xs w w'"
proof (cases xs)
  case Nil
  with assms show ?thesis
    by (auto simp: us_internal_socket_context_link_def upd_defs ctx_list_def link_effect_def rest_same_def)
next
  case (Cons b ys)
  with assms show ?thesis
    by (auto simp: us_internal_socket_context_link_def upd_defs ctx_list_def link_effect_def rest_same_def)
qed


definition unlink_effect :: "addr \<Rightarrow> addr \<Rightarrow> addr list \<Rightarrow> addr list \<Rightarrow> world \<Rightarrow> world \<Rightarrow> bool" where
  "unlink_effect ctx s xs ys w w' \<longleftrightarrow> ctx_list w' ctx (xs @ ys) \<and>
     rest_same w w' \<and>
     dom (socks w') = dom (socks w) \<and> dom (ctxs w') = dom (ctxs w) \<and>
     (\<forall>a. a \<notin> set (xs @ ys) \<longrightarrow> socks w' a = socks w a) \<and>
     (\<forall>a. map_option s_timeout (socks w' a) = map_option s_timeout (socks w a)) \<and>
     (\<forall>k. k \<noteq> ctx \<longrightarrow> ctxs w' k = ctxs w k) \<and>
     (\<exists>c. ctxs w ctx = Some c \<and> ctxs w' ctx =
        Some (c\<lparr>c_head := first_or (xs @ ys) NULL,
               c_iterator := (if c_iterator c = s then first_or ys NULL else c_iterator c)\<rparr>))"

lemma unlink_spec:
  assumes "ctx_list w ctx (xs @ s # ys)"
  shows "\<exists>w'. us_internal_socket_context_unlink ctx s w = Some w' \<and> unlink_effect ctx s xs ys w w'"
proof -
  from assms obtain c x where c: "ctxs w ctx = Some c" "c_head c = first_or (xs @ s # ys) NULL"
    and x: "socks w s = Some x" "s_context x = ctx" "s_prev x = last_or NULL xs" "s_next x = first_or ys NULL"
    and ch: "chain (socks w) ctx NULL xs s" "chain (socks w) ctx s ys NULL" "s \<noteq> NULL"
    and d: "distinct (xs @ s # ys)" "ctx \<noteq> NULL" "ctx \<notin> set (xs @ s # ys)"
    by (auto simp: ctx_list_def)
  note defs = us_internal_socket_context_unlink_def upd_defs unlink_effect_def ctx_list_def rest_same_def
  consider (single) "xs = []" "ys = []" | (headed) b zs where "xs = []" "ys = b # zs"
    | (tailed) us a where "xs = us @ [a]" "ys = []" | (mid) us a b zs where "xs = us @ [a]" "ys = b # zs"
    by (metis neq_Nil_conv rev_exhaust)
  then show ?thesis
  proof cases
    case single
    with c x ch d show ?thesis
      by (cases "c_iterator c = s") (auto simp: defs simp del: bind_eq_Some)
  next
    case headed
    with c x ch d show ?thesis
      by (cases "c_iterator c = s") (auto simp: defs simp del: bind_eq_Some)
  next
    case tailed
    then obtain y where y: "socks w a = Some y" "s_prev y = last_or NULL us" "s_next y = s" "a \<noteq> NULL" using ch by auto
    from tailed c x ch d y show ?thesis
      by (cases "c_iterator c = s") (auto simp: defs simp del: bind_eq_Some)
  next
    case mid
    then obtain y where y: "socks w a = Some y" "s_prev y = last_or NULL us" "s_next y = s" "a \<noteq> NULL" using ch by auto
    from mid c x ch d y show ?thesis
      by (cases "c_iterator c = s") (auto simp: defs simp del: bind_eq_Some)
  qed
qed

lemma unlink_remove1:
  assumes "ctx_list w ctx zs" "s \<in> set zs"
  obtains w' where "us_internal_socket_context_unlink ctx s w = Some w'" "ctx_list w' ctx (remove1 s zs)"
proof -
  obtain xs ys where zs: "zs = xs @ s # ys" using assms(2) by (meson split_list)
  then have "remove1 s zs = xs @ ys" using assms(1) by (simp add: ctx_list_def remove1_append_notin)
  with unlink_spec [of w ctx xs s ys] assms(1) zs that show thesis
    by (metis unlink_effect_def)
qed

end
