(* ===== verification/UsSocket.thy ===== *)
theory UsSocket
  imports UsPoll UsBsd UsLinks
begin

text \<open>
  Sockets and socket contexts (socket.c, context.c). What the application does in a callback
  is the parameter \<open>env\<close>: it maps the number of a user function, its arguments and the
  world to the returned pointer and the new world, or to \<open>None\<close> when the callback leaves
  defined behaviour. Calling a null function pointer is \<open>None\<close>.
\<close>

datatype callarg =
    Arg_open addr bool
  | Arg_data addr bytes
  | Arg_sock addr
  | Arg_cb addr
  | Arg_loop addr

type_synonym env = "nat \<Rightarrow> callarg \<Rightarrow> world \<Rightarrow> (addr \<times> world) option"

definition call_fn :: "env \<Rightarrow> fnptr \<Rightarrow> callarg \<Rightarrow> world \<Rightarrow> (addr \<times> world) option" where
  "call_fn env f arg w = (case f of Fn_user n \<Rightarrow> env n arg w | _ \<Rightarrow> None)"

text \<open>The loop of a socket: \<open>s->context->loop\<close>.\<close>

definition sock_loop :: "addr \<Rightarrow> world \<Rightarrow> addr option" where
  "sock_loop s w = do { x \<leftarrow> socks w s; c \<leftarrow> ctxs w (s_context x); Some (c_loop c) }"

subsection \<open>Sockets\<close>

definition us_socket_is_closed :: "addr \<Rightarrow> world \<Rightarrow> bool option" where
  "us_socket_is_closed s w = do { x \<leftarrow> socks w s; Some (s_prev x = s_context x) }"

definition us_socket_is_shut_down :: "addr \<Rightarrow> world \<Rightarrow> bool option" where
  "us_socket_is_shut_down s w = do {
     t \<leftarrow> us_internal_poll_type s w; Some (t = POLL_TYPE_SOCKET_SHUT_DOWN) }"

definition us_socket_get_context :: "addr \<Rightarrow> world \<Rightarrow> addr option" where
  "us_socket_get_context s w = do { x \<leftarrow> socks w s; Some (s_context x) }"

text \<open>\<open>data\<close> is the \<open>length\<close> bytes the caller passes.\<close>

definition us_socket_write :: "addr \<Rightarrow> bytes \<Rightarrow> int \<Rightarrow> world \<Rightarrow> (int \<times> world) option" where
  "us_socket_write s data msg_more w = do {
     closed \<leftarrow> us_socket_is_closed s w;
     shut \<leftarrow> us_socket_is_shut_down s w;
     (if closed \<or> shut then Some (0, w)
      else do {
        fd \<leftarrow> us_poll_fd s w;
        let (written, w) = bsd_send fd data msg_more w;
        w \<leftarrow> (if written \<noteq> int (length data) then do {
                loop \<leftarrow> sock_loop s w;
                w \<leftarrow> upd_loop loop (\<lambda>l. l\<lparr>l_last_write_failed := 1\<rparr>) w;
                us_poll_change s loop (LIBUS_SOCKET_READABLE OR LIBUS_SOCKET_WRITABLE) w }
              else Some w);
        Some (if written < 0 then 0 else written, w) }) }"

text \<open>
  The sweeps are computed in single precision, which is exact in this range (20 bits); a
  value that does not fit an unsigned short makes the conversion undefined.
\<close>

definition timeout_sweeps :: "nat \<Rightarrow> nat option" where
  "timeout_sweeps seconds =
     (let v = (seconds + 2) div LIBUS_TIMEOUT_GRANULARITY in if v < 65536 then Some v else None)"

definition us_socket_timeout :: "addr \<Rightarrow> nat \<Rightarrow> world \<Rightarrow> world option" where
  "us_socket_timeout s seconds w =
     (if seconds \<noteq> 0 then do {
        n \<leftarrow> timeout_sweeps seconds;
        upd_sock s (\<lambda>x. x\<lparr>s_timeout := (if n \<noteq> 0 then of_nat n else 1)\<rparr>) w }
      else upd_sock s (\<lambda>x. x\<lparr>s_timeout := 0\<rparr>) w)"

definition us_socket_flush :: "addr \<Rightarrow> world \<Rightarrow> world option" where
  "us_socket_flush s w = do {
     shut \<leftarrow> us_socket_is_shut_down s w;
     (if \<not> shut then do { fd \<leftarrow> us_poll_fd s w; Some (bsd_socket_flush fd w) } else Some w) }"

text \<open>Everything a close does before it calls on_close.\<close>

definition close_detach :: "addr \<Rightarrow> world \<Rightarrow> world option" where
  "close_detach s w = do {
     ctx \<leftarrow> us_socket_get_context s w;
     w \<leftarrow> us_internal_socket_context_unlink ctx s w;
     loop \<leftarrow> sock_loop s w;
     w \<leftarrow> us_poll_stop s loop w;
     fd \<leftarrow> us_poll_fd s w;
     let w = bsd_close_socket fd w;
     l \<leftarrow> loops w loop;
     w \<leftarrow> upd_sock s (\<lambda>x. x\<lparr>s_next := l_closed_head l\<rparr>) w;
     w \<leftarrow> upd_loop loop (\<lambda>l. l\<lparr>l_closed_head := s\<rparr>) w;
     upd_sock s (\<lambda>x. x\<lparr>s_prev := s_context x\<rparr>) w }"

definition us_socket_close :: "env \<Rightarrow> addr \<Rightarrow> world \<Rightarrow> (addr \<times> world) option" where
  "us_socket_close env s w = do {
     closed \<leftarrow> us_socket_is_closed s w;
     (if \<not> closed then do {
        w \<leftarrow> close_detach s w;
        ctx \<leftarrow> us_socket_get_context s w;
        c \<leftarrow> ctxs w ctx;
        call_fn env (c_on_close c) (Arg_sock s) w }
      else Some (s, w)) }"

definition us_socket_shutdown :: "addr \<Rightarrow> world \<Rightarrow> world option" where
  "us_socket_shutdown s w = do {
     closed \<leftarrow> us_socket_is_closed s w;
     shut \<leftarrow> us_socket_is_shut_down s w;
     (if \<not> closed \<and> \<not> shut then do {
        w \<leftarrow> us_internal_poll_set_type s POLL_TYPE_SOCKET_SHUT_DOWN w;
        loop \<leftarrow> sock_loop s w;
        events \<leftarrow> us_poll_events s w;
        w \<leftarrow> us_poll_change s loop (events AND LIBUS_SOCKET_READABLE) w;
        fd \<leftarrow> us_poll_fd s w;
        Some (bsd_shutdown_socket fd w) }
      else Some w) }"

subsection \<open>Contexts\<close>

definition us_internal_loop_link :: "addr \<Rightarrow> addr \<Rightarrow> world \<Rightarrow> world option" where
  "us_internal_loop_link loop ctx w = do {
     l \<leftarrow> loops w loop;
     w \<leftarrow> upd_ctx ctx (\<lambda>c. c\<lparr>c_next := l_head l, c_prev := NULL\<rparr>) w;
     w \<leftarrow> (if l_head l \<noteq> NULL then upd_ctx (l_head l) (\<lambda>c. c\<lparr>c_prev := ctx\<rparr>) w else Some w);
     upd_loop loop (\<lambda>l. l\<lparr>l_head := ctx\<rparr>) w }"

definition us_create_socket_context :: "addr \<Rightarrow> nat \<Rightarrow> world \<Rightarrow> (addr \<times> world) option" where
  "us_create_socket_context loop context_ext_size w = do {
     let ctx = brk w;
     let w = w\<lparr>brk := Suc ctx, ctxs := (ctxs w)(ctx \<mapsto>
          (junk_ctx w)\<lparr>c_loop := loop, c_head := NULL, c_iterator := NULL, c_next := NULL\<rparr>)\<rparr>;
     w \<leftarrow> us_internal_loop_link loop ctx w;
     Some (ctx, w) }"

definition us_socket_context_free :: "addr \<Rightarrow> world \<Rightarrow> world option" where
  "us_socket_context_free ctx w = do { _ \<leftarrow> ctxs w ctx; Some (w\<lparr>ctxs := (ctxs w)(ctx := None)\<rparr>) }"

definition us_socket_context_loop :: "addr \<Rightarrow> world \<Rightarrow> addr option" where
  "us_socket_context_loop ctx w = do { c \<leftarrow> ctxs w ctx; Some (c_loop c) }"

definition us_create_child_socket_context :: "addr \<Rightarrow> nat \<Rightarrow> world \<Rightarrow> (addr \<times> world) option" where
  "us_create_child_socket_context ctx context_ext_size w = do {
     loop \<leftarrow> us_socket_context_loop ctx w;
     us_create_socket_context loop context_ext_size w }"

definition us_socket_context_listen ::
    "addr \<Rightarrow> string option \<Rightarrow> int \<Rightarrow> int \<Rightarrow> u32 \<Rightarrow> world \<Rightarrow> (addr \<times> world) option" where
  "us_socket_context_listen ctx host port options socket_ext_size w = (
     let (fd, w) = bsd_create_listen_socket host port options w in
     if fd = LIBUS_SOCKET_ERROR then Some (NULL, w)
     else do {
       loop \<leftarrow> us_socket_context_loop ctx w;
       (p, w) \<leftarrow> us_create_poll loop False Ext_listen w;
       w \<leftarrow> us_poll_init p fd POLL_TYPE_SEMI_SOCKET w;
       w \<leftarrow> us_poll_start p loop LIBUS_SOCKET_READABLE w;
       w \<leftarrow> upd_sock p (\<lambda>x. x\<lparr>s_context := ctx, s_timeout := 0, s_next := NULL\<rparr>) w;
       w \<leftarrow> us_internal_socket_context_link ctx p w;
       _ \<leftarrow> lexts w p;
       Some (p, w\<lparr>lexts := (lexts w)(p \<mapsto> socket_ext_size)\<rparr>) })"

definition us_listen_socket_close :: "addr \<Rightarrow> world \<Rightarrow> world option" where
  "us_listen_socket_close ls w = do {
     ctx \<leftarrow> us_socket_get_context ls w;
     w \<leftarrow> us_internal_socket_context_unlink ctx ls w;
     loop \<leftarrow> sock_loop ls w;
     w \<leftarrow> us_poll_stop ls loop w;
     fd \<leftarrow> us_poll_fd ls w;
     us_poll_free ls loop (bsd_close_socket fd w) }"

definition us_socket_context_connect ::
    "addr \<Rightarrow> string option \<Rightarrow> int \<Rightarrow> int \<Rightarrow> nat \<Rightarrow> world \<Rightarrow> (addr \<times> world) option" where
  "us_socket_context_connect ctx host port options socket_ext_size w = do {
     (fd, w) \<leftarrow> bsd_create_connect_socket host port options w;
     (if fd = LIBUS_SOCKET_ERROR then Some (NULL, w)
      else do {
        loop \<leftarrow> us_socket_context_loop ctx w;
        (p, w) \<leftarrow> us_create_poll loop False (Ext_socket socket_ext_size) w;
        w \<leftarrow> us_poll_init p fd POLL_TYPE_SEMI_SOCKET w;
        w \<leftarrow> us_poll_start p loop LIBUS_SOCKET_WRITABLE w;
        w \<leftarrow> upd_sock p (\<lambda>x. x\<lparr>s_context := ctx\<rparr>) w;
        w \<leftarrow> us_internal_socket_context_link ctx p w;
        Some (p, w) }) }"

definition us_socket_context_adopt_socket :: "addr \<Rightarrow> addr \<Rightarrow> nat \<Rightarrow> world \<Rightarrow> (addr \<times> world) option" where
  "us_socket_context_adopt_socket ctx s ext_size w = do {
     closed \<leftarrow> us_socket_is_closed s w;
     (if closed then Some (s, w)
      else do {
        old \<leftarrow> us_socket_get_context s w;
        w \<leftarrow> us_internal_socket_context_unlink old s w;
        loop \<leftarrow> sock_loop s w;
        (new_s, w) \<leftarrow> us_poll_resize s loop w;
        w \<leftarrow> us_internal_socket_context_link ctx new_s w;
        Some (new_s, w) }) }"

definition us_socket_context_on_open :: "addr \<Rightarrow> fnptr \<Rightarrow> world \<Rightarrow> world option" where
  "us_socket_context_on_open ctx f = upd_ctx ctx (\<lambda>c. c\<lparr>c_on_open := f\<rparr>)"

definition us_socket_context_on_close :: "addr \<Rightarrow> fnptr \<Rightarrow> world \<Rightarrow> world option" where
  "us_socket_context_on_close ctx f = upd_ctx ctx (\<lambda>c. c\<lparr>c_on_close := f\<rparr>)"

definition us_socket_context_on_data :: "addr \<Rightarrow> fnptr \<Rightarrow> world \<Rightarrow> world option" where
  "us_socket_context_on_data ctx f = upd_ctx ctx (\<lambda>c. c\<lparr>c_on_data := f\<rparr>)"

definition us_socket_context_on_writable :: "addr \<Rightarrow> fnptr \<Rightarrow> world \<Rightarrow> world option" where
  "us_socket_context_on_writable ctx f = upd_ctx ctx (\<lambda>c. c\<lparr>c_on_writable := f\<rparr>)"

definition us_socket_context_on_timeout :: "addr \<Rightarrow> fnptr \<Rightarrow> world \<Rightarrow> world option" where
  "us_socket_context_on_timeout ctx f = upd_ctx ctx (\<lambda>c. c\<lparr>c_on_socket_timeout := f\<rparr>)"

definition us_socket_context_on_end :: "addr \<Rightarrow> fnptr \<Rightarrow> world \<Rightarrow> world option" where
  "us_socket_context_on_end ctx f = upd_ctx ctx (\<lambda>c. c\<lparr>c_on_end := f\<rparr>)"


subsection \<open>The close list\<close>

text \<open>The sockets of a loop that are closed and not yet freed, newest first.\<close>

fun closed_chain :: "world \<Rightarrow> addr list \<Rightarrow> bool" where
  "closed_chain w [] \<longleftrightarrow> True"
| "closed_chain w (a # as) \<longleftrightarrow> a \<noteq> NULL \<and> a \<in> dom (polls w) \<and> closed_chain w as \<and>
     (\<exists>x. socks w a = Some x \<and> s_prev x = s_context x \<and> s_next x = first_or as NULL)"

definition closed_list :: "world \<Rightarrow> addr \<Rightarrow> addr list \<Rightarrow> bool" where
  "closed_list w loop xs \<longleftrightarrow> distinct xs \<and> closed_chain w xs \<and>
     (\<exists>l. loops w loop = Some l \<and> l_closed_head l = first_or xs NULL)"

lemma closed_chain_frame:
  "(\<And>a. a \<in> set xs \<Longrightarrow> socks w' a = socks w a \<and> (a \<in> dom (polls w') \<longleftrightarrow> a \<in> dom (polls w))) \<Longrightarrow>
     closed_chain w' xs = closed_chain w xs"
  by (induction xs) auto

text \<open>A live socket: in the list of its context, with a poll, on a loop.\<close>

definition live_sock :: "world \<Rightarrow> addr \<Rightarrow> addr \<Rightarrow> addr list \<Rightarrow> addr \<Rightarrow> bool" where
  "live_sock w loop ctx zs s \<longleftrightarrow> ctx_list w ctx zs \<and> s \<in> set zs \<and> s \<in> dom (polls w) \<and>
     loop \<in> dom (loops w) \<and> map_option c_loop (ctxs w ctx) = Some loop"

lemma live_sock_get:
  assumes "live_sock w loop ctx zs s"
  obtains x p l c where "socks w s = Some x" "s_context x = ctx" "polls w s = Some p" "loops w loop = Some l"
    "ctxs w ctx = Some c" "c_loop c = loop" "s_prev x \<noteq> ctx" "s \<noteq> NULL" "ctx \<noteq> NULL" "s \<noteq> ctx"
proof -
  obtain xs ys where zs: "zs = xs @ s # ys" using assms by (auto simp: live_sock_def dest: split_list)
  have p: "last_or NULL xs \<noteq> ctx"
  proof (cases "xs = []")
    case False
    then have "last xs \<in> set zs" using zs by simp
    with False show ?thesis using assms by (auto simp: live_sock_def ctx_list_def last_or_last)
  qed (use assms in \<open>simp add: live_sock_def ctx_list_def\<close>)
  show thesis
    using assms zs p by (auto simp: live_sock_def ctx_list_def intro!: that)
qed

lemma close_detach_spec:
  assumes "live_sock w loop ctx zs s" "closed_list w loop ds" "set ds \<inter> set zs = {}"
  shows "\<exists>w'. close_detach s w = Some w' \<and> ctx_list w' ctx (remove1 s zs) \<and> closed_list w' loop (s # ds) \<and>
    us_socket_get_context s w' = Some ctx \<and> polls w' = polls w \<and> brk w' = brk w \<and>
    (\<forall>a. map_option s_timeout (socks w' a) = map_option s_timeout (socks w a)) \<and>
    (\<forall>l. loops w loop = Some l \<longrightarrow> loops w' = (loops w)(loop \<mapsto> l\<lparr>l_closed_head := s\<rparr>)) \<and>
    (\<forall>k. k \<noteq> ctx \<longrightarrow> ctxs w' k = ctxs w k) \<and>
    (\<exists>c. ctxs w ctx = Some c \<and> ctxs w' ctx = Some (c\<lparr>c_head := first_or (remove1 s zs) NULL,
       c_iterator := (if c_iterator c = s then first_or (tl (dropWhile (\<lambda>a. a \<noteq> s) zs)) NULL else c_iterator c)\<rparr>)) \<and>
    (\<forall>l p. loops w loop = Some l \<longrightarrow> polls w s = Some p \<longrightarrow>
       os_log w' = Sys_close (p_fd p) # Sys_epoll_del (l_epfd l) (p_fd p) # os_log w)"
proof -
  obtain xs ys where zs: "zs = xs @ s # ys" using assms by (auto simp: live_sock_def dest: split_list)
  have d: "distinct zs" using assms by (auto simp: live_sock_def ctx_list_def)
  with zs have rm: "remove1 s zs = xs @ ys" "tl (dropWhile (\<lambda>a. a \<noteq> s) zs) = ys"
    by (auto simp: remove1_append_notin dropWhile_neq_split)
  obtain x p l c where x: "socks w s = Some x" "s_context x = ctx" "polls w s = Some p" "loops w loop = Some l"
    "ctxs w ctx = Some c" "c_loop c = loop" "s_prev x \<noteq> ctx" "s \<noteq> NULL" "ctx \<noteq> NULL" "s \<noteq> ctx"
    by (rule live_sock_get [OF assms(1)])
  obtain w1 where w1: "us_internal_socket_context_unlink ctx s w = Some w1" "unlink_effect ctx s xs ys w w1"
    using unlink_spec [of w ctx xs s ys] assms(1) zs by (auto simp: live_sock_def)
  have "s \<notin> set (xs @ ys)" using d zs by simp
  with w1(2) x have x1: "socks w1 s = Some x" "polls w1 = polls w" "loops w1 = loops w" "os_log w1 = os_log w" "brk w1 = brk w"
    "\<exists>c1. ctxs w1 ctx = Some c1 \<and> c_loop c1 = loop" by (auto simp: unlink_effect_def rest_same_def)
  then obtain c1 where c1: "ctxs w1 ctx = Some c1" "c_loop c1 = loop" by blast
  define w' where "w' = w1\<lparr>socks := (socks w1)(s \<mapsto> x\<lparr>s_next := l_closed_head l, s_prev := ctx\<rparr>),
     loops := (loops w)(loop \<mapsto> l\<lparr>l_closed_head := s\<rparr>),
     os_log := Sys_close (p_fd p) # Sys_epoll_del (l_epfd l) (p_fd p) # os_log w\<rparr>"
  have "close_detach s w = Some w'"
    using x x1 c1 w1(1) by (simp add: close_detach_def us_socket_get_context_def sock_loop_def us_poll_stop_def
        us_poll_fd_def bsd_close_socket_def log_call_def upd_defs w'_def del: bind_eq_Some)
  moreover have "ctx_list w' ctx (xs @ ys)"
    using w1(2) \<open>s \<notin> set (xs @ ys)\<close> by (auto simp: w'_def unlink_effect_def intro: ctx_list_frame [of w1])
  moreover have "closed_list w' loop (s # ds)"
  proof -
    have "s \<notin> set ds" "\<forall>a \<in> set ds. a \<notin> set (xs @ ys)" using assms zs by auto
    then have "closed_chain w' ds = closed_chain w ds" using w1(2)
      by (intro closed_chain_frame) (auto simp: w'_def unlink_effect_def rest_same_def)
    then show ?thesis using assms(2) x \<open>s \<notin> set ds\<close> x1 by (auto simp: closed_list_def w'_def)
  qed
  ultimately show ?thesis
    using w1(2) x x1 rm by (auto simp: w'_def unlink_effect_def us_socket_get_context_def)


qed

text \<open>Closing again does nothing: on_close runs once.\<close>

lemma us_socket_close_closed:
  "us_socket_is_closed s w = Some True \<Longrightarrow> us_socket_close env s w = Some (s, w)"
  by (simp add: us_socket_close_def del: bind_eq_Some)

text \<open>C3: Closing a socket takes it out of the list of its context, puts it in front of the close
list of the loop, takes its descriptor out of the epoll instance and closes it, and marks the socket as
closed; then on_close runs on exactly that state. No other socket's timeout changes and no memory is freed.\<close>

theorem us_socket_close_spec:
  assumes "live_sock w loop ctx zs s" "closed_list w loop ds" "set ds \<inter> set zs = {}"
  shows "\<exists>w' on_close. us_socket_close env s w = call_fn env on_close (Arg_sock s) w' \<and>
    map_option c_on_close (ctxs w ctx) = Some on_close \<and>
    us_socket_is_closed s w' = Some True \<and> ctx_list w' ctx (remove1 s zs) \<and> closed_list w' loop (s # ds) \<and>
    polls w' = polls w \<and> (\<forall>a. map_option s_timeout (socks w' a) = map_option s_timeout (socks w a)) \<and>
    (\<forall>l p. loops w loop = Some l \<longrightarrow> polls w s = Some p \<longrightarrow>
       epoll_interest (os_log w') (l_epfd l) (p_fd p) = None \<and> p_fd p \<notin> open_fds f (os_log w'))"
proof -
  obtain x where x: "socks w s = Some x" "s_prev x \<noteq> s_context x"
    using live_sock_get [OF assms(1)] by metis
  from close_detach_spec [OF assms] obtain w' where w': "close_detach s w = Some w'"
    "ctx_list w' ctx (remove1 s zs)" "closed_list w' loop (s # ds)" "polls w' = polls w"
    "us_socket_get_context s w' = Some ctx"
    "\<forall>a. map_option s_timeout (socks w' a) = map_option s_timeout (socks w a)"
    "\<forall>l p. loops w loop = Some l \<longrightarrow> polls w s = Some p \<longrightarrow>
       os_log w' = Sys_close (p_fd p) # Sys_epoll_del (l_epfd l) (p_fd p) # os_log w"
    "\<exists>c. ctxs w ctx = Some c \<and> ctxs w' ctx = Some (c\<lparr>c_head := first_or (remove1 s zs) NULL,
       c_iterator := (if c_iterator c = s then first_or (tl (dropWhile (\<lambda>a. a \<noteq> s) zs)) NULL else c_iterator c)\<rparr>)" by blast
  from w'(3) have "us_socket_is_closed s w' = Some True" by (auto simp: closed_list_def us_socket_is_closed_def)
  moreover obtain c where c: "ctxs w' ctx = Some c" "map_option c_on_close (ctxs w ctx) = Some (c_on_close c)"
    using w'(8) by auto
  moreover have "us_socket_close env s w = call_fn env (c_on_close c) (Arg_sock s) w'"
    using x w'(1,5) c by (simp add: us_socket_close_def us_socket_is_closed_def del: bind_eq_Some)
  ultimately show ?thesis
    using w'(2-4,6,7) by (intro exI [of _ w'] exI [of _ "c_on_close c"]) auto
qed


lemma log_call_armed:
  "(case e of Sys_epoll_add _ _ _ _ \<Rightarrow> False | Sys_epoll_mod _ _ _ _ \<Rightarrow> False | Sys_epoll_del _ _ \<Rightarrow> False
     | Sys_close _ \<Rightarrow> False | _ \<Rightarrow> True) \<Longrightarrow> poll_armed p loop (log_call e w) = poll_armed p loop w"
  by (cases e) (auto simp: poll_armed_def)

lemma sock_readers_frame:
  assumes "socks w' = socks w" "ctxs w' = ctxs w"
  shows "us_socket_is_closed s w' = us_socket_is_closed s w" "sock_loop s w' = sock_loop s w"
    "us_socket_get_context s w' = us_socket_get_context s w"
  using assms by (simp_all add: us_socket_is_closed_def sock_loop_def us_socket_get_context_def)

text \<open>A timeout of 1 to 262141 seconds is stored as a number of 4-second sweeps, at least
one, that is within three seconds of it; 0 disarms it. From 262142 seconds on the value does not fit the
16-bit counter and the conversion in the code is undefined.\<close>

theorem us_socket_timeout_spec:
  assumes "socks w s = Some x"
  shows "if seconds = 0 then us_socket_timeout s seconds w = Some (w\<lparr>socks := (socks w)(s \<mapsto> x\<lparr>s_timeout := 0\<rparr>)\<rparr>)
    else if seconds < 262142 then
      (\<exists>n. us_socket_timeout s seconds w = Some (w\<lparr>socks := (socks w)(s \<mapsto> x\<lparr>s_timeout := n\<rparr>)\<rparr>) \<and>
         0 < n \<and> 4 * unat n \<le> seconds + 3 \<and> seconds \<le> 4 * unat n + 1)
    else us_socket_timeout s seconds w = None"
proof -
  let ?v = "(seconds + 2) div 4"
  have "?v < 65536 \<longleftrightarrow> seconds < 262142" by (simp add: div_less_iff_less_mult)
  moreover have "unat (of_nat ?v :: u16) = ?v" if "?v < 65536" using that by (simp add: unat_of_nat)
  moreover have "(of_nat ?v :: u16) > 0" if "?v < 65536" "?v \<noteq> 0"
    using that by (simp add: word_less_nat_alt unat_of_nat)
  ultimately show ?thesis
    using assms by (auto simp: us_socket_timeout_def timeout_sweeps_def LIBUS_TIMEOUT_GRANULARITY_def upd_defs Let_def
      simp del: bind_eq_Some)
qed

text \<open>C26: Shutting a live socket down marks it, stops polling for writability, keeps the kernel's
interest list in step and shuts the write side of the descriptor; from then on a second shutdown and
every write leave the world as it is.\<close>

theorem us_socket_shutdown_spec:
  assumes "us_socket_is_closed s w = Some False" "us_socket_is_shut_down s w = Some False"
    and "poll_armed s loop w" "sock_loop s w = Some loop" "us_poll_events s w = Some e" "us_poll_fd s w = Some fd"
  shows "\<exists>w'. us_socket_shutdown s w = Some w' \<and> us_socket_is_shut_down s w' = Some True \<and>
    us_poll_events s w' = Some (e AND LIBUS_SOCKET_READABLE) \<and> poll_armed s loop w' \<and>
    (\<exists>l. os_log w' = Sys_shutdown_wr fd # l) \<and> us_socket_shutdown s w' = Some w' \<and>
    (\<forall>data m. us_socket_write s data m w' = Some (0, w'))"
proof -
  from assms obtain x l where x: "polls w s = Some x" "loops w loop = Some l" "poll_events x = e" "p_fd x = fd"
    "epoll_interest (os_log w) (l_epfd l) (p_fd x) = Some (poll_events x, s)"
    by (auto simp: poll_armed_def us_poll_events_def us_poll_fd_def)
  define y where "y = x\<lparr>p_type := POLL_TYPE_SOCKET_SHUT_DOWN OR (p_type x AND 12)\<rparr>"
  define w1 where "w1 = w\<lparr>polls := (polls w)(s \<mapsto> y)\<rparr>"
  have y: "poll_events y = e" "poll_kind y = POLL_TYPE_SOCKET_SHUT_DOWN" "p_fd y = fd"
    using set_type_events [of POLL_TYPE_SOCKET_SHUT_DOWN x] x by (auto simp: y_def)
  have 1: "us_internal_poll_set_type s POLL_TYPE_SOCKET_SHUT_DOWN w = Some w1"
    using x by (simp add: us_internal_poll_set_type_def upd_defs w1_def y_def)
  have a1: "poll_armed s loop w1" using x y by (simp add: poll_armed_def w1_def)
  obtain w2 where w2: "us_poll_change s loop (e AND LIBUS_SOCKET_READABLE) w1 = Some w2"
    using us_poll_change_total [of s w1 loop] x by (auto simp: w1_def)
  have m: "poll_mask (e AND LIBUS_SOCKET_READABLE)" using x(3) by auto
  note f = us_poll_change_frame [OF w2] and c = us_poll_change_armed [OF w2 m a1]
  define w' where "w' = log_call (Sys_shutdown_wr fd) w2"
  have k: "us_internal_poll_type s w2 = Some POLL_TYPE_SOCKET_SHUT_DOWN" "us_poll_fd s w2 = Some fd"
    using f(11,12) y by (auto simp: us_internal_poll_type_def us_poll_fd_def w1_def)
  have s1: "sock_loop s w1 = Some loop" "us_poll_events s w1 = Some e"
    using assms(4) y by (simp_all add: sock_loop_def us_poll_events_def w1_def)
  have run: "us_socket_shutdown s w = Some w'"
    using assms(1,2) 1 s1 w2 k by (simp add: us_socket_shutdown_def bsd_shutdown_socket_def w'_def del: bind_eq_Some)
  have cl: "us_socket_is_closed s w' = Some False"
    using assms(1) f by (simp add: us_socket_is_closed_def w'_def w1_def)
  have sd: "us_socket_is_shut_down s w' = Some True"
    using k by (simp add: us_socket_is_shut_down_def us_internal_poll_type_def w'_def)
  show ?thesis
    using run cl sd c
    by (intro exI [of _ w'])
      (auto simp: us_socket_shutdown_def us_socket_write_def w'_def log_call_armed us_poll_events_def)
qed

text \<open>C25: A write on a live socket returns what send accepted (0 on an error). When it accepted
everything, nothing but the call happens; otherwise the loop remembers the failed write and the socket is
polled for both readability and writability, in the kernel too.\<close>

theorem us_socket_write_spec:
  assumes "us_socket_is_closed s w = Some False" "us_socket_is_shut_down s w = Some False"
    and "poll_armed s loop w" "sock_loop s w = Some loop" "us_poll_fd s w = Some fd"
    and "bsd_send fd data m w = (n, w1)"
  shows "\<exists>w'. us_socket_write s data m w = Some (max 0 n, w') \<and>
    (if n = int (length data) then w' = w1
     else us_poll_events s w' = Some (LIBUS_SOCKET_READABLE OR LIBUS_SOCKET_WRITABLE) \<and> poll_armed s loop w' \<and>
       map_option l_last_write_failed (loops w' loop) = Some 1 \<and> socks w' = socks w \<and> ctxs w' = ctxs w)"
proof -
  have w1: "\<exists>e. w1 = log_call (Sys_send fd data e) w"
    using assms(6) by (auto simp: bsd_send_def syscall_def log_call_def Let_def)
  have pre: "us_socket_write s data m w = do {
      w \<leftarrow> (if n \<noteq> int (length data) then do {
                loop \<leftarrow> sock_loop s w1;
                w \<leftarrow> upd_loop loop (\<lambda>l. l\<lparr>l_last_write_failed := 1\<rparr>) w1;
                us_poll_change s loop (LIBUS_SOCKET_READABLE OR LIBUS_SOCKET_WRITABLE) w }
              else Some w1);
      Some (max 0 n, w) }"
    using assms(1,2,5,6) by (simp add: us_socket_write_def max_def del: bind_eq_Some)
  show ?thesis
  proof (cases "n = int (length data)")
    case True
    with pre show ?thesis by simp
  next
    case False
    have a1: "poll_armed s loop w1" using assms(3) w1 by (auto simp: log_call_armed)
    then obtain l where l: "loops w1 loop = Some l" by (auto simp: poll_armed_def)
    define w2 where "w2 = w1\<lparr>loops := (loops w1)(loop \<mapsto> l\<lparr>l_last_write_failed := 1\<rparr>)\<rparr>"
    have a2: "poll_armed s loop w2" using a1 l by (auto simp: poll_armed_def w2_def)
    then obtain w' where w': "us_poll_change s loop (LIBUS_SOCKET_READABLE OR LIBUS_SOCKET_WRITABLE) w2 = Some w'"
      using us_poll_change_total [of s w2 loop] by (auto simp: poll_armed_def)
    have m: "poll_mask (LIBUS_SOCKET_READABLE OR LIBUS_SOCKET_WRITABLE)" by (simp add: poll_mask_def)
    have sl: "sock_loop s w1 = Some loop" using assms(4) w1 by (auto simp: sock_loop_def)
    have "us_socket_write s data m w = Some (max 0 n, w')"
      using pre False sl l w' by (simp add: upd_defs w2_def del: bind_eq_Some)
    then show ?thesis
      using us_poll_change_armed [OF w' m a2] us_poll_change_frame(1-3) [OF w'] False w1
      by (intro exI [of _ w']) (auto simp: w2_def)
  qed
qed


subsection \<open>Concrete instances\<close>

text \<open>
  Loop 1 with context 2, which holds the sockets 7 and 8 (timeouts 1 and 3), both polled for
  readability; every callback of the context is user function 0.
\<close>

definition sock_world :: world where
  "sock_world = world0\<lparr>
     polls := [7 \<mapsto> \<lparr>p_fd = 4, p_type = 8\<rparr>, 8 \<mapsto> \<lparr>p_fd = 6, p_type = 8\<rparr>],
     socks := [7 \<mapsto> \<lparr>s_context = 2, s_prev = 0, s_next = 8, s_timeout = 1\<rparr>,
               8 \<mapsto> \<lparr>s_context = 2, s_prev = 7, s_next = 0, s_timeout = 3\<rparr>],
     ctxs := [2 \<mapsto> ctx0\<lparr>c_head := 7, c_on_open := Fn_user 0, c_on_data := Fn_user 0, c_on_writable := Fn_user 0,
               c_on_close := Fn_user 0, c_on_socket_timeout := Fn_user 0, c_on_end := Fn_user 0\<rparr>],
     os_log := [Sys_epoll_add 3 4 1 7, Sys_epoll_add 3 6 1 8]\<rparr>"

lemma sock_world_list: "ctx_list sock_world 2 [7, 8]"
  by (simp add: ctx_list_def sock_world_def)

lemma sock_world_live: "live_sock sock_world 1 2 [7, 8] 7"
  using sock_world_list by (simp add: live_sock_def) (simp add: sock_world_def world0_def ctx0_def)

lemma sock_world_closed: "closed_list sock_world 1 []"
  by (simp add: closed_list_def sock_world_def world0_def loop0_def)

lemma sock_world_reads:
  "us_socket_is_closed 7 sock_world = Some False" "us_socket_is_shut_down 7 sock_world = Some False"
  "poll_armed 7 1 sock_world" "sock_loop 7 sock_world = Some 1" "us_poll_fd 7 sock_world = Some 4"
  "us_poll_events 7 sock_world = Some 1"
  by (simp_all add: sock_world_def us_socket_is_closed_def us_socket_is_shut_down_def us_internal_poll_type_def
     poll_kind_def poll_type_defs poll_armed_def world0_def loop0_def poll_events_def event_defs sock_loop_def ctx0_def
     us_poll_fd_def us_poll_events_def)

lemma us_socket_close_spec_witness:
  "\<exists>w'. us_socket_close (\<lambda>n a w. Some (7, w)) 7 sock_world = Some (7, w') \<and> ctx_list w' 2 [8] \<and> closed_list w' 1 [7]"
proof -
  from us_socket_close_spec [OF sock_world_live sock_world_closed, of "\<lambda>n a w. Some (7, w)" os0]
  obtain w' h where w': "us_socket_close (\<lambda>n a w. Some (7, w)) 7 sock_world =
      call_fn (\<lambda>n a w. Some (7, w)) h (Arg_sock 7) w'" "map_option c_on_close (ctxs sock_world 2) = Some h"
    "ctx_list w' 2 [8]" "closed_list w' 1 [7]" by auto
  have "h = Fn_user 0" using w'(2) by (simp add: sock_world_def)
  with w' show ?thesis by (simp add: call_fn_def)
qed

lemma us_socket_timeout_spec_witness:
  "\<exists>n. us_socket_timeout 7 10 sock_world = Some (sock_world\<lparr>socks := (socks sock_world)(7 \<mapsto> \<lparr>s_context = 2, s_prev = 0, s_next = 8, s_timeout = n\<rparr>)\<rparr>)
     \<and> 4 * unat n \<le> 13 \<and> 10 \<le> 4 * unat n + 1"
proof -
  have "socks sock_world 7 = Some \<lparr>s_context = 2, s_prev = 0, s_next = 8, s_timeout = 1\<rparr>" by (simp add: sock_world_def)
  from us_socket_timeout_spec [OF this, of 10] show ?thesis by auto
qed

lemma us_socket_shutdown_spec_witness:
  "\<exists>w'. us_socket_shutdown 7 sock_world = Some w' \<and> us_socket_is_shut_down 7 w' = Some True \<and> poll_armed 7 1 w'"
  using us_socket_shutdown_spec [OF sock_world_reads(1-4,6,5)] by blast

lemma us_socket_write_spec_witness:
  "\<exists>w'. us_socket_write 7 [1, 2, 3, 4, 5, 6, 7] 0 sock_world = Some (5, w') \<and> us_poll_events 7 w' = Some 5"
proof -
  have "bsd_send 4 [1, 2, 3, 4, 5, 6, 7] 0 sock_world = (5, log_call (Sys_send 4 [1, 2, 3, 4, 5, 6, 7] MSG_NOSIGNAL) sock_world)"
    by (simp add: bsd_send_def syscall_def log_call_def sock_world_def world0_def os0_def)
  from us_socket_write_spec [OF sock_world_reads(1-5) this] show ?thesis by (auto simp: event_defs)
qed


text \<open>C22: Adopting a live socket into another context of its loop, while the loop's pending events are in order, ends and moves the
socket, possibly to a new address, from the list of the old context to the head of the list of the new one, with its timeout cleared.
The old address is freed when the socket moved, and the events it polls for are kept. The kernel then watches the descriptor for them
through the new address, if there are any or the socket did not move (a socket that polls for nothing and moves is not registered anew).\<close>

theorem us_socket_adopt_spec:
  assumes "live_sock w loop old zs s" "ctx_list w ctx xs" "ctx \<noteq> old" "set zs \<inter> set xs = {}" "ctx \<notin> set zs" "old \<notin> set xs"
    and "fresh_ok w" "poll_armed s loop w" "us_poll_events s w = Some e" "loops w loop = Some l" "pending_ok l"
  shows "\<exists>q w'. us_socket_context_adopt_socket ctx s n w = Some (q, w') \<and>
    ctx_list w' old (remove1 s zs) \<and> ctx_list w' ctx (q # xs) \<and> map_option s_timeout (socks w' q) = Some 0 \<and>
    us_poll_events q w' = Some e \<and> (q \<noteq> s \<longrightarrow> polls w' s = None) \<and> (e \<noteq> 0 \<or> q = s \<longrightarrow> poll_armed q loop w')"
proof -
  obtain as bs where zs: "zs = as @ s # bs" using assms(1) by (auto simp: live_sock_def dest: split_list)
  have dz: "distinct zs" "s \<notin> set (as @ bs)" using assms(1) zs by (auto simp: live_sock_def ctx_list_def)
  then have rm: "remove1 s zs = as @ bs" using zs by (simp add: remove1_append_notin)
  obtain x p l c where x: "socks w s = Some x" "s_context x = old" "polls w s = Some p" "loops w loop = Some l"
    "ctxs w old = Some c" "c_loop c = loop" "s_prev x \<noteq> old" "s \<noteq> NULL" "old \<noteq> NULL" "s \<noteq> old"
    by (rule live_sock_get [OF assms(1)])
  obtain w1 where w1: "us_internal_socket_context_unlink old s w = Some w1" "unlink_effect old s as bs w w1"
    using unlink_spec [of w old as s bs] assms(1) zs by (auto simp: live_sock_def)
  have same: "polls w1 = polls w" "loops w1 = loops w" "os_log w1 = os_log w" "brk w1 = brk w" "lexts w1 = lexts w"
    "cbs w1 = cbs w" "dom (socks w1) = dom (socks w)" "dom (ctxs w1) = dom (ctxs w)"
    using w1(2) by (auto simp: unlink_effect_def rest_same_def)
  have fr: "fresh_ok w1" using assms(7) same unfolding fresh_ok_def by (metis domIff)
  have s1: "socks w1 s = Some x" using w1(2) dz x by (simp add: unlink_effect_def)
  have sl: "sock_loop s w1 = Some loop" using s1 x w1(2) by (auto simp: sock_loop_def unlink_effect_def)
  have l1: "ctx_list w1 old (as @ bs)" using w1(2) by (simp add: unlink_effect_def)
  have l2: "ctx_list w1 ctx xs"
    using assms(2) by (rule ctx_list_frame) (use w1(2) assms(3,4) zs in \<open>auto simp: unlink_effect_def\<close>)
  have ds: "s \<in> dom (polls w1)" using x same by auto
  have "us_poll_resize s loop w1 \<noteq> None"
    using us_poll_resize_total [OF fr ds] same assms(10,11) by simp
  then obtain q w2 where w2: "us_poll_resize s loop w1 = Some (q, w2)" by auto
  have a1: "poll_armed s loop w1" "us_poll_events s w1 = Some e"
    using assms(8,9) same by (simp_all add: poll_armed_def us_poll_events_def)
  note f2 = us_poll_resize_frame [OF w2 fr ds]
  have qin: "q \<notin> set (as @ bs)" "q \<notin> set xs" "q \<noteq> NULL" "q \<noteq> ctx"
  proof -
    have b: "0 < brk w1" "socks w1 (brk w1) = None" "ctxs w1 (brk w1) = None" using fr by (auto simp: fresh_ok_def)
    have "brk w1 \<notin> set (as @ bs)" "brk w1 \<notin> set xs" "brk w1 \<noteq> ctx"
      using b l1 l2 chain_nonzero by (fastforce simp: ctx_list_def)+
    then show "q \<notin> set (as @ bs)" "q \<notin> set xs" "q \<noteq> NULL" "q \<noteq> ctx"
      using f2(4) dz zs x assms(4,5) b by auto
  qed
  have "socks w2 a = socks w1 a" if "a \<in> set (as @ bs) \<union> set xs" for a
    by (rule f2(2)) (use that qin dz zs assms(4) in auto)
  then have l3: "ctx_list w2 old (as @ bs)" "ctx_list w2 ctx xs"
    using f2(3) ctx_list_frame [OF l1, of w2] ctx_list_frame [OF l2, of w2] by auto
  from link_spec [OF l3(2) qin(2-4)] f2(1) s1 obtain w'
    where le: "us_internal_socket_context_link ctx q w2 = Some w'" "link_effect ctx q xs w2 w'" by auto
  have ad: "us_socket_context_adopt_socket ctx s n w = Some (q, w')"
    using x w1(1) sl w2 le(1) by (simp add: us_socket_context_adopt_socket_def us_socket_is_closed_def us_socket_get_context_def)
  have "ctx_list w' old (as @ bs)"
    using l3(1) by (rule ctx_list_frame) (use le qin assms(3,4) zs in \<open>auto simp: link_effect_def\<close>)
  moreover have "poll_armed q loop w' = poll_armed q loop w2" "us_poll_events q w' = us_poll_events q w2" "polls w' = polls w2"
    using le by (auto simp: link_effect_def rest_same_def poll_armed_def us_poll_events_def)
  moreover have "ctx_list w' ctx (q # xs)" "map_option s_timeout (socks w' q) = Some 0" using le(2) by (auto simp: link_effect_def)
  ultimately show ?thesis
    using ad us_poll_resize_armed [OF w2 fr a1] rm by (intro exI [of _ q] exI [of _ w']) simp
qed


text \<open>The world of the instances with a second, empty context 3.\<close>

definition adopt_world :: world where
  "adopt_world = sock_world\<lparr>ctxs := (ctxs sock_world)(3 \<mapsto> ctx0)\<rparr>"

lemma us_socket_adopt_spec_witness:
  "\<exists>q w'. us_socket_context_adopt_socket 3 7 0 adopt_world = Some (q, w') \<and> ctx_list w' 2 [8] \<and> ctx_list w' 3 [q] \<and>
     poll_armed q 1 w'"
proof -
  have l: "live_sock adopt_world 1 2 [7, 8] 7"
    using sock_world_live by (auto simp: live_sock_def adopt_world_def ctx_list_def)
  have l3: "ctx_list adopt_world 3 []" by (simp add: ctx_list_def adopt_world_def ctx0_def)
  have f: "fresh_ok adopt_world" by (simp add: fresh_ok_def adopt_world_def sock_world_def world0_def)
  have a: "poll_armed 7 1 adopt_world" "us_poll_events 7 adopt_world = Some 1"
    using sock_world_reads by (simp_all add: adopt_world_def poll_armed_def us_poll_events_def)
  obtain lp where lp: "loops adopt_world 1 = Some lp" "pending_ok lp"
    by (simp add: adopt_world_def sock_world_def world0_defs pending_ok_def)
  from us_socket_adopt_spec [OF l l3 _ _ _ _ f a lp, of 0] show ?thesis by auto
qed

end
