(* ===== verification/UsLoop.thy ===== *)
theory UsLoop
  imports UsSocket
begin

text \<open>
  The event loop (loop.c, and the loop of eventing/epoll.c): the timeout sweep over the
  contexts of a loop, the dispatch of ready polls, the deferred free of closed sockets and the run
  loop. A loop of the code that may not end is a \<open>partial_function (option)\<close>: not ending is
  \<open>None\<close>, as is a fault, so a theorem that a sweep is \<open>Some\<close> says that it ends.
  The build is the one without the TLS layer (LIBUS_NO_SSL).
\<close>

subsection \<open>The timeout sweep\<close>

text \<open>\<open>context->iterator = s->next\<close>\<close>

definition advance_iterator :: "addr \<Rightarrow> addr \<Rightarrow> world \<Rightarrow> world option" where
  "advance_iterator ctx s w = do {
     x \<leftarrow> socks w s;
     upd_ctx ctx (\<lambda>c. c\<lparr>c_iterator := s_next x\<rparr>) w }"

text \<open>\<open>context->on_socket_timeout(s)\<close>\<close>

definition timeout_call :: "env \<Rightarrow> addr \<Rightarrow> addr \<Rightarrow> world \<Rightarrow> world option" where
  "timeout_call env ctx s w = do {
     c \<leftarrow> ctxs w ctx;
     (_, w) \<leftarrow> call_fn env (c_on_socket_timeout c) (Arg_sock s) w;
     Some w }"

text \<open>One round of the inner loop, at socket \<open>s\<close>.\<close>

definition sweep_socket :: "env \<Rightarrow> addr \<Rightarrow> addr \<Rightarrow> world \<Rightarrow> world option" where
  "sweep_socket env ctx s w = do {
     x \<leftarrow> socks w s;
     (if s_timeout x \<noteq> 0 then do {
        w \<leftarrow> upd_sock s (\<lambda>x. x\<lparr>s_timeout := s_timeout x - 1\<rparr>) w;
        x \<leftarrow> socks w s;
        (if s_timeout x = 0 then do {
           w \<leftarrow> timeout_call env ctx s w;
           c \<leftarrow> ctxs w ctx;
           (if s = c_iterator c then advance_iterator ctx s w else Some w) }
         else advance_iterator ctx s w) }
      else advance_iterator ctx s w) }"

partial_function (option) sweep_sockets :: "env \<Rightarrow> addr \<Rightarrow> world \<Rightarrow> world option" where
  "sweep_sockets env ctx w = do {
     c \<leftarrow> ctxs w ctx;
     (if c_iterator c \<noteq> NULL then do {
        w \<leftarrow> sweep_socket env ctx (c_iterator c) w;
        sweep_sockets env ctx w }
      else Some w) }"

definition sweep_context :: "env \<Rightarrow> addr \<Rightarrow> world \<Rightarrow> world option" where
  "sweep_context env ctx w = do {
     w \<leftarrow> upd_ctx ctx (\<lambda>c. c\<lparr>c_iterator := c_head c\<rparr>) w;
     sweep_sockets env ctx w }"

partial_function (option) sweep_contexts :: "env \<Rightarrow> addr \<Rightarrow> world \<Rightarrow> world option" where
  "sweep_contexts env loop w = do {
     l \<leftarrow> loops w loop;
     (if l_iterator l \<noteq> NULL then do {
        w \<leftarrow> sweep_context env (l_iterator l) w;
        l \<leftarrow> loops w loop;
        c \<leftarrow> ctxs w (l_iterator l);
        w \<leftarrow> upd_loop loop (\<lambda>l. l\<lparr>l_iterator := c_next c\<rparr>) w;
        sweep_contexts env loop w }
      else Some w) }"

text \<open>A recursive sweep ends the process; after the loop the iterator is null, so the second test is dead.\<close>

definition us_internal_timer_sweep :: "env \<Rightarrow> addr \<Rightarrow> world \<Rightarrow> world option" where
  "us_internal_timer_sweep env loop w = do {
     l \<leftarrow> loops w loop;
     _ \<leftarrow> ensure (l_iterator l = NULL);
     w \<leftarrow> upd_loop loop (\<lambda>l. l\<lparr>l_iterator := l_head l\<rparr>) w;
     w \<leftarrow> sweep_contexts env loop w;
     l \<leftarrow> loops w loop;
     _ \<leftarrow> ensure (l_iterator l = NULL);
     Some w }"

definition sweep_timer_cb :: "env \<Rightarrow> addr \<Rightarrow> world \<Rightarrow> world option" where
  "sweep_timer_cb env cb w = do { c \<leftarrow> cbs w cb; us_internal_timer_sweep env (cb_loop c) w }"

subsection \<open>Freeing the closed sockets\<close>

partial_function (option) free_closed_from :: "addr \<Rightarrow> addr \<Rightarrow> world \<Rightarrow> world option" where
  "free_closed_from loop s w =
     (if s \<noteq> NULL then do {
        x \<leftarrow> socks w s;
        w \<leftarrow> us_poll_free s loop w;
        free_closed_from loop (s_next x) w }
      else Some w)"

definition us_internal_free_closed_sockets :: "addr \<Rightarrow> world \<Rightarrow> world option" where
  "us_internal_free_closed_sockets loop w = do {
     l \<leftarrow> loops w loop;
     (if l_closed_head l \<noteq> NULL then do {
        w \<leftarrow> free_closed_from loop (l_closed_head l) w;
        upd_loop loop (\<lambda>l. l\<lparr>l_closed_head := NULL\<rparr>) w }
      else Some w) }"

subsection \<open>Dispatch\<close>

definition dispatch_callback :: "env \<Rightarrow> addr \<Rightarrow> world \<Rightarrow> world option" where
  "dispatch_callback env p w = do {
     w \<leftarrow> us_internal_accept_poll_event p w;
     cb \<leftarrow> cbs w p;
     (case cb_cb cb of
        Fn_sweep_timer \<Rightarrow> sweep_timer_cb env p w
      | f \<Rightarrow> do {
          (_, w) \<leftarrow> call_fn env f (if cb_expects_the_loop cb then Arg_loop (cb_loop cb) else Arg_cb p) w;
          Some w }) }"

definition dispatch_connected :: "env \<Rightarrow> addr \<Rightarrow> world \<Rightarrow> world option" where
  "dispatch_connected env p w = do {
     loop \<leftarrow> sock_loop p w;
     w \<leftarrow> us_poll_change p loop LIBUS_SOCKET_READABLE w;
     fd \<leftarrow> us_poll_fd p w;
     w \<leftarrow> us_internal_poll_set_type p POLL_TYPE_SOCKET (bsd_socket_nodelay fd 1 w);
     ctx \<leftarrow> us_socket_get_context p w;
     c \<leftarrow> ctxs w ctx;
     (_, w) \<leftarrow> call_fn env (c_on_open c) (Arg_open p True) w;
     Some w }"

text \<open>One accepted descriptor: its socket is created, polled, linked and reported.\<close>

definition accept_one :: "env \<Rightarrow> addr \<Rightarrow> int \<Rightarrow> world \<Rightarrow> world option" where
  "accept_one env ls client_fd w = do {
     loop \<leftarrow> sock_loop ls w;
     ext \<leftarrow> lexts w ls;
     (p, w) \<leftarrow> us_create_poll loop False (Ext_socket (unat ext)) w;
     w \<leftarrow> us_poll_init p client_fd POLL_TYPE_SOCKET w;
     loop \<leftarrow> sock_loop ls w;
     w \<leftarrow> us_poll_start p loop LIBUS_SOCKET_READABLE w;
     ctx \<leftarrow> us_socket_get_context ls w;
     w \<leftarrow> upd_sock p (\<lambda>x. x\<lparr>s_context := ctx\<rparr>) w;
     w \<leftarrow> us_internal_socket_context_link ctx p (bsd_socket_nodelay client_fd 1 w);
     c \<leftarrow> ctxs w ctx;
     (_, w) \<leftarrow> call_fn env (c_on_open c) (Arg_open p False) w;
     Some w }"

partial_function (option) accept_loop :: "env \<Rightarrow> addr \<Rightarrow> int \<Rightarrow> world \<Rightarrow> world option" where
  "accept_loop env ls client_fd w = do {
     w \<leftarrow> accept_one env ls client_fd w;
     fd \<leftarrow> us_poll_fd ls w;
     (let (client_fd, w) = bsd_accept_socket fd w
      in if client_fd \<noteq> LIBUS_SOCKET_ERROR then accept_loop env ls client_fd w else Some w) }"

definition dispatch_semi_socket :: "env \<Rightarrow> addr \<Rightarrow> world \<Rightarrow> world option" where
  "dispatch_semi_socket env p w = do {
     events \<leftarrow> us_poll_events p w;
     (if events = LIBUS_SOCKET_WRITABLE then dispatch_connected env p w
      else do {
        fd \<leftarrow> us_poll_fd p w;
        let (client_fd, w) = bsd_accept_socket fd w;
        (if client_fd = LIBUS_SOCKET_ERROR then Some w else accept_loop env p client_fd w) }) }"

text \<open>The writable half; the flag says that the socket was closed and the dispatch returns.\<close>

definition dispatch_writable :: "env \<Rightarrow> addr \<Rightarrow> world \<Rightarrow> (addr \<times> bool \<times> world) option" where
  "dispatch_writable env s w = do {
     loop \<leftarrow> sock_loop s w;
     w \<leftarrow> upd_loop loop (\<lambda>l. l\<lparr>l_last_write_failed := 0\<rparr>) w;
     ctx \<leftarrow> us_socket_get_context s w;
     c \<leftarrow> ctxs w ctx;
     (s, w) \<leftarrow> call_fn env (c_on_writable c) (Arg_sock s) w;
     closed \<leftarrow> us_socket_is_closed s w;
     (if closed then Some (s, True, w)
      else do {
        loop \<leftarrow> sock_loop s w;
        l \<leftarrow> loops w loop;
        shut \<leftarrow> us_socket_is_shut_down s w;
        w \<leftarrow> (if l_last_write_failed l = 0 \<or> shut then do {
                events \<leftarrow> us_poll_events s w;
                us_poll_change s loop (events AND LIBUS_SOCKET_READABLE) w }
              else Some w);
        Some (s, False, w) }) }"

text \<open>recv writes into the loop's buffer, behind the padding.\<close>

definition recv_into :: "addr \<Rightarrow> bytes \<Rightarrow> world \<Rightarrow> world option" where
  "recv_into buf data w = do {
     b \<leftarrow> bufs w buf;
     Some (w\<lparr>bufs := (bufs w)(buf \<mapsto> take LIBUS_RECV_BUFFER_PADDING b @ data @
       drop (LIBUS_RECV_BUFFER_PADDING + length data) b)\<rparr>) }"

definition dispatch_readable :: "env \<Rightarrow> addr \<Rightarrow> world \<Rightarrow> world option" where
  "dispatch_readable env s w = do {
     fd \<leftarrow> us_poll_fd s w;
     loop \<leftarrow> sock_loop s w;
     l \<leftarrow> loops w loop;
     let (len, data, w) = bsd_recv fd (int LIBUS_RECV_BUFFER_LENGTH) w;
     w \<leftarrow> recv_into (l_recv_buf l) data w;
     ctx \<leftarrow> us_socket_get_context s w;
     c \<leftarrow> ctxs w ctx;
     (if 0 < len then do { (_, w) \<leftarrow> call_fn env (c_on_data c) (Arg_data s data) w; Some w }
      else if len = 0 then do {
        shut \<leftarrow> us_socket_is_shut_down s w;
        (if shut then do { (_, w) \<leftarrow> us_socket_close env s w; Some w }
         else do {
           events \<leftarrow> us_poll_events s w;
           w \<leftarrow> us_poll_change s loop (events AND LIBUS_SOCKET_WRITABLE) w;
           (_, w) \<leftarrow> call_fn env (c_on_end c) (Arg_sock s) w;
           Some w }) }
      else if len = LIBUS_SOCKET_ERROR \<and> \<not> bsd_would_block w then do {
        (_, w) \<leftarrow> us_socket_close env s w; Some w }
      else Some w) }"

definition dispatch_socket :: "env \<Rightarrow> addr \<Rightarrow> bool \<Rightarrow> u32 \<Rightarrow> world \<Rightarrow> world option" where
  "dispatch_socket env s error events w =
     (if error then do { (_, w) \<leftarrow> us_socket_close env s w; Some w }
      else do {
        (s, done, w) \<leftarrow> (if events AND LIBUS_SOCKET_WRITABLE \<noteq> 0 then dispatch_writable env s w
                          else Some (s, False, w));
        (if done then Some w
         else if events AND LIBUS_SOCKET_READABLE \<noteq> 0 then dispatch_readable env s w
         else Some w) })"

definition us_internal_dispatch_ready_poll :: "env \<Rightarrow> addr \<Rightarrow> bool \<Rightarrow> u32 \<Rightarrow> world \<Rightarrow> world option" where
  "us_internal_dispatch_ready_poll env p error events w = do {
     t \<leftarrow> us_internal_poll_type p w;
     (if t = POLL_TYPE_CALLBACK then dispatch_callback env p w
      else if t = POLL_TYPE_SEMI_SOCKET then dispatch_semi_socket env p w
      else dispatch_socket env p error events w) }"

subsection \<open>The loop\<close>

definition us_loop_integrate :: "addr \<Rightarrow> world \<Rightarrow> world option" where
  "us_loop_integrate loop w = do {
     l \<leftarrow> loops w loop;
     us_timer_set (l_sweep_timer l) Fn_sweep_timer (int LIBUS_TIMEOUT_GRANULARITY * 1000)
       (int LIBUS_TIMEOUT_GRANULARITY * 1000) w }"

definition us_internal_loop_data_init :: "addr \<Rightarrow> fnptr \<Rightarrow> fnptr \<Rightarrow> fnptr \<Rightarrow> world \<Rightarrow> world option" where
  "us_internal_loop_data_init loop wakeup_cb pre_cb post_cb w = do {
     (t, w) \<leftarrow> us_create_timer loop True 0 w;
     w \<leftarrow> upd_loop loop (\<lambda>l. l\<lparr>l_sweep_timer := t\<rparr>) w;
     let b = brk w;
     let w = w\<lparr>brk := Suc b, bufs := (bufs w)(b \<mapsto>
         replicate (LIBUS_RECV_BUFFER_LENGTH + LIBUS_RECV_BUFFER_PADDING * 2) 0)\<rparr>;
     w \<leftarrow> upd_loop loop (\<lambda>l. l\<lparr>l_recv_buf := b, l_ssl_data := NULL, l_head := NULL, l_iterator := NULL,
         l_closed_head := NULL, l_pre_cb := pre_cb, l_post_cb := post_cb\<rparr>) w;
     (a, w) \<leftarrow> us_internal_create_async loop True 0 w;
     w \<leftarrow> upd_loop loop (\<lambda>l. l\<lparr>l_wakeup_async := a\<rparr>) w;
     us_internal_async_set a wakeup_cb w }"

definition us_internal_loop_data_free :: "addr \<Rightarrow> world \<Rightarrow> world option" where
  "us_internal_loop_data_free loop w = do {
     l \<leftarrow> loops w loop;
     _ \<leftarrow> bufs w (l_recv_buf l);
     w \<leftarrow> us_timer_close (l_sweep_timer l) (w\<lparr>bufs := (bufs w)(l_recv_buf l := None)\<rparr>);
     us_internal_async_close (l_wakeup_async l) w }"

definition us_wakeup_loop :: "addr \<Rightarrow> world \<Rightarrow> world option" where
  "us_wakeup_loop loop w = do { l \<leftarrow> loops w loop; us_internal_async_wakeup (l_wakeup_async l) w }"

definition us_create_loop :: "int \<Rightarrow> fnptr \<Rightarrow> fnptr \<Rightarrow> fnptr \<Rightarrow> nat \<Rightarrow> world \<Rightarrow> (addr \<times> world) option" where
  "us_create_loop default_hint wakeup_cb pre_cb post_cb ext_size w = do {
     let loop = brk w;
     let (epfd, w) = syscall Sys_epoll_create (w\<lparr>brk := Suc loop\<rparr>);
     let w = w\<lparr>loops := (loops w)(loop \<mapsto> (junk_loop w)\<lparr>l_num_polls := 0, l_epfd := epfd\<rparr>)\<rparr>;
     w \<leftarrow> us_internal_loop_data_init loop wakeup_cb pre_cb post_cb w;
     Some (loop, w) }"

definition us_loop_free :: "addr \<Rightarrow> world \<Rightarrow> world option" where
  "us_loop_free loop w = do {
     w \<leftarrow> us_internal_loop_data_free loop w;
     l \<leftarrow> loops w loop;
     Some ((log_call (Sys_close (l_epfd l)) w)\<lparr>loops := (loops w)(loop := None)\<rparr>) }"

text \<open>The \<open>for\<close> over the ready events; the handlers may change the list and the bounds.\<close>

partial_function (option) run_ready :: "env \<Rightarrow> addr \<Rightarrow> world \<Rightarrow> world option" where
  "run_ready env loop w = do {
     l \<leftarrow> loops w loop;
     (if l_fd_iterator l < l_num_fd_ready l then do {
        _ \<leftarrow> ensure (nat (l_fd_iterator l) < length (l_ready_events l));
        (let (p, ev) = l_ready_events l ! nat (l_fd_iterator l) in do {
          w \<leftarrow> us_internal_dispatch_ready_poll env p (ev AND (EPOLLERR OR EPOLLHUP) \<noteq> 0) ev w;
          w \<leftarrow> upd_loop loop (\<lambda>l. l\<lparr>l_fd_iterator := l_fd_iterator l + 1\<rparr>) w;
          run_ready env loop w }) }
      else Some w) }"

definition call_loop_fn :: "env \<Rightarrow> fnptr \<Rightarrow> addr \<Rightarrow> world \<Rightarrow> world option" where
  "call_loop_fn env f loop w = do { (_, w) \<leftarrow> call_fn env f (Arg_loop loop) w; Some w }"

definition loop_iteration :: "env \<Rightarrow> addr \<Rightarrow> world \<Rightarrow> world option" where
  "loop_iteration env loop w = do {
     l \<leftarrow> loops w loop;
     w \<leftarrow> call_loop_fn env (l_pre_cb l) loop w;
     l \<leftarrow> loops w loop;
     let (n, w) = syscall (Sys_epoll_wait (l_epfd l)) w;
     let es = take (nat n) (sys_ready (os_fn w) (os_log w));
     w \<leftarrow> upd_loop loop (\<lambda>l. l\<lparr>l_num_fd_ready := n, l_fd_iterator := 0,
         l_ready_events := es @ drop (length es) (l_ready_events l)\<rparr>) w;
     w \<leftarrow> run_ready env loop w;
     w \<leftarrow> us_internal_free_closed_sockets loop w;
     l \<leftarrow> loops w loop;
     call_loop_fn env (l_post_cb l) loop w }"

partial_function (option) loop_while :: "env \<Rightarrow> addr \<Rightarrow> world \<Rightarrow> world option" where
  "loop_while env loop w = do {
     l \<leftarrow> loops w loop;
     (if l_num_polls l \<noteq> 0 then do { w \<leftarrow> loop_iteration env loop w; loop_while env loop w }
      else Some w) }"

definition us_loop_run :: "env \<Rightarrow> addr \<Rightarrow> world \<Rightarrow> world option" where
  "us_loop_run env loop w = do { w \<leftarrow> us_loop_integrate loop w; loop_while env loop w }"


subsection \<open>Timeouts and iterators\<close>

definition tmo :: "world \<Rightarrow> addr \<Rightarrow> u16 option" where
  "tmo w s = map_option s_timeout (socks w s)"

definition iter :: "world \<Rightarrow> addr \<Rightarrow> addr option" where
  "iter w ctx = map_option c_iterator (ctxs w ctx)"

definition set_tmo :: "addr \<Rightarrow> u16 \<Rightarrow> world \<Rightarrow> world" where
  "set_tmo s t w = w\<lparr>socks := (socks w)(s := map_option (s_timeout_update (\<lambda>_. t)) (socks w s))\<rparr>"

definition set_iter :: "addr \<Rightarrow> addr \<Rightarrow> world \<Rightarrow> world" where
  "set_iter ctx i w = w\<lparr>ctxs := (ctxs w)(ctx := map_option (c_iterator_update (\<lambda>_. i)) (ctxs w ctx))\<rparr>"

lemma tmo_set [simp]:
  "tmo (set_tmo s t w) a = (if a = s then map_option (\<lambda>_. t) (socks w s) else tmo w a)"
  "tmo (set_iter ctx i w) a = tmo w a"
  "iter (set_tmo s t w) ctx = iter w ctx"
  "iter (set_iter ctx i w) ctx' = (if ctx' = ctx then map_option (\<lambda>_. i) (ctxs w ctx) else iter w ctx')"
  by (auto simp: tmo_def set_tmo_def set_iter_def iter_def option.map_comp comp_def)

lemma chain_set_tmo: "chain (socks (set_tmo s t w)) ctx p xs e = chain (socks w) ctx p xs e"
  by (induction xs arbitrary: p) (auto simp: set_tmo_def)

lemma ctx_list_set [simp]:
  "ctx_list (set_tmo s t w) ctx zs = ctx_list w ctx zs"
  "ctx_list (set_iter c i w) ctx zs = ctx_list w ctx zs"
proof -
  show "ctx_list (set_tmo s t w) ctx zs = ctx_list w ctx zs"
    using chain_set_tmo by (simp add: ctx_list_def) (simp add: set_tmo_def)
  show "ctx_list (set_iter c i w) ctx zs = ctx_list w ctx zs"
    by (auto simp: ctx_list_def set_iter_def)
qed

lemma ctx_list_get:
  assumes "ctx_list w ctx (xs @ s # ys)"
  obtains x c where "socks w s = Some x" "s_next x = first_or ys NULL" "ctxs w ctx = Some c" "s \<noteq> NULL"
    "s \<notin> set xs" "s \<notin> set ys"
  using assms by (auto simp: ctx_list_def)

text \<open>The counter after one sweep.\<close>

definition tick :: "u16 \<Rightarrow> u16" where
  "tick t = (if t = 0 then 0 else t - 1)"

lemma advance_iterator_eq:
  assumes "ctx_list w ctx (xs @ s # ys)"
  shows "advance_iterator ctx s w = Some (set_iter ctx (first_or ys NULL) w)"
  by (rule ctx_list_get [OF assms]) (simp add: advance_iterator_def upd_defs set_iter_def)

lemma sweep_socket_tick:
  assumes "ctx_list w ctx (xs @ s # ys)" "tmo w s = Some t" "t \<noteq> 1"
  shows "sweep_socket env ctx s w = Some (set_iter ctx (first_or ys NULL) (set_tmo s (tick t) w))"
proof (rule ctx_list_get [OF assms(1)])
  fix x c assume x: "socks w s = Some x" "s_next x = first_or ys NULL" "ctxs w ctx = Some c"
  have t: "s_timeout x = t" using assms(2) x by (simp add: tmo_def)
  have u: "upd_sock s (\<lambda>x. x\<lparr>s_timeout := s_timeout x - 1\<rparr>) w = Some (set_tmo s (t - 1) w)"
    using x t by (simp add: upd_defs set_tmo_def)
  have s0: "socks (set_tmo s (t - 1) w) s = Some (x\<lparr>s_timeout := t - 1\<rparr>)" using x by (simp add: set_tmo_def)
  have w0: "set_tmo s 0 w = w" if "t = 0" using x t that by (simp add: set_tmo_def fun_upd_idem)
  show ?thesis
    using x t assms(3) u s0 w0 advance_iterator_eq [of "set_tmo s (t - 1) w" ctx xs s ys] advance_iterator_eq [OF assms(1)] assms(1)
    by (auto simp: sweep_socket_def tick_def simp del: bind_eq_Some)
qed

lemma sweep_socket_fire:
  assumes "ctx_list w ctx (xs @ s # ys)" "tmo w s = Some 1"
  shows "sweep_socket env ctx s w = do {
     w \<leftarrow> timeout_call env ctx s (set_tmo s 0 w);
     c \<leftarrow> ctxs w ctx;
     (if s = c_iterator c then advance_iterator ctx s w else Some w) }"
proof (rule ctx_list_get [OF assms(1)])
  fix x c assume x: "socks w s = Some x" "s_next x = first_or ys NULL" "ctxs w ctx = Some c"
  have t: "s_timeout x = 1" using assms(2) x by (simp add: tmo_def)
  have u: "upd_sock s (\<lambda>x. x\<lparr>s_timeout := s_timeout x - 1\<rparr>) w = Some (set_tmo s 0 w)"
    using x t by (simp add: upd_defs set_tmo_def)
  have s0: "socks (set_tmo s 0 w) s = Some (x\<lparr>s_timeout := 0\<rparr>)" using x by (simp add: set_tmo_def)
  show ?thesis
    using x t u s0 by (simp add: sweep_socket_def del: bind_eq_Some)
qed

text \<open>
  What the sweep needs of an on_timeout handler so that the iteration is safe: called on the socket
  the iterator stands on, it leaves a well-formed list in which the part still to be visited has only lost
  members, and the iterator on the same socket or, when that one is gone, on the next of them.
\<close>

locale timeout_handler =
  fixes env :: env and ctx :: addr and I :: "world \<Rightarrow> addr list \<Rightarrow> bool"
  assumes I_tmo: "I w zs \<Longrightarrow> I (set_tmo s t w) zs"
    and I_iter: "I w zs \<Longrightarrow> I (set_iter ctx i w) zs"
    and handler: "I w (xs @ s # ys) \<Longrightarrow> ctx_list w ctx (xs @ s # ys) \<Longrightarrow> iter w ctx = Some s \<Longrightarrow> tmo w s = Some 0 \<Longrightarrow>
      \<exists>w' xs' ys'. timeout_call env ctx s w = Some w' \<and> subseq ys' ys \<and>
        (I w' (xs' @ s # ys') \<and> ctx_list w' ctx (xs' @ s # ys') \<and> iter w' ctx = Some s \<or>
         I w' (xs' @ ys') \<and> ctx_list w' ctx (xs' @ ys') \<and> iter w' ctx = Some (first_or ys' NULL) \<and> s \<notin> set ys')"
begin

lemma sweep_socket_step:
  assumes "I w (xs @ s # ys)" "ctx_list w ctx (xs @ s # ys)" "iter w ctx = Some s"
  shows "\<exists>w' xs' ys'. sweep_socket env ctx s w = Some w' \<and> subseq ys' ys \<and> I w' (xs' @ ys') \<and>
    ctx_list w' ctx (xs' @ ys') \<and> iter w' ctx = Some (first_or ys' NULL)"
proof (rule ctx_list_get [OF assms(2)])
  fix x c assume x: "socks w s = Some x" "s_next x = first_or ys NULL" "ctxs w ctx = Some c" "s \<noteq> NULL"
  show ?thesis
  proof (cases "s_timeout x = 1")
    case False
    define w' where "w' = set_iter ctx (first_or ys NULL) (set_tmo s (tick (s_timeout x)) w)"
    have c': "ctxs (set_tmo s t w) ctx = Some c" for t using x by (simp add: set_tmo_def)
    have "sweep_socket env ctx s w = Some w'"
      using False x unfolding w'_def by (intro sweep_socket_tick [OF assms(2)]) (auto simp: tmo_def)
    moreover have "I w' ((xs @ [s]) @ ys)" using I_iter [OF I_tmo [OF assms(1)]] by (simp add: w'_def)
    moreover have "ctx_list w' ctx ((xs @ [s]) @ ys)" "iter w' ctx = Some (first_or ys NULL)"
      using assms(2) c' by (auto simp: w'_def)
    ultimately show ?thesis by blast
  next
    case True
    let ?w = "set_tmo s 0 w"
    have "I ?w (xs @ s # ys)" "ctx_list ?w ctx (xs @ s # ys)" "iter ?w ctx = Some s" "tmo ?w s = Some 0"
      using assms x I_tmo by auto
    from handler [OF this] obtain w1 xs' ys' where
      w1: "timeout_call env ctx s ?w = Some w1" "subseq ys' ys"
        "I w1 (xs' @ s # ys') \<and> ctx_list w1 ctx (xs' @ s # ys') \<and> iter w1 ctx = Some s \<or>
         I w1 (xs' @ ys') \<and> ctx_list w1 ctx (xs' @ ys') \<and> iter w1 ctx = Some (first_or ys' NULL) \<and> s \<notin> set ys'" by blast
    have fire: "sweep_socket env ctx s w = do {
       w \<leftarrow> timeout_call env ctx s (set_tmo s 0 w);
       c \<leftarrow> ctxs w ctx;
       (if s = c_iterator c then advance_iterator ctx s w else Some w) }"
      using True x by (intro sweep_socket_fire [OF assms(2)]) (simp add: tmo_def)
    from w1(3) show ?thesis
    proof
      assume a: "I w1 (xs' @ s # ys') \<and> ctx_list w1 ctx (xs' @ s # ys') \<and> iter w1 ctx = Some s"
      then obtain c1 where "ctxs w1 ctx = Some c1" "c_iterator c1 = s" by (auto simp: iter_def)
      moreover define w' where "w' = set_iter ctx (first_or ys' NULL) w1"
      ultimately have "sweep_socket env ctx s w = Some w'" "I w' ((xs' @ [s]) @ ys')"
        "ctx_list w' ctx ((xs' @ [s]) @ ys')" "iter w' ctx = Some (first_or ys' NULL)"
        using fire w1(1) a advance_iterator_eq [of w1 ctx xs' s ys'] I_iter by (auto simp del: bind_eq_Some)
      then show ?thesis using w1(2) by blast
    next
      assume a: "I w1 (xs' @ ys') \<and> ctx_list w1 ctx (xs' @ ys') \<and> iter w1 ctx = Some (first_or ys' NULL) \<and> s \<notin> set ys'"
      then obtain c1 where "ctxs w1 ctx = Some c1" "c_iterator c1 = first_or ys' NULL" by (auto simp: iter_def)
      moreover from this a x(4) have "s \<noteq> c_iterator c1" by (cases ys') auto
      ultimately have "sweep_socket env ctx s w = Some w1" using fire w1(1) by (auto simp del: bind_eq_Some)
      then show ?thesis using a w1(2) by blast
    qed
  qed
qed

lemma sweep_sockets_ends:
  assumes "I w (xs @ ys)" "ctx_list w ctx (xs @ ys)" "iter w ctx = Some (first_or ys NULL)"
  shows "\<exists>w' zs. sweep_sockets env ctx w = Some w' \<and> I w' zs \<and> ctx_list w' ctx zs \<and> iter w' ctx = Some NULL"
  using assms
proof (induction "length ys" arbitrary: w xs ys rule: less_induct)
  case less
  from less.prems(3) obtain c where c: "ctxs w ctx = Some c" "c_iterator c = first_or ys NULL" by (auto simp: iter_def)
  show ?case
  proof (cases ys)
    case Nil
    with less.prems c show ?thesis by (auto simp: sweep_sockets.simps)
  next
    case (Cons s as)
    with less.prems(2) have s: "s \<noteq> NULL" by (auto simp: ctx_list_def)
    from sweep_socket_step [of w xs s as] less.prems Cons obtain w1 xs' ys' where
      w1: "sweep_socket env ctx s w = Some w1" "subseq ys' as" "I w1 (xs' @ ys')" "ctx_list w1 ctx (xs' @ ys')"
        "iter w1 ctx = Some (first_or ys' NULL)" by auto
    have "length ys' < length ys" using list_emb_length [OF w1(2)] Cons by simp
    from less.hyps [OF this w1(3-5)] c Cons s w1(1) show ?thesis
      by (subst sweep_sockets.simps) (simp del: bind_eq_Some)
  qed
qed

end


text \<open>
  A handler that only keeps or only closes the socket it is called on. \<open>J\<close> may also speak of the
  sockets the handler was called on so far, newest first.
\<close>

locale local_handler =
  fixes env :: env and ctx :: addr and keeps :: bool
    and J :: "world \<Rightarrow> addr list \<Rightarrow> addr list \<Rightarrow> bool"
  assumes J_tmo: "J w zs fs \<Longrightarrow> J (set_tmo s t w) zs fs"
    and J_iter: "J w zs fs \<Longrightarrow> J (set_iter ctx i w) zs fs"
    and local_call: "J w (xs @ s # ys) fs \<Longrightarrow> ctx_list w ctx (xs @ s # ys) \<Longrightarrow> iter w ctx = Some s \<Longrightarrow>
      tmo w s = Some 0 \<Longrightarrow>
      \<exists>w'. timeout_call env ctx s w = Some w' \<and> J w' (xs @ (if keeps then [s] else []) @ ys) (s # fs) \<and>
        ctx_list w' ctx (xs @ (if keeps then [s] else []) @ ys) \<and>
        iter w' ctx = Some (if keeps then s else first_or ys NULL) \<and>
        (\<forall>a. a \<noteq> s \<or> keeps \<longrightarrow> tmo w' a = tmo w a)"

sublocale local_handler \<subseteq> timeout_handler env ctx "\<lambda>w zs. \<exists>fs. J w zs fs"
proof
  fix w xs s ys
  assume "\<exists>fs. J w (xs @ s # ys) fs" and a: "ctx_list w ctx (xs @ s # ys)" "iter w ctx = Some s" "tmo w s = Some 0"
  then obtain fs where "J w (xs @ s # ys) fs" by blast
  from local_call [OF this a] obtain w' where w': "timeout_call env ctx s w = Some w'"
    "J w' (xs @ (if keeps then [s] else []) @ ys) (s # fs)" "ctx_list w' ctx (xs @ (if keeps then [s] else []) @ ys)"
    "iter w' ctx = Some (if keeps then s else first_or ys NULL)" by blast
  have "s \<notin> set ys" using a(1) by (auto simp: ctx_list_def)
  then show "\<exists>w' xs' ys'. timeout_call env ctx s w = Some w' \<and> subseq ys' ys \<and>
        ((\<exists>fs. J w' (xs' @ s # ys') fs) \<and> ctx_list w' ctx (xs' @ s # ys') \<and> iter w' ctx = Some s \<or>
         (\<exists>fs. J w' (xs' @ ys') fs) \<and> ctx_list w' ctx (xs' @ ys') \<and> iter w' ctx = Some (first_or ys' NULL) \<and> s \<notin> set ys')"
    using w' by (intro exI [of _ w'] exI [of _ xs] exI [of _ ys]) (auto split: if_splits)
qed (use J_tmo J_iter in blast)+

context local_handler
begin

definition kept :: "world \<Rightarrow> addr \<Rightarrow> bool" where
  "kept w a \<longleftrightarrow> keeps \<or> tmo w a \<noteq> Some 1"

lemma sweep_socket_exact:
  assumes "J w (xs @ s # ys) fs" "ctx_list w ctx (xs @ s # ys)" "iter w ctx = Some s"
  shows "\<exists>w'. sweep_socket env ctx s w = Some w' \<and>
    J w' ((if kept w s then xs @ [s] else xs) @ ys) (if tmo w s = Some 1 then s # fs else fs) \<and>
    ctx_list w' ctx ((if kept w s then xs @ [s] else xs) @ ys) \<and> iter w' ctx = Some (first_or ys NULL) \<and>
    (\<forall>a. a \<noteq> s \<longrightarrow> tmo w' a = tmo w a) \<and> (kept w s \<longrightarrow> tmo w' s = map_option tick (tmo w s))"
proof (rule ctx_list_get [OF assms(2)])
  fix x c assume x: "socks w s = Some x" "s_next x = first_or ys NULL" "ctxs w ctx = Some c" "s \<noteq> NULL" "s \<notin> set ys"
  have t: "tmo w s = Some (s_timeout x)" using x by (simp add: tmo_def)
  have c': "ctxs (set_tmo a t w) ctx = Some c" for a t using x by (simp add: set_tmo_def)
  show ?thesis
  proof (cases "s_timeout x = 1")
    case False
    then show ?thesis
      using sweep_socket_tick [OF assms(2) t False] J_iter [OF J_tmo [OF assms(1)]] assms(2) c' x t
      by (auto simp: kept_def)
  next
    case True
    let ?w = "set_tmo s 0 w"
    have "J ?w (xs @ s # ys) fs" "ctx_list ?w ctx (xs @ s # ys)" "iter ?w ctx = Some s" "tmo ?w s = Some 0"
      using assms x J_tmo by auto
    from local_call [OF this] obtain w1 where w1: "timeout_call env ctx s ?w = Some w1"
      "J w1 (xs @ (if keeps then [s] else []) @ ys) (s # fs)" "ctx_list w1 ctx (xs @ (if keeps then [s] else []) @ ys)"
      "iter w1 ctx = Some (if keeps then s else first_or ys NULL)" "\<forall>a. a \<noteq> s \<or> keeps \<longrightarrow> tmo w1 a = tmo ?w a" by blast
    from w1(4) obtain c1 where c1: "ctxs w1 ctx = Some c1" "c_iterator c1 = (if keeps then s else first_or ys NULL)"
      by (auto simp: iter_def)
    have ne: "first_or ys NULL \<noteq> s" using x by (cases ys) auto
    have fire: "sweep_socket env ctx s w = (if keeps then Some (set_iter ctx (first_or ys NULL) w1) else Some w1)"
      using sweep_socket_fire [OF assms(2)] t True w1 c1 ne advance_iterator_eq [of w1 ctx xs s ys]
      by (auto simp del: bind_eq_Some)
    show ?thesis
      using fire w1 c1 t True x J_iter [of w1 "xs @ s # ys" "s # fs" "first_or ys NULL"]
      by (auto simp: kept_def tick_def split: if_splits)
  qed
qed

lemma sweep_sockets_exact:
  assumes "J w (xs @ ys) fs" "ctx_list w ctx (xs @ ys)" "iter w ctx = Some (first_or ys NULL)"
  shows "\<exists>w'. sweep_sockets env ctx w = Some w' \<and>
    J w' (xs @ filter (kept w) ys) (rev (filter (\<lambda>a. tmo w a = Some 1) ys) @ fs) \<and>
    ctx_list w' ctx (xs @ filter (kept w) ys) \<and> iter w' ctx = Some NULL \<and>
    (\<forall>a. a \<notin> set ys \<longrightarrow> tmo w' a = tmo w a) \<and>
    (\<forall>a \<in> set ys. kept w a \<longrightarrow> tmo w' a = map_option tick (tmo w a))"
  using assms
proof (induction ys arbitrary: w xs fs)
  case Nil
  from Nil.prems(3) obtain c where "ctxs w ctx = Some c" "c_iterator c = NULL" by (auto simp: iter_def)
  with Nil.prems show ?case by (subst sweep_sockets.simps) (simp del: bind_eq_Some)
next
  case (Cons s ys)
  from Cons.prems(3) obtain c where c: "ctxs w ctx = Some c" "c_iterator c = s" by (auto simp: iter_def)
  have s: "s \<noteq> NULL" "s \<notin> set ys" using Cons.prems(2) by (auto simp: ctx_list_def)
  define xs1 where "xs1 = (if kept w s then xs @ [s] else xs)"
  define fs1 where "fs1 = (if tmo w s = Some 1 then s # fs else fs)"
  have iter_s: "iter w ctx = Some s" using Cons.prems(3) by simp
  from sweep_socket_exact [OF Cons.prems(1,2) iter_s] obtain w1 where w1: "sweep_socket env ctx s w = Some w1"
    "J w1 (xs1 @ ys) fs1" "ctx_list w1 ctx (xs1 @ ys)" "iter w1 ctx = Some (first_or ys NULL)"
    "\<And>a. a \<noteq> s \<Longrightarrow> tmo w1 a = tmo w a" "kept w s \<Longrightarrow> tmo w1 s = map_option tick (tmo w s)"
    unfolding xs1_def [symmetric] fs1_def [symmetric] by blast
  have k: "filter (kept w1) ys = filter (kept w) ys" "filter (\<lambda>a. tmo w1 a = Some 1) ys = filter (\<lambda>a. tmo w a = Some 1) ys"
    using w1(5) s(2) by (metis (mono_tags, lifting) filter_cong kept_def)+
  from Cons.IH [OF w1(2-4)] obtain w' where w': "sweep_sockets env ctx w1 = Some w'"
    "J w' (xs1 @ filter (kept w) ys) (rev (filter (\<lambda>a. tmo w a = Some 1) ys) @ fs1)"
    "ctx_list w' ctx (xs1 @ filter (kept w) ys)" "iter w' ctx = Some NULL"
    "\<And>a. a \<notin> set ys \<Longrightarrow> tmo w' a = tmo w1 a" "\<And>a. a \<in> set ys \<Longrightarrow> kept w1 a \<Longrightarrow> tmo w' a = map_option tick (tmo w1 a)"
    unfolding k by blast
  have run: "sweep_sockets env ctx w = Some w'"
    using c s w1(1) w'(1) by (subst sweep_sockets.simps) (simp del: bind_eq_Some)
  have "xs1 @ filter (kept w) ys = xs @ filter (kept w) (s # ys)"
    "rev (filter (\<lambda>a. tmo w a = Some 1) ys) @ fs1 = rev (filter (\<lambda>a. tmo w a = Some 1) (s # ys)) @ fs"
    by (simp_all add: xs1_def fs1_def)
  moreover have "tmo w' a = map_option tick (tmo w a)" if "a \<in> set (s # ys)" "kept w a" for a
    using that w1(5,6) w'(5,6) s(2) by (cases "a = s") (auto simp: kept_def)
  moreover have "tmo w' a = tmo w a" if "a \<notin> set (s # ys)" for a using that w1(5) w'(5) by simp
  ultimately show ?case using run w'(2-4) by auto
qed

end


subsection \<open>Two handlers\<close>

text \<open>A handler that does nothing, and one that closes the socket its timeout is called on.\<close>

definition env_keep :: env where
  "env_keep n arg w = (case arg of Arg_sock s \<Rightarrow> Some (s, w) | Arg_open s _ \<Rightarrow> Some (s, w)
     | Arg_data s _ \<Rightarrow> Some (s, w) | Arg_cb c \<Rightarrow> Some (c, w) | Arg_loop l \<Rightarrow> Some (l, w))"

definition env_close :: env where
  "env_close n arg w = (case arg of Arg_sock s \<Rightarrow> us_socket_close env_keep s w | _ \<Rightarrow> env_keep n arg w)"

text \<open>Timeouts and the iterator of the context apart, nothing changes from \<open>w0\<close> on.\<close>

definition sweep_frame :: "addr \<Rightarrow> world \<Rightarrow> world \<Rightarrow> bool" where
  "sweep_frame ctx w0 w \<longleftrightarrow> loops w = loops w0 \<and> polls w = polls w0 \<and> (\<forall>k. k \<noteq> ctx \<longrightarrow> ctxs w k = ctxs w0 k) \<and>
     map_option (c_iterator_update (\<lambda>_. NULL)) (ctxs w ctx) = map_option (c_iterator_update (\<lambda>_. NULL)) (ctxs w0 ctx) \<and>
     (\<forall>a. map_option (s_timeout_update (\<lambda>_. 0)) (socks w a) = map_option (s_timeout_update (\<lambda>_. 0)) (socks w0 a))"

lemma sweep_frame_refl: "sweep_frame ctx w w"
  by (simp add: sweep_frame_def)

lemma sweep_frame_set:
  "sweep_frame ctx w0 w \<Longrightarrow> sweep_frame ctx w0 (set_tmo s t w)"
  "sweep_frame ctx w0 w \<Longrightarrow> sweep_frame ctx w0 (set_iter ctx i w)"
  by (auto simp: sweep_frame_def set_tmo_def set_iter_def option.map_comp comp_def)

definition keep_inv :: "addr \<Rightarrow> world \<Rightarrow> world \<Rightarrow> addr list \<Rightarrow> addr list \<Rightarrow> bool" where
  "keep_inv ctx w0 w zs fs \<longleftrightarrow> sweep_frame ctx w0 w \<and> (\<exists>c n. ctxs w ctx = Some c \<and> c_on_socket_timeout c = Fn_user n)"

interpretation keeping: local_handler env_keep ctx True "keep_inv ctx w0" for ctx w0
proof
  show "keep_inv ctx w0 (set_tmo s t w) zs fs" if "keep_inv ctx w0 w zs fs" for w zs fs s t
    using that sweep_frame_set by (auto simp: keep_inv_def) (auto simp: set_tmo_def)
  show "keep_inv ctx w0 (set_iter ctx i w) zs fs" if "keep_inv ctx w0 w zs fs" for w zs fs i
    using that sweep_frame_set by (auto simp: keep_inv_def) (auto simp: set_iter_def)
next
  fix w xs s ys fs
  assume *: "keep_inv ctx w0 w (xs @ s # ys) fs" "ctx_list w ctx (xs @ s # ys)" "iter w ctx = Some s"
  then have "timeout_call env_keep ctx s w = Some w"
    by (auto simp: timeout_call_def keep_inv_def call_fn_def env_keep_def)
  with * show "\<exists>w'. timeout_call env_keep ctx s w = Some w' \<and>
        keep_inv ctx w0 w' (xs @ (if True then [s] else []) @ ys) (s # fs) \<and>
        ctx_list w' ctx (xs @ (if True then [s] else []) @ ys) \<and>
        iter w' ctx = Some (if True then s else first_or ys NULL) \<and>
        (\<forall>a. a \<noteq> s \<or> True \<longrightarrow> tmo w' a = tmo w a)"
    by (auto simp: keep_inv_def)
qed

definition close_inv :: "addr \<Rightarrow> addr \<Rightarrow> addr list \<Rightarrow> world \<Rightarrow> addr list \<Rightarrow> addr list \<Rightarrow> bool" where
  "close_inv loop ctx ds w zs fs \<longleftrightarrow> closed_list w loop (fs @ ds) \<and> set (fs @ ds) \<inter> set zs = {} \<and> set zs \<subseteq> dom (polls w) \<and>
     (\<exists>c m n. ctxs w ctx = Some c \<and> c_loop c = loop \<and> c_on_socket_timeout c = Fn_user m \<and> c_on_close c = Fn_user n)"

lemma closed_list_set [simp]:
  "closed_list (set_iter c i w) loop ds = closed_list w loop ds"
  "closed_list (set_tmo s t w) loop ds = closed_list w loop ds"
proof -
  have "closed_chain (set_iter c i w) ds = closed_chain w ds" by (rule closed_chain_frame) (simp add: set_iter_def)
  then show "closed_list (set_iter c i w) loop ds = closed_list w loop ds"
    by (simp add: closed_list_def) (simp add: set_iter_def)
  have "closed_chain (set_tmo s t w) ds = closed_chain w ds" by (induction ds) (auto simp: set_tmo_def)
  then show "closed_list (set_tmo s t w) loop ds = closed_list w loop ds"
    by (simp add: closed_list_def) (simp add: set_tmo_def)
qed

lemma close_inv_live:
  assumes "close_inv loop ctx ds w zs fs" "ctx_list w ctx zs" "s \<in> set zs"
  shows "live_sock w loop ctx zs s"
  using assms by (auto simp: close_inv_def live_sock_def closed_list_def)

lemma us_socket_close_detach:
  assumes "live_sock w loop ctx zs s" "close_detach s w = Some w'" "us_socket_get_context s w' = Some ctx"
    and "ctxs w' ctx = Some c"
  shows "us_socket_close env s w = call_fn env (c_on_close c) (Arg_sock s) w'"
proof -
  obtain x where "socks w s = Some x" "s_prev x \<noteq> s_context x" using live_sock_get [OF assms(1)] by metis
  with assms show ?thesis by (simp add: us_socket_close_def us_socket_is_closed_def del: bind_eq_Some)
qed

interpretation closing: local_handler env_close ctx False "close_inv loop ctx ds" for loop ctx ds
proof
  show "close_inv loop ctx ds (set_tmo s t w) zs fs" if "close_inv loop ctx ds w zs fs" for w zs fs s t
    using that by (auto simp: close_inv_def) (auto simp: set_tmo_def)
  show "close_inv loop ctx ds (set_iter ctx i w) zs fs" if "close_inv loop ctx ds w zs fs" for w zs fs i
    using that by (auto simp: close_inv_def) (auto simp: set_iter_def)
next
  fix w and xs ys fs :: "addr list" and s :: addr
  let ?zs = "xs @ s # ys"
  assume *: "close_inv loop ctx ds w ?zs fs" "ctx_list w ctx ?zs" "iter w ctx = Some s"
  have live: "live_sock w loop ctx ?zs s" using close_inv_live [OF *(1,2)] by simp
  have d: "s \<notin> set xs" "s \<notin> set ys" using *(2) by (auto simp: ctx_list_def)
  then have rm: "remove1 s ?zs = xs @ ys" "tl (dropWhile (\<lambda>a. a \<noteq> s) ?zs) = ys"
    by (simp_all add: remove1_append_notin dropWhile_neq_split)
  have cl: "closed_list w loop (fs @ ds)" "set (fs @ ds) \<inter> set ?zs = {}" using *(1) by (auto simp: close_inv_def)
  from close_detach_spec [OF live cl, unfolded rm] obtain w' c where w': "close_detach s w = Some w'"
    "ctx_list w' ctx (xs @ ys)" "closed_list w' loop (s # fs @ ds)" "us_socket_get_context s w' = Some ctx"
    "polls w' = polls w" "\<And>a. map_option s_timeout (socks w' a) = map_option s_timeout (socks w a)"
    "ctxs w ctx = Some c" "ctxs w' ctx = Some (c\<lparr>c_head := first_or (xs @ ys) NULL,
       c_iterator := (if c_iterator c = s then first_or ys NULL else c_iterator c)\<rparr>)"
    by blast
  have "c_iterator c = s" using *(3) w'(7) by (simp add: iter_def)
  from *(1) w'(7) obtain m n where c: "c_loop c = loop" "c_on_socket_timeout c = Fn_user m" "c_on_close c = Fn_user n"
    by (auto simp: close_inv_def)
  have "us_socket_close env_keep s w = Some (s, w')"
    using us_socket_close_detach [OF live w'(1,4,8)] c by (simp add: call_fn_def env_keep_def)
  then have "timeout_call env_close ctx s w = Some w'"
    using w'(7) c by (simp add: timeout_call_def call_fn_def env_close_def del: bind_eq_Some)
  moreover have "close_inv loop ctx ds w' (xs @ ys) (s # fs)"
    using *(1) w' c d by (auto simp: close_inv_def)
  ultimately show "\<exists>w'. timeout_call env_close ctx s w = Some w' \<and> close_inv loop ctx ds w' (xs @ (if False then [s] else []) @ ys) (s # fs) \<and>
        ctx_list w' ctx (xs @ (if False then [s] else []) @ ys) \<and>
        iter w' ctx = Some (if False then s else first_or ys NULL) \<and>
        (\<forall>a. a \<noteq> s \<or> False \<longrightarrow> tmo w' a = tmo w a)"
    using w' \<open>c_iterator c = s\<close> by (intro exI [of _ w']) (auto simp: iter_def tmo_def)
qed

lemma sweep_context_start:
  assumes "ctx_list w ctx zs"
  shows "sweep_context env ctx w = sweep_sockets env ctx (set_iter ctx (first_or zs NULL) w)"
    and "iter (set_iter ctx (first_or zs NULL) w) ctx = Some (first_or zs NULL)"
  using assms by (auto simp: sweep_context_def ctx_list_def upd_defs set_iter_def iter_def simp del: bind_eq_Some)

lemma sweep_context_keep:
  assumes "ctx_list w ctx zs" "keep_inv ctx w w zs []"
  shows "\<exists>w'. sweep_context env_keep ctx w = Some w' \<and> sweep_frame ctx w w' \<and>
    (\<forall>a \<in> set zs. tmo w' a = map_option tick (tmo w a)) \<and> (\<forall>a. a \<notin> set zs \<longrightarrow> tmo w' a = tmo w a)"
proof -
  let ?w = "set_iter ctx (first_or zs NULL) w"
  have "keep_inv ctx w ?w ([] @ zs) []" "ctx_list ?w ctx ([] @ zs)" using assms keeping.J_iter by auto
  from keeping.sweep_sockets_exact [OF this] sweep_context_start(1) [OF assms(1), of env_keep]
    sweep_context_start(2) [OF assms(1)]
  show ?thesis by (simp add: keeping.kept_def keep_inv_def) blast
qed

subsection \<open>The sweep over all contexts of a loop\<close>

fun ctx_chain :: "(addr \<rightharpoonup> us_socket_context) \<Rightarrow> addr list \<Rightarrow> bool" where
  "ctx_chain h [] \<longleftrightarrow> True"
| "ctx_chain h (k # ks) \<longleftrightarrow> k \<noteq> NULL \<and> ctx_chain h ks \<and>
     (\<exists>c n. h k = Some c \<and> c_next c = first_or ks NULL \<and> c_on_socket_timeout c = Fn_user n)"

lemma ctx_chain_frame: "sweep_frame k w w' \<Longrightarrow> ctx_chain (ctxs w') ks = ctx_chain (ctxs w) ks"
proof (induction ks)
  case (Cons a ks)
  have "map_option (\<lambda>c. (c_next c, c_on_socket_timeout c)) (ctxs w' a) =
      map_option (\<lambda>c. (c_next c, c_on_socket_timeout c)) (ctxs w a)"
    by (rule map_option_factor [of "c_iterator_update (\<lambda>_. NULL)"])
      (use Cons.prems in \<open>auto simp: sweep_frame_def\<close>)
  then have "(\<exists>c n. ctxs w' a = Some c \<and> c_next c = first_or ks NULL \<and> c_on_socket_timeout c = Fn_user n) \<longleftrightarrow>
    (\<exists>c n. ctxs w a = Some c \<and> c_next c = first_or ks NULL \<and> c_on_socket_timeout c = Fn_user n)"
    by (cases "ctxs w' a"; cases "ctxs w a") auto
  with Cons show ?case by simp
qed simp

lemma ctx_list_sweep_frame:
  assumes "sweep_frame k w w'" "ctx_list w ctx zs"
  shows "ctx_list w' ctx zs"
proof -
  have s: "map_option (\<lambda>x. (s_context x, s_prev x, s_next x)) (socks w' a) =
      map_option (\<lambda>x. (s_context x, s_prev x, s_next x)) (socks w a)" for a
    by (rule map_option_factor [of "s_timeout_update (\<lambda>_. 0)"])
      (use assms(1) in \<open>auto simp: sweep_frame_def\<close>)
  have "chain (socks w') ctx p xs e = chain (socks w) ctx p xs e" for p xs e
  proof (induction xs arbitrary: p)
    case (Cons a xs)
    then show ?case using s [of a] by (cases "socks w' a"; cases "socks w a") auto
  qed simp
  moreover have "map_option c_head (ctxs w' ctx) = map_option c_head (ctxs w ctx)"
    by (rule map_option_factor [of "c_iterator_update (\<lambda>_. NULL)"])
      (use assms(1) in \<open>auto simp: sweep_frame_def\<close>)
  ultimately show ?thesis using assms(2) by (auto simp: ctx_list_def)
qed

lemma sweep_contexts_keep:
  assumes "ctx_chain (ctxs w) ks" "\<And>k. k \<in> set ks \<Longrightarrow> ctx_list w k (ls k)" "distinct (concat (map ls ks))"
    and "loops w loop = Some l" "l_iterator l = first_or ks NULL"
  shows "\<exists>w'. sweep_contexts env_keep loop w = Some w' \<and> map_option l_iterator (loops w' loop) = Some NULL \<and>
    (\<forall>k \<in> set ks. ctx_list w' k (ls k)) \<and>
    (\<forall>a \<in> set (concat (map ls ks)). tmo w' a = map_option tick (tmo w a)) \<and>
    (\<forall>a. a \<notin> set (concat (map ls ks)) \<longrightarrow> tmo w' a = tmo w a) \<and>
    (\<forall>ctx zs. ctx_list w ctx zs \<longrightarrow> ctx_list w' ctx zs)"
  using assms
proof (induction ks arbitrary: w l)
  case Nil
  then show ?case by (auto simp: sweep_contexts.simps)
next
  case (Cons k ks)
  from Cons.prems(1) obtain c n where c: "k \<noteq> NULL" "ctxs w k = Some c" "c_next c = first_or ks NULL"
    "c_on_socket_timeout c = Fn_user n" by auto
  have "keep_inv k w w (ls k) []" using c by (auto simp: keep_inv_def sweep_frame_refl)
  from sweep_context_keep [OF _ this] Cons.prems(2) obtain w1 where w1: "sweep_context env_keep k w = Some w1"
    "sweep_frame k w w1" "\<And>a. a \<in> set (ls k) \<Longrightarrow> tmo w1 a = map_option tick (tmo w a)"
    "\<And>a. a \<notin> set (ls k) \<Longrightarrow> tmo w1 a = tmo w a" by auto
  have l1: "loops w1 loop = Some l" using w1(2) Cons.prems(4) by (simp add: sweep_frame_def)
  have "ctx_chain (ctxs w1) (k # ks)" using ctx_chain_frame [OF w1(2)] Cons.prems(1) by blast
  then obtain c1 where c1: "ctxs w1 k = Some c1" "c_next c1 = first_or ks NULL" by auto
  define w2 where "w2 = w1\<lparr>loops := (loops w1)(loop \<mapsto> l\<lparr>l_iterator := first_or ks NULL\<rparr>)\<rparr>"
  have lists: "ctx_list w2 ctx zs" if "ctx_list w ctx zs" for ctx zs
    using ctx_list_sweep_frame [OF w1(2) that] by (rule ctx_list_frame) (simp_all add: w2_def)
  have t2: "tmo w2 a = tmo w1 a" for a by (simp add: w2_def tmo_def)
  have "ctx_chain (ctxs w2) ks" using ctx_chain_frame [OF w1(2)] Cons.prems(1) by (simp add: w2_def)
  from Cons.IH [OF this, of "l\<lparr>l_iterator := first_or ks NULL\<rparr>"] lists Cons.prems(2,3) obtain w' where
    w': "sweep_contexts env_keep loop w2 = Some w'" "map_option l_iterator (loops w' loop) = Some NULL"
      "\<And>a. a \<in> set (concat (map ls ks)) \<Longrightarrow> tmo w' a = map_option tick (tmo w2 a)"
      "\<And>a. a \<notin> set (concat (map ls ks)) \<Longrightarrow> tmo w' a = tmo w2 a"
      "\<And>ctx zs. ctx_list w2 ctx zs \<Longrightarrow> ctx_list w' ctx zs"
    by (fastforce simp: w2_def)
  have run: "sweep_contexts env_keep loop w = Some w'"
    using Cons.prems(4,5) c(1) w1(1) l1 c1 w'(1)
    by (subst sweep_contexts.simps) (simp add: upd_defs w2_def del: bind_eq_Some)
  have dis: "set (ls k) \<inter> set (concat (map ls ks)) = {}" using Cons.prems(3) by auto
  have "tmo w' a = map_option tick (tmo w a)" if "a \<in> set (concat (map ls (k # ks)))" for a
  proof (cases "a \<in> set (ls k)")
    case True
    then have "a \<notin> set (concat (map ls ks))" using dis by blast
    with True show ?thesis using w1(3) w'(4) t2 by simp
  qed (use that w1(4) w'(3) t2 in auto)
  moreover have "tmo w' a = tmo w a" if "a \<notin> set (concat (map ls (k # ks)))" for a
    using that w1(4) w'(4) t2 by auto
  ultimately show ?case using run w'(2,5) lists Cons.prems(2) by auto
qed

text \<open>C1: The timeout sweep of a loop whose handlers leave the sockets alone ends, visits every
socket of every context exactly once and counts its timeout down by one (a disarmed one stays at 0), and
leaves all lists as they are and the iterator ready for the next sweep.\<close>

theorem us_internal_timer_sweep_keep:
  assumes "ctx_chain (ctxs w) ks" "\<And>k. k \<in> set ks \<Longrightarrow> ctx_list w k (ls k)" "distinct (concat (map ls ks))"
    and "loops w loop = Some l" "l_iterator l = NULL" "l_head l = first_or ks NULL"
  shows "\<exists>w'. us_internal_timer_sweep env_keep loop w = Some w' \<and> map_option l_iterator (loops w' loop) = Some NULL \<and>
    (\<forall>k \<in> set ks. ctx_list w' k (ls k)) \<and>
    (\<forall>a \<in> set (concat (map ls ks)). tmo w' a = map_option tick (tmo w a))"
proof -
  let ?w = "w\<lparr>loops := (loops w)(loop \<mapsto> l\<lparr>l_iterator := l_head l\<rparr>)\<rparr>"
  have t: "tmo ?w a = tmo w a" for a by (simp add: tmo_def)
  have "ctx_list ?w k (ls k)" if "k \<in> set ks" for k
    using assms(2) [OF that] by (rule ctx_list_frame) simp_all
  from sweep_contexts_keep [of ?w ks ls loop, OF _ this assms(3)] assms(1,6) t obtain w' where
    w': "sweep_contexts env_keep loop ?w = Some w'" "map_option l_iterator (loops w' loop) = Some NULL"
    "\<forall>k \<in> set ks. ctx_list w' k (ls k)"
    "\<forall>a \<in> set (concat (map ls ks)). tmo w' a = map_option tick (tmo w a)" by auto
  then have "us_internal_timer_sweep env_keep loop w = Some w'"
    using assms(4,5) by (auto simp: us_internal_timer_sweep_def upd_defs simp del: bind_eq_Some)
  with w' show ?thesis by blast
qed

text \<open>C2: A sweep over a context whose on_timeout handler closes the socket ends safely although
the list shrinks under the iterator: the sockets whose counter was 1 are exactly those closed, in list order,
all others stay in order with their counter one lower, and every close is queued on the loop.\<close>

theorem sweep_context_close:
  assumes "ctx_list w ctx zs" "close_inv loop ctx ds w zs []"
  shows "\<exists>w'. sweep_context env_close ctx w = Some w' \<and> iter w' ctx = Some NULL \<and>
    ctx_list w' ctx (filter (\<lambda>a. tmo w a \<noteq> Some 1) zs) \<and>
    closed_list w' loop (rev (filter (\<lambda>a. tmo w a = Some 1) zs) @ ds) \<and>
    (\<forall>a \<in> set zs. tmo w a \<noteq> Some 1 \<longrightarrow> tmo w' a = map_option tick (tmo w a))"
proof -
  let ?w = "set_iter ctx (first_or zs NULL) w"
  have "close_inv loop ctx ds ?w ([] @ zs) []" "ctx_list ?w ctx ([] @ zs)" using assms closing.J_iter by auto
  from closing.sweep_sockets_exact [OF this] sweep_context_start(1) [OF assms(1), of env_close]
    sweep_context_start(2) [OF assms(1)]
  have "\<exists>w'. sweep_context env_close ctx w = Some w' \<and> close_inv loop ctx ds w' (filter (closing.kept ?w) zs)
       (rev (filter (\<lambda>a. tmo ?w a = Some 1) zs) @ []) \<and> ctx_list w' ctx (filter (closing.kept ?w) zs) \<and>
       iter w' ctx = Some NULL \<and> (\<forall>a \<in> set zs. closing.kept ?w a \<longrightarrow> tmo w' a = map_option tick (tmo ?w a))"
    by simp blast
  moreover have "closing.kept ?w = (\<lambda>a. tmo w a \<noteq> Some 1)" by (simp add: fun_eq_iff closing.kept_def)
  ultimately show ?thesis by (auto simp: close_inv_def)
qed


subsection \<open>Freeing closed sockets\<close>

lemma us_poll_free_eq:
  assumes "loops w loop = Some l" "p \<in> dom (polls w)"
  shows "us_poll_free p loop w = Some (w\<lparr>loops := (loops w)(loop \<mapsto> l\<lparr>l_num_polls := l_num_polls l - 1\<rparr>),
     polls := (polls w)(p := None), socks := (socks w)(p := None), lexts := (lexts w)(p := None),
     cbs := (cbs w)(p := None)\<rparr>)"
  using assms by (auto simp: us_poll_free_def upd_defs)

lemma free_closed_from_all:
  assumes "closed_chain w xs" "distinct xs" "loops w loop = Some l"
  shows "\<exists>w' l'. free_closed_from loop (first_or xs NULL) w = Some w' \<and>
    loops w' loop = Some l' \<and> l_num_polls l' = l_num_polls l - int (length xs) \<and>
    (\<forall>a. polls w' a = (if a \<in> set xs then None else polls w a)) \<and>
    (\<forall>a. socks w' a = (if a \<in> set xs then None else socks w a)) \<and> ctxs w' = ctxs w"
  using assms
proof (induction xs arbitrary: w l)
  case Nil
  then show ?case by (simp add: free_closed_from.simps)
next
  case (Cons a as)
  then obtain x where x: "a \<noteq> NULL" "a \<in> dom (polls w)" "socks w a = Some x" "s_next x = first_or as NULL"
    "closed_chain w as" "a \<notin> set as" by auto
  define w1 where "w1 = w\<lparr>loops := (loops w)(loop \<mapsto> l\<lparr>l_num_polls := l_num_polls l - 1\<rparr>),
     polls := (polls w)(a := None), socks := (socks w)(a := None), lexts := (lexts w)(a := None),
     cbs := (cbs w)(a := None)\<rparr>"
  have "closed_chain w1 as = closed_chain w as"
    using x(6) by (intro closed_chain_frame) (auto simp: w1_def)
  then have "closed_chain w1 as" "distinct as" "loops w1 loop = Some (l\<lparr>l_num_polls := l_num_polls l - 1\<rparr>)"
    using x Cons.prems(2) by (simp_all add: w1_def)
  from Cons.IH [OF this] obtain w' l' where w': "free_closed_from loop (first_or as NULL) w1 = Some w'"
    "loops w' loop = Some l'" "l_num_polls l' = l_num_polls l - 1 - int (length as)"
    "\<And>b. polls w' b = (if b \<in> set as then None else polls w1 b)"
    "\<And>b. socks w' b = (if b \<in> set as then None else socks w1 b)" "ctxs w' = ctxs w1" by auto
  have "free_closed_from loop (first_or (a # as) NULL) w = Some w'"
    using x w'(1) us_poll_free_eq [OF Cons.prems(3) x(2)]
    by (subst free_closed_from.simps) (simp add: w1_def del: bind_eq_Some)
  then show ?case using w' x(6) by (auto simp: w1_def)
qed

text \<open>C23: At the end of a loop iteration every socket on the close list is freed exactly once, the
poll count drops by as many, the close list is empty, and no other socket or poll is touched.\<close>

theorem us_internal_free_closed_sockets_all:
  assumes "closed_list w loop xs" "loops w loop = Some l"
  shows "\<exists>w' l'. us_internal_free_closed_sockets loop w = Some w' \<and> closed_list w' loop [] \<and>
    loops w' loop = Some l' \<and> l_num_polls l' = l_num_polls l - int (length xs) \<and>
    (\<forall>a. polls w' a = (if a \<in> set xs then None else polls w a)) \<and>
    (\<forall>a. socks w' a = (if a \<in> set xs then None else socks w a)) \<and> ctxs w' = ctxs w"
proof (cases xs)
  case Nil
  with assms show ?thesis
    by (intro exI [of _ w] exI [of _ l]) (auto simp: us_internal_free_closed_sockets_def closed_list_def)
next
  case (Cons a as)
  from assms have c: "closed_chain w xs" "distinct xs" "l_closed_head l = first_or xs NULL" by (auto simp: closed_list_def)
  from free_closed_from_all [OF c(1,2) assms(2)] obtain w1 l1 where w1:
    "free_closed_from loop (first_or xs NULL) w = Some w1" "loops w1 loop = Some l1"
    "l_num_polls l1 = l_num_polls l - int (length xs)" "\<forall>a. polls w1 a = (if a \<in> set xs then None else polls w a)"
    "\<forall>a. socks w1 a = (if a \<in> set xs then None else socks w a)" "ctxs w1 = ctxs w" by blast
  have "l_closed_head l \<noteq> NULL" using c Cons by simp
  then have "us_internal_free_closed_sockets loop w = upd_loop loop (\<lambda>l. l\<lparr>l_closed_head := NULL\<rparr>) w1"
    using assms(2) c(3) w1(1) by (simp add: us_internal_free_closed_sockets_def del: bind_eq_Some)
  then show ?thesis
    using w1(2-6) by (auto simp: upd_defs closed_list_def simp del: bind_eq_Some)
qed

subsection \<open>Pointers that outlive their object\<close>

text \<open>us_socket_context_free leaves the context in the list of its loop: the next timeout sweep
reads the freed context.\<close>

theorem us_socket_context_free_dangles:
  assumes "us_socket_context_free ctx w = Some w1" "loops w loop = Some l" "l_head l = ctx" "ctx \<noteq> NULL"
    "l_iterator l = NULL"
  shows "us_internal_timer_sweep env loop w1 = None"
proof -
  have "w1 = w\<lparr>ctxs := (ctxs w)(ctx := None)\<rparr>" using assms(1) by (auto simp: us_socket_context_free_def)
  with assms(2-5) show ?thesis
    by (simp add: us_internal_timer_sweep_def upd_defs sweep_contexts.simps sweep_context_def del: bind_eq_Some)
qed

text \<open>The accept loop goes on reading the listen socket after on_open: a handler that closes
the listen socket makes the next read one of freed memory.\<close>

lemma accept_loop_listen_closed:
  assumes "accept_one env ls fd w = Some w1" "polls w1 ls = None"
  shows "accept_loop env ls fd w = None"
  using assms by (subst accept_loop.simps) (simp add: us_poll_fd_def del: bind_eq_Some)


subsection \<open>Concrete instances\<close>

lemma sweep_context_close_witness:
  "\<exists>w'. sweep_context env_close 2 sock_world = Some w' \<and> ctx_list w' 2 [8] \<and> closed_list w' 1 [7] \<and> tmo w' 8 = Some 2"
proof -
  have i: "close_inv 1 2 [] sock_world [7, 8] []"
    using sock_world_closed by (simp add: close_inv_def) (simp add: sock_world_def ctx0_def)
  have t: "tmo sock_world 7 = Some 1" "tmo sock_world 8 = Some 3" by (simp_all add: tmo_def sock_world_def)
  from sweep_context_close [OF sock_world_list i] show ?thesis by (auto simp: t tick_def)
qed

definition sweep_world :: world where
  "sweep_world = sock_world\<lparr>loops := [1 \<mapsto> loop0\<lparr>l_head := 2\<rparr>]\<rparr>"

lemma sweep_world_list: "ctx_list sweep_world 2 [7, 8]"
  using sock_world_list by (rule ctx_list_frame) (simp_all add: sweep_world_def)

lemma us_internal_timer_sweep_keep_witness:
  "\<exists>w'. us_internal_timer_sweep env_keep 1 sweep_world = Some w' \<and> tmo w' 7 = Some 0 \<and> tmo w' 8 = Some 2"
proof -
  have c: "ctx_chain (ctxs sweep_world) [2]" by (simp add: sweep_world_def sock_world_def ctx0_def)
  have l: "loops sweep_world 1 = Some (loop0\<lparr>l_head := 2\<rparr>)" by (simp add: sweep_world_def)
  have t: "tmo sweep_world 7 = Some 1" "tmo sweep_world 8 = Some 3" by (simp_all add: tmo_def sweep_world_def sock_world_def)
  from us_internal_timer_sweep_keep [OF c _ _ l, of "\<lambda>_. [7, 8]"] sweep_world_list show ?thesis
    by (auto simp: loop0_def t tick_def)
qed

definition closed_world :: world where
  "closed_world = world0\<lparr>polls := [9 \<mapsto> \<lparr>p_fd = 4, p_type = 8\<rparr>],
     socks := [9 \<mapsto> \<lparr>s_context = 2, s_prev = 2, s_next = 0, s_timeout = 0\<rparr>],
     loops := [1 \<mapsto> loop0\<lparr>l_closed_head := 9, l_num_polls := 3\<rparr>]\<rparr>"

lemma us_internal_free_closed_sockets_all_witness:
  "\<exists>w' l'. us_internal_free_closed_sockets 1 closed_world = Some w' \<and> loops w' 1 = Some l' \<and> l_num_polls l' = 2 \<and>
    socks w' 9 = None"
proof -
  have c: "closed_list closed_world 1 [9]" by (simp add: closed_list_def closed_world_def)
  have l: "loops closed_world 1 = Some (loop0\<lparr>l_closed_head := 9, l_num_polls := 3\<rparr>)" by (simp add: closed_world_def)
  from us_internal_free_closed_sockets_all [OF c l] show ?thesis by auto
qed

lemma us_socket_context_free_dangles_witness:
  "\<exists>w1. us_socket_context_free 2 sweep_world = Some w1 \<and> us_internal_timer_sweep env_keep 1 w1 = None"
proof -
  obtain w1 where w1: "us_socket_context_free 2 sweep_world = Some w1"
    by (auto simp: us_socket_context_free_def sweep_world_def sock_world_def)
  have l: "loops sweep_world 1 = Some (loop0\<lparr>l_head := 2\<rparr>)" by (simp add: sweep_world_def)
  from us_socket_context_free_dangles [OF w1 l, of env_keep] w1 show ?thesis by (auto simp: loop0_def)
qed

text \<open>A listen socket at 7, and an on_open handler that closes it.\<close>

definition listen_world :: world where
  "listen_world = world0\<lparr>polls := [7 \<mapsto> \<lparr>p_fd = 4, p_type = 10\<rparr>], lexts := [7 \<mapsto> 0],
     socks := [7 \<mapsto> \<lparr>s_context = 2, s_prev = 0, s_next = 0, s_timeout = 0\<rparr>],
     ctxs := [2 \<mapsto> ctx0\<lparr>c_head := 7, c_on_open := Fn_user 0\<rparr>]\<rparr>"

definition env_stop :: env where
  "env_stop n arg w = do { w \<leftarrow> us_listen_socket_close 7 w; Some (0, w) }"

lemma accept_loop_listen_closed_witness: "accept_loop env_stop 7 5 listen_world = None"
proof -
  obtain w1 where w1: "accept_one env_stop 7 5 listen_world = Some w1" "polls w1 7 = None"
    by (simp add: accept_one_def sock_loop_def listen_world_def world0_defs us_create_poll_def upd_defs alloc_poll_def
        us_poll_init_def us_poll_start_def us_poll_fd_def log_call_def us_socket_get_context_def
        us_internal_socket_context_link_def bsd_socket_nodelay_def call_fn_def env_stop_def us_listen_socket_close_def
        us_internal_socket_context_unlink_def us_poll_stop_def bsd_close_socket_def us_poll_free_def
        del: bind_eq_Some)
  from accept_loop_listen_closed [OF this] show ?thesis .
qed

end
