(* ===== verification/MgBase64.thy ===== *)
theory MgBase64
  imports Prelude
begin

text \<open>
  Base64 (common/cs_base64.c of 3rdLib/mongoose/mongoose.c): the streaming encoder, the
  one-shot encoder and the decoder. A byte string is a list of bytes; what a function
  writes through a destination pointer or a putc callback is its result.
\<close>

definition b64_alphabet :: bytes where
  "b64_alphabet = cstr ''ABCDEFGHIJKLMNOPQRSTUVWXYZabcdefghijklmnopqrstuvwxyz0123456789+/''"

definition NUM_UPPERCASES :: byte where "NUM_UPPERCASES = 26"
definition NUM_LETTERS :: byte where "NUM_LETTERS = NUM_UPPERCASES * 2"
definition NUM_DIGITS :: byte where "NUM_DIGITS = 10"

text \<open>The character that \<open>cs_base64_emit_code\<close> gives to putc.\<close>

definition cs_base64_emit_code :: "byte \<Rightarrow> byte" where
  "cs_base64_emit_code v =
     (if v < NUM_UPPERCASES then v + 65
      else if v < NUM_LETTERS then v - NUM_UPPERCASES + 97
      else if v < NUM_LETTERS + NUM_DIGITS then v - NUM_LETTERS + 48
      else if v - NUM_LETTERS - NUM_DIGITS = 0 then 43 else 47)"

record cs_base64_ctx =
  chunk :: bytes
  chunk_size :: nat
  b64_out :: bytes

definition cs_base64_emit_chunk :: "cs_base64_ctx \<Rightarrow> cs_base64_ctx" where
  "cs_base64_emit_chunk ctx =
     (let a = chunk ctx ! 0; b = chunk ctx ! 1; c = chunk ctx ! 2 in
      ctx\<lparr>b64_out := b64_out ctx
        @ [cs_base64_emit_code (drop_bit 2 a),
           cs_base64_emit_code (push_bit 4 (a AND 3) OR drop_bit 4 b)]
        @ (if chunk_size ctx > 1 then [cs_base64_emit_code (push_bit 2 (b AND 15) OR drop_bit 6 c)] else [])
        @ (if chunk_size ctx > 2 then [cs_base64_emit_code (c AND 63)] else [])\<rparr>)"

text \<open>The chunk of a fresh context is not initialised; \<open>junk\<close> is what it holds.\<close>

definition cs_base64_init :: "bytes \<Rightarrow> cs_base64_ctx" where
  "cs_base64_init junk = \<lparr>chunk = junk, chunk_size = 0, b64_out = []\<rparr>"

definition cs_base64_put :: "byte \<Rightarrow> cs_base64_ctx \<Rightarrow> cs_base64_ctx" where
  "cs_base64_put x ctx =
     (let ctx = ctx\<lparr>chunk := (chunk ctx)[chunk_size ctx := x], chunk_size := chunk_size ctx + 1\<rparr> in
      if chunk_size ctx = 3 then (cs_base64_emit_chunk ctx)\<lparr>chunk_size := 0\<rparr> else ctx)"

definition cs_base64_update :: "bytes \<Rightarrow> cs_base64_ctx \<Rightarrow> cs_base64_ctx" where
  "cs_base64_update str ctx = fold cs_base64_put str ctx"

definition cs_base64_finish :: "cs_base64_ctx \<Rightarrow> cs_base64_ctx" where
  "cs_base64_finish ctx =
     (if chunk_size ctx > 0 then
        let ctx = ctx\<lparr>chunk := take (chunk_size ctx) (chunk ctx) @ replicate (3 - chunk_size ctx) 0\<rparr>;
            ctx = cs_base64_emit_chunk ctx
        in ctx\<lparr>b64_out := b64_out ctx @ replicate (3 - chunk_size ctx) 61\<rparr>
      else ctx)"

text \<open>The loop of \<open>BASE64_ENCODE_BODY\<close>, on what is left of the source.\<close>

function base64_encode_body :: "bytes \<Rightarrow> bytes" where
  "base64_encode_body src =
     (if src = [] then []
      else
        let a = src ! 0;
            b = (if 1 \<ge> length src then 0 else src ! 1);
            c = (if 2 \<ge> length src then 0 else src ! 2)
        in [b64_alphabet ! unat (drop_bit 2 a), b64_alphabet ! unat (push_bit 4 (a AND 3) OR drop_bit 4 b)]
           @ (if 1 < length src then [b64_alphabet ! unat (push_bit 2 (b AND 15) OR drop_bit 6 c)] else [])
           @ (if 2 < length src then [b64_alphabet ! unat (c AND 63)] else [])
           @ base64_encode_body (drop 3 src))"
  by pat_completeness auto
termination by (relation "measure length") auto

declare base64_encode_body.simps [simp del]

definition base64_pad :: "bytes \<Rightarrow> bytes" where
  "base64_pad xs = xs @ replicate ((4 - length xs mod 4) mod 4) 61"

definition cs_base64_encode :: "bytes \<Rightarrow> bytes" where
  "cs_base64_encode src = base64_pad (base64_encode_body src) @ [0]"

definition from_b64_tab :: "nat list" where
  "from_b64_tab = [
      255, 255, 255, 255, 255, 255, 255, 255,
      255, 255, 255, 255, 255, 255, 255, 255,
      255, 255, 255, 255, 255, 255, 255, 255,
      255, 255, 255, 255, 255, 255, 255, 255,
      255, 255, 255, 255, 255, 255, 255, 255,
      255, 255, 255, 62, 255, 255, 255, 63,
      52, 53, 54, 55, 56, 57, 58, 59,
      60, 61, 255, 255, 255, 200, 255, 255,
      255, 0, 1, 2, 3, 4, 5, 6,
      7, 8, 9, 10, 11, 12, 13, 14,
      15, 16, 17, 18, 19, 20, 21, 22,
      23, 24, 25, 255, 255, 255, 255, 255,
      255, 26, 27, 28, 29, 30, 31, 32,
      33, 34, 35, 36, 37, 38, 39, 40,
      41, 42, 43, 44, 45, 46, 47, 48,
      49, 50, 51, 255, 255, 255, 255, 255]"

definition from_b64 :: "byte \<Rightarrow> byte" where
  "from_b64 ch = of_nat (from_b64_tab ! unat (ch AND 127))"

text \<open>The bytes decoded and the number of characters consumed.\<close>

fun cs_base64_decode :: "bytes \<Rightarrow> bytes \<times> nat" where
  "cs_base64_decode (s0 # s1 # s2 # s3 # s) =
     (let a = from_b64 s0; b = from_b64 s1; c = from_b64 s2; d = from_b64 s3 in
      if a \<noteq> 255 \<and> b \<noteq> 255 \<and> c \<noteq> 255 \<and> d \<noteq> 255 then
        if a = 200 \<or> b = 200 then ([], 4)
        else if c = 200 then ([push_bit 2 a OR drop_bit 4 b], 4)
        else if d = 200 then ([push_bit 2 a OR drop_bit 4 b, push_bit 4 b OR drop_bit 2 c], 4)
        else let (out, n) = cs_base64_decode s in
          ((push_bit 2 a OR drop_bit 4 b) # (push_bit 4 b OR drop_bit 2 c) # (push_bit 6 c OR d) # out, 4 + n)
      else ([], 0))"
| "cs_base64_decode _ = ([], 0)"

subsection \<open>The alphabet\<close>

lemma alphabet_emit: "n < 64 \<Longrightarrow> cs_base64_emit_code (of_nat n) = b64_alphabet ! n"
proof -
  have "\<forall>n \<in> set [0..<64]. cs_base64_emit_code (of_nat n) = b64_alphabet ! n" by code_simp
  then show "n < 64 \<Longrightarrow> cs_base64_emit_code (of_nat n) = b64_alphabet ! n" by simp
qed

lemma from_b64_alphabet: "n < 64 \<Longrightarrow> from_b64 (b64_alphabet ! n) = of_nat n"
proof -
  have "\<forall>n \<in> set [0..<64]. from_b64 (b64_alphabet ! n) = of_nat n" by code_simp
  then show "n < 64 \<Longrightarrow> from_b64 (b64_alphabet ! n) = of_nat n" by simp
qed

lemma below_64: "x AND 63 = x \<Longrightarrow> unat (x :: byte) < 64"
proof -
  assume "x AND 63 = x"
  moreover have "x AND 63 \<le> 63" by (rule word_and_le1)
  ultimately have "x \<le> 63" by metis
  then show "unat x < 64" by (simp add: word_le_nat_alt)
qed

lemma byte_bit_high [simp]: "8 \<le> n \<Longrightarrow> \<not> bit (x :: byte) n"
  by (auto dest: bit_imp_le_length)

lemma byte_eqI:
  fixes x y :: byte
  assumes "bit x 0 = bit y 0" "bit x 1 = bit y 1" "bit x 2 = bit y 2" "bit x 3 = bit y 3"
    "bit x 4 = bit y 4" "bit x 5 = bit y 5" "bit x 6 = bit y 6" "bit x 7 = bit y 7"
  shows "x = y"
proof (rule bit_word_eqI)
  fix n assume "n < LENGTH(8)"
  then show "bit x n = bit y n" using assms by (auto simp: less_Suc_eq numeral_eq_Suc)
qed

text \<open>The four sextets of three bytes.\<close>

definition sx1 :: "byte \<Rightarrow> byte" where "sx1 a = drop_bit 2 a"
definition sx2 :: "byte \<Rightarrow> byte \<Rightarrow> byte" where "sx2 a b = push_bit 4 (a AND 3) OR drop_bit 4 b"
definition sx3 :: "byte \<Rightarrow> byte \<Rightarrow> byte" where "sx3 b c = push_bit 2 (b AND 15) OR drop_bit 6 c"
definition sx4 :: "byte \<Rightarrow> byte" where "sx4 c = c AND 63"

lemmas sx_defs = sx1_def sx2_def sx3_def sx4_def

lemma sextets: "unat (sx1 a) < 64" "unat (sx2 a b) < 64" "unat (sx3 b c) < 64" "unat (sx4 c) < 64"
  unfolding sx_defs by (rule below_64, rule byte_eqI; simp add: bit_simps)+

lemma regroup [simp]:
  "push_bit 2 (sx1 a) OR drop_bit 4 (sx2 a b) = a"
  "push_bit 4 (sx2 a b) OR drop_bit 2 (sx3 b c) = b"
  "push_bit 6 (sx3 b c) OR sx4 c = c"
  unfolding sx_defs by (rule byte_eqI; simp add: bit_simps)+

subsection \<open>Round trip\<close>

lemma alphabet_byte:
  fixes x :: byte
  assumes "unat x < 64"
  shows "from_b64 (b64_alphabet ! unat x) = x" "cs_base64_emit_code x = b64_alphabet ! unat x" "x \<noteq> 255" "x \<noteq> 200"
  using assms from_b64_alphabet [of "unat x"] alphabet_emit [of "unat x"] by auto

lemmas sx_bytes [simp] = alphabet_byte [OF sextets(1)] alphabet_byte [OF sextets(2)] alphabet_byte [OF sextets(3)]
  alphabet_byte [OF sextets(4)]

lemma from_b64_eq [simp]: "from_b64 61 = 200"
  by code_simp

lemma encode_simps [simp]:
  "base64_encode_body [] = []"
  "base64_encode_body [a] = [b64_alphabet ! unat (sx1 a), b64_alphabet ! unat (sx2 a 0)]"
  "base64_encode_body [a, b] = [b64_alphabet ! unat (sx1 a), b64_alphabet ! unat (sx2 a b), b64_alphabet ! unat (sx3 b 0)]"
  "base64_encode_body (a # b # c # s) = b64_alphabet ! unat (sx1 a) # b64_alphabet ! unat (sx2 a b) #
     b64_alphabet ! unat (sx3 b c) # b64_alphabet ! unat (sx4 c) # base64_encode_body s"
  unfolding sx_defs
  by (subst base64_encode_body.simps, simp add: base64_encode_body.simps [of "[]"] Let_def)+

lemma triple_induct [case_names Nil one two three]:
  assumes "P []" "\<And>a. P [a]" "\<And>a b. P [a, b]" "\<And>a b c s. P s \<Longrightarrow> P (a # b # c # s)"
  shows "P (xs :: 'a list)"
proof (induction xs rule: length_induct)
  case (1 xs)
  then show ?case using assms by (cases xs rule: remdups_adj.cases; cases "tl (tl xs)") auto
qed

lemma base64_pad_Cons4 [simp]: "base64_pad (a # b # c # d # xs) = a # b # c # d # base64_pad xs"
  by (simp add: base64_pad_def)

lemma base64_pad_short [simp]: "base64_pad [] = []" "base64_pad [a, b] = [a, b, 61, 61]" "base64_pad [a, b, c] = [a, b, c, 61]"
proof -
  have n: "length [a, b] = 2" "length [a, b, c] = 3" "replicate 2 (61 :: byte) = [61, 61]" "replicate 1 (61 :: byte) = [61]"
    by (simp_all add: numeral_2_eq_2)
  have m: "(4 - 2 mod 4) mod (4 :: nat) = 2" "(4 - 3 mod 4) mod (4 :: nat) = 1" by simp_all
  show "base64_pad [] = []" by (simp add: base64_pad_def)
  show "base64_pad [a, b] = [a, b, 61, 61]" "base64_pad [a, b, c] = [a, b, c, 61]"
    unfolding base64_pad_def n m by simp_all
qed

lemma decode_encode:
  "cs_base64_decode (base64_pad (base64_encode_body src)) = (src, length (base64_pad (base64_encode_body src)))"
  by (induction src rule: triple_induct) (simp_all add: Let_def)

subsection \<open>Streaming\<close>

lemma encode_append: "3 dvd length us \<Longrightarrow> base64_encode_body (us @ vs) = base64_encode_body us @ base64_encode_body vs"
proof (induction us rule: triple_induct)
  case (three a b c s)
  then have "3 dvd length s" by (simp only: list.size) presburger
  with three show ?case by simp
qed (simp_all add: dvd_eq_mod_eq_0)

text \<open>The state after the bytes \<open>t\<close>: whole groups are encoded, the rest waits in the chunk.\<close>

definition stream_inv :: "bytes \<Rightarrow> cs_base64_ctx \<Rightarrow> bool" where
  "stream_inv t ctx \<longleftrightarrow> length (chunk ctx) = 3 \<and> (\<exists>us ps. t = us @ ps \<and> 3 dvd length us \<and> length ps < 3 \<and>
     chunk_size ctx = length ps \<and> take (length ps) (chunk ctx) = ps \<and> b64_out ctx = base64_encode_body us)"

lemma stream_invI:
  assumes "length (chunk ctx) = 3" "t = us @ ps" "3 dvd length us" "length ps < 3" "chunk_size ctx = length ps"
    "take (length ps) (chunk ctx) = ps" "b64_out ctx = base64_encode_body us"
  shows "stream_inv t ctx"
  using assms unfolding stream_inv_def by blast

lemma emit_chunk_eq:
  assumes "chunk ctx = [a, b, c]"
  shows "cs_base64_emit_chunk ctx = ctx\<lparr>b64_out := b64_out ctx @ [b64_alphabet ! unat (sx1 a), b64_alphabet ! unat (sx2 a b)]
     @ (if chunk_size ctx > 1 then [b64_alphabet ! unat (sx3 b c)] else [])
     @ (if chunk_size ctx > 2 then [b64_alphabet ! unat (sx4 c)] else [])\<rparr>"
proof -
  have n: "chunk ctx ! 0 = a" "chunk ctx ! 1 = b" "chunk ctx ! 2 = c" using assms by simp_all
  show ?thesis
    by (simp only: cs_base64_emit_chunk_def Let_def n sx_defs [symmetric] sx_bytes)
qed

lemma put_inv:
  assumes "stream_inv t ctx"
  shows "stream_inv (t @ [x]) (cs_base64_put x ctx)"
proof -
  from assms obtain us ps where s: "length (chunk ctx) = 3" "t = us @ ps" "3 dvd length us" "length ps < 3"
    "chunk_size ctx = length ps" "take (length ps) (chunk ctx) = ps" "b64_out ctx = base64_encode_body us"
    by (auto simp: stream_inv_def)
  from s(1) obtain a b c where abc: "chunk ctx = [a, b, c]" by (auto simp: length_Suc_conv numeral_eq_Suc)
  consider "ps = []" | "ps = [a]" | "ps = [a, b]" using s(4,6) abc
    by (cases ps rule: remdups_adj.cases) (auto simp: numeral_eq_Suc)
  then show ?thesis
  proof cases
    case 1
    with s abc have "stream_inv (us @ [x]) (cs_base64_put x ctx)"
      by (intro stream_invI [of _ _ us "[x]"]) (simp_all add: cs_base64_put_def)
    with 1 s show ?thesis by simp
  next
    case 2
    with s abc have "stream_inv (us @ [a, x]) (cs_base64_put x ctx)"
      by (intro stream_invI [of _ _ us "[a, x]"]) (simp_all add: cs_base64_put_def)
    with 2 s show ?thesis by simp
  next
    case 3
    have d: "3 dvd length (us @ [a, b, x])" using s(3) by simp presburger
    have "stream_inv (us @ [a, b, x]) (cs_base64_put x ctx)"
      using 3 s abc encode_append [OF s(3), of "[a, b, x]"]
      by (intro stream_invI [of _ _ "us @ [a, b, x]" "[]"] d)
        (simp_all add: cs_base64_put_def emit_chunk_eq [of _ a b x] numeral_2_eq_2 numeral_3_eq_3)
    with 3 s show ?thesis by simp
  qed
qed

lemma update_inv: "stream_inv t ctx \<Longrightarrow> stream_inv (t @ xs) (cs_base64_update xs ctx)"
  unfolding cs_base64_update_def
  by (induction xs arbitrary: t ctx) (auto dest: put_inv, metis append_Cons append_Nil append_assoc put_inv)


lemma finish_inv:
  assumes "stream_inv t ctx"
  shows "b64_out (cs_base64_finish ctx) = base64_pad (base64_encode_body t)"
proof -
  from assms obtain us ps where s: "length (chunk ctx) = 3" "t = us @ ps" "3 dvd length us" "length ps < 3"
    "chunk_size ctx = length ps" "take (length ps) (chunk ctx) = ps" "b64_out ctx = base64_encode_body us"
    by (auto simp: stream_inv_def)
  have pad: "base64_pad (base64_encode_body us @ xs) = base64_encode_body us @ base64_pad xs" for xs
    using s(3)
  proof (induction us rule: triple_induct)
    case (three a b c s)
    then have "3 dvd length s" by (simp only: list.size) presburger
    with three show ?case by simp
  qed (simp_all add: dvd_eq_mod_eq_0)
  have r: "replicate 1 (0 :: byte) = [0]" "replicate 2 (x :: byte) = [x, x]" for x by (simp_all add: numeral_2_eq_2)
  from s(1) obtain a b c where abc: "chunk ctx = [a, b, c]" by (auto simp: length_Suc_conv numeral_eq_Suc)
  consider "ps = []" | "ps = [a]" | "ps = [a, b]" using s(4,6) abc
    by (cases ps rule: remdups_adj.cases) (auto simp: numeral_eq_Suc)
  then show ?thesis
  proof cases
    case 1
    with s pad [of "[]"] show ?thesis by (simp add: cs_base64_finish_def)
  next
    case 2
    then have "chunk_size ctx = 1" "t = us @ [a]" using s by simp_all
    with s(7) abc encode_append [OF s(3), of "[a]"] show ?thesis
      by (simp add: cs_base64_finish_def emit_chunk_eq [of _ a 0 0] pad r)
  next
    case 3
    then have "chunk_size ctx = 2" "t = us @ [a, b]" using s by simp_all
    with s(7) abc encode_append [OF s(3), of "[a, b]"] show ?thesis
      by (simp add: cs_base64_finish_def emit_chunk_eq [of _ a b 0] pad r)
  qed
qed

text \<open>C38: Decoding what the encoder wrote gives the source back and consumes all of the text but the
terminating zero.\<close>

theorem base64_roundtrip:
  "cs_base64_decode (butlast (cs_base64_encode src)) = (src, length (cs_base64_encode src) - 1)"
  by (simp add: cs_base64_encode_def decode_encode)

text \<open>However the input is cut into updates, the streaming encoder emits what the one-shot encoder
writes (which also ends in a zero).\<close>

theorem base64_streaming:
  assumes "length junk = 3"
  shows "b64_out (cs_base64_finish (fold cs_base64_update parts (cs_base64_init junk))) @ [0] =
    cs_base64_encode (concat parts)"
proof -
  have "stream_inv (t @ concat parts) (fold cs_base64_update parts ctx)" if "stream_inv t ctx" for t ctx
    using that
  proof (induction parts arbitrary: t ctx)
    case (Cons p ps)
    from Cons.IH [OF update_inv [OF Cons.prems, of p]] show ?case by simp
  qed simp
  moreover have "stream_inv [] (cs_base64_init junk)" using assms by (auto simp: stream_inv_def cs_base64_init_def)
  ultimately have "stream_inv (concat parts) (fold cs_base64_update parts (cs_base64_init junk))" by fastforce
  from finish_inv [OF this] show ?thesis by (simp add: cs_base64_encode_def)
qed

lemma base64_streaming_witness:
  "b64_out (cs_base64_finish (fold cs_base64_update [[77], [], [97, 110, 33]] (cs_base64_init [0, 0, 0]))) @ [0] =
    cs_base64_encode [77, 97, 110, 33]"
  using base64_streaming [of "[0, 0, 0]" "[[77], [], [97, 110, 33]]"] by simp

end
