(* ===== verification/MgMbuf.thy ===== *)
theory MgMbuf
  imports Prelude
begin

text \<open>
  The growable buffer (common/mbuf.c of 3rdLib/mongoose/mongoose.c). The allocated block is the
  byte list \<open>mb_buf\<close> (its length is the size field), \<open>mb_len\<close> bytes of it are in use, and
  \<open>mb_addr\<close> is the address of the block (0 for NULL), which the overflow test reads. realloc is a
  parameter: it returns the address of a block of the asked size, or 0; fresh bytes of a block
  hold \<open>al_junk\<close>. A failed assert is \<open>None\<close>. The abstract value of a buffer is the list of
  the bytes in use, and the operations refine list operations.
\<close>

record allocator =
  al_realloc :: "nat \<Rightarrow> nat \<Rightarrow> nat"
  al_junk :: byte

record mbuf =
  mb_buf :: bytes
  mb_addr :: nat
  mb_len :: nat

abbreviation mb_size :: "mbuf \<Rightarrow> nat" where "mb_size m \<equiv> length (mb_buf m)"

definition MBUF_SIZE_MAX_HEADROOM :: nat where "MBUF_SIZE_MAX_HEADROOM = 8192"

definition realloc_block :: "allocator \<Rightarrow> bytes \<Rightarrow> nat \<Rightarrow> bytes" where
  "realloc_block al b n = take n b @ replicate (n - length b) (al_junk al)"

definition mbuf_resize :: "allocator \<Rightarrow> mbuf \<Rightarrow> nat \<Rightarrow> mbuf" where
  "mbuf_resize al a new_size =
     (if new_size > mb_size a \<or> (new_size < mb_size a \<and> new_size \<ge> mb_len a) then
        let p = al_realloc al (mb_addr a) new_size in
        if p = 0 \<and> new_size \<noteq> 0 then a
        else a\<lparr>mb_buf := realloc_block al (mb_buf a) new_size, mb_addr := p\<rparr>
      else a)"

definition mbuf_init :: "allocator \<Rightarrow> nat \<Rightarrow> mbuf" where
  "mbuf_init al initial_size = mbuf_resize al \<lparr>mb_buf = [], mb_addr = 0, mb_len = 0\<rparr> initial_size"

definition mbuf_free :: "allocator \<Rightarrow> mbuf \<Rightarrow> mbuf" where
  "mbuf_free al m = (if mb_addr m \<noteq> 0 then mbuf_init al 0 else m)"

definition mbuf_trim :: "allocator \<Rightarrow> mbuf \<Rightarrow> mbuf" where
  "mbuf_trim al m = mbuf_resize al m (mb_len m)"

text \<open>memmove and memcpy within a block.\<close>

definition blit :: "bytes \<Rightarrow> nat \<Rightarrow> bytes \<Rightarrow> bytes" where
  "blit b off d = take off b @ d @ drop (off + length d) b"

text \<open>
  The bytes behind \<open>off\<close> move up by the length; the data are copied unless the pointer is NULL
  (then \<open>data\<close> is \<open>None\<close> and the gap keeps what was there).
\<close>

definition open_gap :: "bytes \<Rightarrow> nat \<Rightarrow> nat \<Rightarrow> nat \<Rightarrow> bytes option \<Rightarrow> bytes" where
  "open_gap b used off n data =
     (let b = blit b (off + n) (take (used - off) (drop off b))
      in case data of None \<Rightarrow> b | Some d \<Rightarrow> blit b off d)"

text \<open>
  Sizes are size_t, whose sums wrap. The first size asked for is computed in double: the size is rounded to 53 bits, as is its
  product with 1.5 (here of twice the value), which is then truncated; \<open>None\<close> when the result is no size_t.
\<close>

definition wrap64 :: "nat \<Rightarrow> nat" where "wrap64 n = n mod 2 ^ 64"

function extra_bits :: "nat \<Rightarrow> nat" where
  "extra_bits m = (if m < 2 ^ 53 then 0 else Suc (extra_bits (m div 2)))"
  by pat_completeness auto
termination by (relation "measure id") auto

declare extra_bits.simps [simp del]

definition double_round :: "nat \<Rightarrow> nat" where
  "double_round m =
     (let e = extra_bits m; q = m div 2 ^ e; r = m mod 2 ^ e
      in (if 2 * r > 2 ^ e \<or> (2 * r = 2 ^ e \<and> odd q) then q + 1 else q) * 2 ^ e)"

definition grown_size :: "nat \<Rightarrow> nat option" where
  "grown_size min_size =
     (let new_size = double_round (3 * double_round min_size) div 2 in
      if new_size \<ge> 2 ^ 64 then None
      else Some (if wrap64 (new_size + 2 ^ 64 - min_size) > MBUF_SIZE_MAX_HEADROOM then wrap64 (min_size + MBUF_SIZE_MAX_HEADROOM)
        else new_size))"

text \<open>A write behind the block, which a length that wraps leads to, is \<open>None\<close>.\<close>

definition mbuf_insert :: "allocator \<Rightarrow> mbuf \<Rightarrow> nat \<Rightarrow> bytes option \<Rightarrow> nat \<Rightarrow> (nat \<times> mbuf) option" where
  "mbuf_insert al a off data n = do {
     _ \<leftarrow> ensure (mb_len a \<le> mb_size a \<and> off \<le> mb_len a);
     (if 2 ^ 64 - 1 - mb_addr a < n then Some (0, a)
      else if wrap64 (mb_len a + n) \<le> mb_size a then do {
        _ \<leftarrow> ensure (mb_len a + n \<le> mb_size a);
        Some (n, a\<lparr>mb_buf := open_gap (mb_buf a) (mb_len a) off n data, mb_len := mb_len a + n\<rparr>) }
      else do {
        let min_size = wrap64 (mb_len a + n);
        new_size \<leftarrow> grown_size min_size;
        let p = al_realloc al (mb_addr a) new_size;
        let (p, new_size) = (if p = 0 \<and> new_size \<noteq> min_size
              then (al_realloc al (mb_addr a) min_size, min_size) else (p, new_size));
        (if p \<noteq> 0 then do {
           _ \<leftarrow> ensure (mb_len a + n \<le> new_size);
           Some (n, a\<lparr>mb_buf := open_gap (realloc_block al (mb_buf a) new_size) (mb_len a) off n data,
                 mb_addr := p, mb_len := mb_len a + n\<rparr>) }
         else Some (0, a)) }) }"

definition mbuf_append :: "allocator \<Rightarrow> mbuf \<Rightarrow> bytes \<Rightarrow> (nat \<times> mbuf) option" where
  "mbuf_append al a data = mbuf_insert al a (mb_len a) (Some data) (length data)"

definition mbuf_remove :: "mbuf \<Rightarrow> nat \<Rightarrow> mbuf" where
  "mbuf_remove mb n =
     (if n > 0 \<and> n \<le> mb_len mb then
        mb\<lparr>mb_buf := blit (mb_buf mb) 0 (take (mb_len mb - n) (drop n (mb_buf mb))), mb_len := mb_len mb - n\<rparr>
      else mb)"

subsection \<open>Refinement of lists\<close>

definition mbuf_ok :: "mbuf \<Rightarrow> bool" where
  "mbuf_ok m \<longleftrightarrow> mb_len m \<le> mb_size m"

definition mbuf_abs :: "mbuf \<Rightarrow> bytes" where
  "mbuf_abs m = take (mb_len m) (mb_buf m)"

lemma length_blit [simp]: "off + length d \<le> length b \<Longrightarrow> length (blit b off d) = length b"
  by (simp add: blit_def)

lemma length_realloc_block [simp]: "length (realloc_block al b n) = n"
  by (simp add: realloc_block_def)

lemma realloc_block_keeps: "k \<le> length b \<Longrightarrow> k \<le> n \<Longrightarrow> take k (realloc_block al b n) = take k b"
  by (simp add: realloc_block_def min_def)

lemma double_round_exact: "m < 2 ^ 53 \<Longrightarrow> double_round m = m"
  by (simp add: double_round_def extra_bits.simps)

text \<open>The first size asked for, below 2 PiB: half as much again, but at most 8192 bytes more.\<close>

definition roomy :: "nat \<Rightarrow> nat" where
  "roomy need = need + min (need div 2) 8192"

lemma grown_size_small:
  assumes "m < 2 ^ 51"
  shows "grown_size m = Some (roomy m)"
proof -
  have d: "double_round m = m" "double_round (3 * m) = 3 * m" using assms by (auto intro!: double_round_exact)
  have h: "3 * m div 2 = m + m div 2" by simp
  have "wrap64 (3 * m div 2 + 2 ^ 64 - m) = m div 2" "wrap64 (m + 8192) = m + 8192" "3 * m div 2 < 2 ^ 64"
    using assms unfolding h by (simp_all add: wrap64_def)
  then show ?thesis
    using h by (auto simp: grown_size_def d Let_def MBUF_SIZE_MAX_HEADROOM_def roomy_def min_def)
qed

lemma open_gap_abs:
  assumes "used + length d \<le> length b" "off \<le> used"
  shows "take (used + length d) (open_gap b used off (length d) (Some d)) =
      take off b @ d @ take (used - off) (drop off b)"
    and "length (open_gap b used off (length d) (Some d)) = length b"
proof -
  have "d = [] \<or> 0 < length d" by auto
  then show "take (used + length d) (open_gap b used off (length d) (Some d)) =
      take off b @ d @ take (used - off) (drop off b)"
    and "length (open_gap b used off (length d) (Some d)) = length b"
    using assms by (elim disjE; auto simp: open_gap_def blit_def min_def take_drop)+
qed

lemma mbuf_insert_room:
  assumes "mbuf_ok m" "off \<le> mb_len m" "length d + mb_len m \<le> length b" "take (mb_len m) b = mbuf_abs m"
  shows "take (mb_len m + length d) (open_gap b (mb_len m) off (length d) (Some d)) =
    take off (mbuf_abs m) @ d @ drop off (mbuf_abs m)"
proof -
  have "take off b = take off (mbuf_abs m)" using assms(2,4) by (metis min.absorb1 take_take)
  moreover have "take (mb_len m - off) (drop off b) = drop off (mbuf_abs m)"
    using assms(4) by (simp add: drop_take [symmetric])
  ultimately show ?thesis using open_gap_abs(1) [of "mb_len m" d b off] assms(2,3) by simp
qed

text \<open>When an insertion succeeds, and the size of the block then.\<close>

definition insert_fits :: "allocator \<Rightarrow> mbuf \<Rightarrow> nat \<Rightarrow> bool" where
  "insert_fits al m n \<longleftrightarrow>
     (let need = mb_len m + n in
      n \<le> 2 ^ 64 - 1 - mb_addr m \<and>
      (need \<le> mb_size m \<or> al_realloc al (mb_addr m) (roomy need) \<noteq> 0 \<or> al_realloc al (mb_addr m) need \<noteq> 0))"

definition size_after :: "allocator \<Rightarrow> mbuf \<Rightarrow> nat \<Rightarrow> nat" where
  "size_after al m n =
     (let need = mb_len m + n in
      if need \<le> mb_size m then mb_size m
      else if al_realloc al (mb_addr m) (roomy need) \<noteq> 0 then roomy need else need)"

lemma mbuf_insert_grown:
  assumes "mbuf_ok m" "off \<le> mb_len m" "mb_len m + length d < 2 ^ 51" "length d \<le> 2 ^ 64 - 1 - mb_addr m" "\<not> mb_len m + length d \<le> mb_size m"
  shows "mbuf_insert al m off (Some d) (length d) = Some (
    let need = mb_len m + length d; p = al_realloc al (mb_addr m) (roomy need);
        (p, new_size) = (if p = 0 \<and> roomy need \<noteq> need then (al_realloc al (mb_addr m) need, need) else (p, roomy need))
    in if p \<noteq> 0 then
         (length d, m\<lparr>mb_buf := open_gap (realloc_block al (mb_buf m) new_size) (mb_len m) off (length d) (Some d),
           mb_addr := p, mb_len := mb_len m + length d\<rparr>)
       else (0, m))"
proof -
  have "wrap64 (mb_len m + length d) = mb_len m + length d" using assms(3) by (simp add: wrap64_def)
  moreover have "\<not> 2 ^ 64 - 1 - mb_addr m < length d" using assms(4) by simp
  moreover have "mb_len m + length d \<le> roomy (mb_len m + length d)" by (simp add: roomy_def)
  ultimately show ?thesis
    using assms(1,2,5) grown_size_small [OF assms(3)] by (simp add: mbuf_insert_def mbuf_ok_def ensure_def Let_def)
qed

lemma mbuf_insert_abs:
  assumes "mbuf_ok m" "off \<le> mb_len m" "mb_len m + length d < 2 ^ 51"
  shows "\<exists>m'. mbuf_insert al m off (Some d) (length d) = Some (if insert_fits al m (length d) then length d else 0, m') \<and> mbuf_ok m' \<and>
    (if insert_fits al m (length d)
     then mbuf_abs m' = take off (mbuf_abs m) @ d @ drop off (mbuf_abs m) \<and> mb_size m' = size_after al m (length d)
     else m' = m)"
proof -
  let ?n = "length d"
  have w: "wrap64 (mb_len m + ?n) = mb_len m + ?n" using assms(3) by (simp add: wrap64_def)
  have filled: "mbuf_ok m' \<and> mbuf_abs m' = take off (mbuf_abs m) @ d @ drop off (mbuf_abs m) \<and> mb_size m' = length b"
    if "m' = m\<lparr>mb_buf := open_gap b (mb_len m) off ?n (Some d), mb_addr := p, mb_len := mb_len m + ?n\<rparr>"
      "mb_len m + ?n \<le> length b" "take (mb_len m) b = mbuf_abs m" for m' b p
    using that mbuf_insert_room [OF assms(1,2) _ that(3)] open_gap_abs(2) [of "mb_len m" d b off] assms(2)
    by (simp add: mbuf_ok_def mbuf_abs_def)
  have kept: "take (mb_len m) (realloc_block al (mb_buf m) sz) = mbuf_abs m" if "mb_len m + ?n \<le> sz" for sz
    using assms(1) that by (simp add: realloc_block_keeps mbuf_ok_def mbuf_abs_def)
  consider "\<not> ?n \<le> 2 ^ 64 - 1 - mb_addr m" | "?n \<le> 2 ^ 64 - 1 - mb_addr m" "mb_len m + ?n \<le> mb_size m"
    | "?n \<le> 2 ^ 64 - 1 - mb_addr m" "\<not> mb_len m + ?n \<le> mb_size m" by blast
  then show ?thesis
  proof cases
    case 1
    then show ?thesis using assms by (auto simp: mbuf_insert_def mbuf_ok_def insert_fits_def)
  next
    case 2
    let ?m = "m\<lparr>mb_buf := open_gap (mb_buf m) (mb_len m) off ?n (Some d), mb_addr := mb_addr m, mb_len := mb_len m + ?n\<rparr>"
    have "mbuf_insert al m off (Some d) ?n = Some (?n, ?m)"
      using 2 assms(1,2) w by (simp add: mbuf_insert_def mbuf_ok_def ensure_def)
    moreover have "insert_fits al m ?n" "size_after al m ?n = mb_size m" using 2 by (simp_all add: insert_fits_def size_after_def)
    ultimately show ?thesis using filled [of ?m "mb_addr m" "mb_buf m"] 2 by (simp add: mbuf_abs_def)
  next
    case 3
    let ?k = "mb_len m + ?n" and ?r = "al_realloc al (mb_addr m)"
    let ?m = "\<lambda>p sz. m\<lparr>mb_buf := open_gap (realloc_block al (mb_buf m) sz) (mb_len m) off ?n (Some d), mb_addr := p, mb_len := ?k\<rparr>"
    have ge: "?k \<le> roomy ?k" by (simp add: roomy_def)
    note ins = mbuf_insert_grown [OF assms 3, of al]
    show ?thesis
    proof (cases "?r (roomy ?k) = 0")
      case False
      then have "mbuf_insert al m off (Some d) ?n = Some (?n, ?m (?r (roomy ?k)) (roomy ?k))" unfolding ins by (simp add: Let_def)
      moreover have "insert_fits al m ?n" "size_after al m ?n = roomy ?k"
        using 3 False by (simp_all add: insert_fits_def size_after_def)
      ultimately show ?thesis using filled [OF refl _ kept [OF ge], of "?r (roomy ?k)"] ge by simp
    next
      case True
      then have fits: "insert_fits al m ?n \<longleftrightarrow> ?r ?k \<noteq> 0" "size_after al m ?n = ?k"
        using 3 by (simp_all add: insert_fits_def size_after_def)
      have "mbuf_insert al m off (Some d) ?n = Some (if ?r ?k \<noteq> 0 then (?n, ?m (?r ?k) ?k) else (0, m))"
        unfolding ins using True by (auto simp: Let_def)
      then show ?thesis using fits filled [OF refl _ kept [OF order_refl], of "?r ?k"] assms(1) by (cases "?r ?k = 0") simp_all
    qed
  qed
qed

lemma mbuf_remove_abs:
  assumes "mbuf_ok m" "n \<le> mb_len m"
  shows "mbuf_abs (mbuf_remove m n) = drop n (mbuf_abs m)" "mbuf_ok (mbuf_remove m n)"
  using assms by (auto simp: mbuf_remove_def mbuf_abs_def mbuf_ok_def blit_def drop_take)

lemma mbuf_resize_abs:
  assumes "mbuf_ok m"
  shows "mbuf_abs (mbuf_resize al m n) = mbuf_abs m" "mbuf_ok (mbuf_resize al m n)"
  using assms by (auto simp: mbuf_resize_def mbuf_abs_def mbuf_ok_def realloc_block_keeps Let_def)

lemma mbuf_init_abs: "mbuf_abs (mbuf_init al n) = []" "mbuf_ok (mbuf_init al n)"
  using mbuf_resize_abs [of "\<lparr>mb_buf = [], mb_addr = 0, mb_len = 0\<rparr>" al n]
  by (simp_all add: mbuf_init_def mbuf_ok_def mbuf_abs_def)

lemma mbuf_free_abs: "mb_addr m = 0 \<Longrightarrow> mbuf_free al m = m" "mb_addr m \<noteq> 0 \<Longrightarrow> mbuf_abs (mbuf_free al m) = []"
  using mbuf_init_abs by (simp_all add: mbuf_free_def)

text \<open>C39: Inserting bytes into a buffer (of less than 2 PiB in all) succeeds when the address of their end does not overflow and
they fit into the block, or realloc grants half as much again (at most 8192 bytes more), or just what is needed, which is asked for
when it does not. Then it refines list insertion, reports the number of bytes, and the block has the size it had or the granted one.
Otherwise it reports 0 and leaves the buffer as it is. It never reads or writes outside the block.\<close>

theorem mbuf_insert_refines:
  assumes "mbuf_ok m" "off \<le> mb_len m" "mb_len m + length d < 2 ^ 51"
  shows "\<exists>m'. mbuf_insert al m off (Some d) (length d) = Some (if insert_fits al m (length d) then length d else 0, m') \<and> mbuf_ok m' \<and>
    (if insert_fits al m (length d)
     then mbuf_abs m' = take off (mbuf_abs m) @ d @ drop off (mbuf_abs m) \<and> mb_size m' = size_after al m (length d)
     else m' = m)"
  by (rule mbuf_insert_abs [OF assms])

text \<open>An allocator that always succeeds, in memory at 4096.\<close>

definition al0 :: allocator where
  "al0 = \<lparr>al_realloc = \<lambda>_ _. 4096, al_junk = 0\<rparr>"

lemma mbuf_insert_refines_witness:
  "\<exists>m'. mbuf_insert al0 \<lparr>mb_buf = [1, 2, 3, 9], mb_addr = 4096, mb_len = 3\<rparr> 1 (Some [7, 8]) 2 = Some (2, m') \<and>
    mbuf_abs m' = [1, 7, 8, 2, 3] \<and> mb_size m' = 7"
proof -
  let ?m = "\<lparr>mb_buf = [1, 2, 3, 9], mb_addr = 4096, mb_len = 3\<rparr> :: mbuf"
  have ok: "mbuf_ok ?m" "1 \<le> mb_len ?m" "mb_len ?m + length [7 :: byte, 8] < 2 ^ 51" by (simp_all add: mbuf_ok_def)
  have "insert_fits al0 ?m (length [7 :: byte, 8])" "size_after al0 ?m (length [7 :: byte, 8]) = 7"
    by (simp_all add: insert_fits_def size_after_def al0_def roomy_def)
  with mbuf_insert_refines [OF ok, of al0] show ?thesis by (auto simp: mbuf_abs_def numeral_2_eq_2)
qed

end
