(* ===== verification/MgStr.thy ===== *)
theory MgStr
  imports Prelude
begin

text \<open>
  String helpers (common/mg_str.c and common/str_util.c of 3rdLib/mongoose/mongoose.c). A
  \<open>struct mg_str\<close> is the list of its bytes; a pointer into a string that a function
  returns is the index. \<open>char\<close> is signed, so byte comparisons of mg_strcmp read \<open>sint\<close>.
  A C string is the list of its bytes without the terminator, which reads as 0.
\<close>

subsection \<open>Comparisons\<close>

text \<open>strncmp of the C library: unsigned bytes, up to \<open>n\<close>, a zero ends both.\<close>

fun strncmp :: "bytes \<Rightarrow> bytes \<Rightarrow> nat \<Rightarrow> int" where
  "strncmp (a # as) (b # bs) (Suc n) =
     (if a \<noteq> b then uint a - uint b else if a = 0 then 0 else strncmp as bs n)"
| "strncmp _ _ _ = 0"

definition tolower :: "byte \<Rightarrow> byte" where
  "tolower c = (if 65 \<le> c \<and> c \<le> 90 then c + 32 else c)"

definition isspace :: "byte \<Rightarrow> bool" where
  "isspace c \<longleftrightarrow> c = 32 \<or> (9 \<le> c \<and> c \<le> 13)"

definition isdigit :: "byte \<Rightarrow> bool" where
  "isdigit c \<longleftrightarrow> 48 \<le> c \<and> c \<le> 57"

definition cchar :: "bytes \<Rightarrow> nat \<Rightarrow> byte" where
  "cchar s i = (if i < length s then s ! i else 0)"

definition str_util_lowercase :: "byte \<Rightarrow> int" where
  "str_util_lowercase c = uint (tolower c)"

function mg_ncasecmp_from :: "bytes \<Rightarrow> bytes \<Rightarrow> nat \<Rightarrow> nat \<Rightarrow> int" where
  "mg_ncasecmp_from s1 s2 i len =
     (let diff = str_util_lowercase (cchar s1 i) - str_util_lowercase (cchar s2 i) in
      if diff = 0 \<and> cchar s1 i \<noteq> 0 \<and> len > 1 then mg_ncasecmp_from s1 s2 (Suc i) (len - 1) else diff)"
  by pat_completeness auto
termination by (relation "measure (\<lambda>(s1, s2, i, len). len)") auto

declare mg_ncasecmp_from.simps [simp del]

definition mg_ncasecmp :: "bytes \<Rightarrow> bytes \<Rightarrow> nat \<Rightarrow> int" where
  "mg_ncasecmp s1 s2 len = (if len > 0 then mg_ncasecmp_from s1 s2 0 len else 0)"

definition mg_casecmp :: "bytes \<Rightarrow> bytes \<Rightarrow> int" where
  "mg_casecmp s1 s2 = mg_ncasecmp s1 s2 (2 ^ 64 - 1)"

definition mg_vcmp :: "bytes \<Rightarrow> bytes \<Rightarrow> int" where
  "mg_vcmp str1 str2 =
     (let n2 = length str2; n1 = length str1; r = strncmp str1 str2 (if n1 < n2 then n1 else n2)
      in if r = 0 then int n1 - int n2 else r)"

definition mg_vcasecmp :: "bytes \<Rightarrow> bytes \<Rightarrow> int" where
  "mg_vcasecmp str1 str2 =
     (let n2 = length str2; n1 = length str1; r = mg_ncasecmp str1 str2 (if n1 < n2 then n1 else n2)
      in if r = 0 then int n1 - int n2 else r)"

fun mg_strcmp :: "bytes \<Rightarrow> bytes \<Rightarrow> int" where
  "mg_strcmp (a # as) (b # bs) =
     (if sint a < sint b then -1 else if sint a > sint b then 1 else mg_strcmp as bs)"
| "mg_strcmp (a # as) [] = 1"
| "mg_strcmp [] (b # bs) = -1"
| "mg_strcmp [] [] = 0"

definition mg_strncmp :: "bytes \<Rightarrow> bytes \<Rightarrow> nat \<Rightarrow> int" where
  "mg_strncmp str1 str2 n = mg_strcmp (take n str1) (take n str2)"

subsection \<open>Searching\<close>

fun mg_strchr :: "bytes \<Rightarrow> byte \<Rightarrow> nat option" where
  "mg_strchr [] c = None"
| "mg_strchr (x # s) c = (if x = c then Some 0 else map_option Suc (mg_strchr s c))"

text \<open>memchr is the same search.\<close>

abbreviation memchr :: "bytes \<Rightarrow> byte \<Rightarrow> nat option" where "memchr \<equiv> mg_strchr"

fun mg_strstr :: "bytes \<Rightarrow> bytes \<Rightarrow> nat option" where
  "mg_strstr haystack needle =
     (if length needle > length haystack then None
      else if take (length needle) haystack = needle then Some 0
      else case haystack of [] \<Rightarrow> None | _ # h \<Rightarrow> map_option Suc (mg_strstr h needle))"

declare mg_strstr.simps [simp del]

fun c_strnstr :: "bytes \<Rightarrow> bytes \<Rightarrow> nat option" where
  "c_strnstr [] needle = None"
| "c_strnstr (x # s) needle =
     (if length needle > length (x # s) then None
      else if strncmp (x # s) needle (length needle) = 0 then Some 0
      else map_option Suc (c_strnstr s needle))"

definition mg_strstrip :: "bytes \<Rightarrow> bytes" where
  "mg_strstrip s = rev (dropWhile isspace (rev (dropWhile isspace s)))"

subsection \<open>Hexadecimal and decimal\<close>

definition hex_digits :: bytes where "hex_digits = cstr ''0123456789abcdef''"

definition cs_to_hex :: "bytes \<Rightarrow> bytes" where
  "cs_to_hex p = concat (map (\<lambda>x. [hex_digits ! unat (drop_bit 4 x), hex_digits ! unat (x AND 15)]) p) @ [0]"

definition fourbit :: "byte \<Rightarrow> int" where
  "fourbit ch =
     (if 48 \<le> ch \<and> ch \<le> 57 then uint ch - 48
      else if 97 \<le> ch \<and> ch \<le> 102 then uint ch - 97 + 10
      else if 65 \<le> ch \<and> ch \<le> 70 then uint ch - 65 + 10
      else 0)"

text \<open>The odd last digit is paired with the byte behind the text, which the caller must own.\<close>

fun cs_from_hex_body :: "bytes \<Rightarrow> byte \<Rightarrow> bytes" where
  "cs_from_hex_body [] z = []"
| "cs_from_hex_body [a] z = [word_of_int (push_bit 4 (fourbit a) + fourbit z)]"
| "cs_from_hex_body (a # b # p) z = word_of_int (push_bit 4 (fourbit a) + fourbit b) # cs_from_hex_body p z"

definition cs_from_hex :: "bytes \<Rightarrow> byte \<Rightarrow> bytes" where
  "cs_from_hex p z = cs_from_hex_body p z @ [0]"

text \<open>Signed overflow of the 64-bit accumulator is undefined.\<close>

definition int64 :: "int \<Rightarrow> int option" where
  "int64 i = (if - (2 ^ 63) \<le> i \<and> i < 2 ^ 63 then Some i else None)"

fun to64_digits :: "bytes \<Rightarrow> int \<Rightarrow> int option" where
  "to64_digits [] result = Some result"
| "to64_digits (c # s) result =
     (if isdigit c then do {
        r \<leftarrow> int64 (result * 10);
        r \<leftarrow> int64 (r + (uint c - 48));
        to64_digits s r }
      else Some result)"

definition cs_to64 :: "bytes \<Rightarrow> int option" where
  "cs_to64 s =
     (let s = dropWhile isspace s;
          (neg, s) = (if s \<noteq> [] \<and> hd s = 45 then (-1, tl s) else (1, s))
      in do { r \<leftarrow> to64_digits s 0; int64 (r * neg) })"

subsection \<open>Comma lists\<close>

text \<open>The entry, its value behind an equals sign (when asked for and present) and the rest.\<close>

definition mg_next_comma_list_entry_n :: "bytes \<Rightarrow> bool \<Rightarrow> (bytes \<times> bytes option \<times> bytes) option" where
  "mg_next_comma_list_entry_n list want_eq =
     (if list = [] then None
      else
        let (val, rest) = (case mg_strchr list 44 of
               Some chr \<Rightarrow> (take chr list, drop (Suc chr) list)
             | None \<Rightarrow> (list, []))
        in Some (if want_eq then
             case memchr val 61 of
               Some eq \<Rightarrow> (take eq val, Some (drop (Suc eq) val), rest)
             | None \<Rightarrow> (val, None, rest)
           else (val, None, rest)))"

subsection \<open>Glob patterns\<close>

definition or_split :: "bytes \<Rightarrow> nat option" where
  "or_split p = (case memchr p 124 of Some k \<Rightarrow> Some k | None \<Rightarrow> memchr p 44)"

definition path_span :: "bytes \<Rightarrow> nat" where
  "path_span s = length (takeWhile (\<lambda>c. c \<noteq> 47) s)"

lemma mg_strchr_Some: "mg_strchr s c = Some i \<Longrightarrow> i < length s \<and> s ! i = c \<and> c \<notin> set (take i s)"
  by (induction s c arbitrary: i rule: mg_strchr.induct) (auto split: if_splits)

lemma mg_strchr_None: "mg_strchr s c = None \<longleftrightarrow> c \<notin> set s"
  by (induction s c rule: mg_strchr.induct) auto

lemma or_split_less: "or_split p = Some k \<Longrightarrow> k < length p"
  by (auto simp: or_split_def split: option.splits dest: mg_strchr_Some)

text \<open>
  The matcher, its character loop and the loop that tries the rest of the pattern behind a star
  on ever longer tails of the span.
\<close>

function (sequential) mg_match_prefix_n :: "bytes \<Rightarrow> bytes \<Rightarrow> nat"
  and match_loop :: "bytes \<Rightarrow> bytes \<Rightarrow> nat \<Rightarrow> nat \<Rightarrow> nat"
  and match_star :: "bytes \<Rightarrow> bytes \<Rightarrow> nat \<Rightarrow> nat \<Rightarrow> nat" where
  "mg_match_prefix_n pattern str =
     (case or_split pattern of
        Some k \<Rightarrow> (let res = mg_match_prefix_n (take k pattern) str in
          if res > 0 then res else mg_match_prefix_n (drop (Suc k) pattern) str)
      | None \<Rightarrow> match_loop pattern str 0 0)"
| "match_loop pattern str i j =
     (if i < length pattern \<and> j < length str then
        if pattern ! i = 63 then match_loop pattern str (Suc i) (Suc j)
        else if pattern ! i = 42 then
          (let i = Suc i;
               (i, len) = (if i < length pattern \<and> pattern ! i = 42 then (Suc i, length str - j)
                           else (i, path_span (drop j str)))
           in if i = length pattern \<or> (pattern ! i = 36 \<and> i = length pattern - 1) then j + len
              else match_star (drop i pattern) str j len)
        else if str_util_lowercase (pattern ! i) = str_util_lowercase (str ! j) then
          match_loop pattern str (Suc i) (Suc j)
        else if pattern ! i = 36 then (if j = length str then length str else 0)
        else (if i = length pattern then j else 0)
      else if i < length pattern \<and> pattern ! i = 36 then (if j = length str then length str else 0)
      else (if i = length pattern then j else 0))"
| "match_star pattern str j len =
     (let res = mg_match_prefix_n pattern (drop (j + len) str) in
      if res = 0 \<and> len \<noteq> 0 then match_star pattern str j (len - 1)
      else if res = 0 then 0 else j + res + len)"
  by pat_completeness auto
termination
  by (relation "measures [
      (\<lambda>x. case x of Inl (p, s) \<Rightarrow> length p | Inr (Inl (p, s, i, j)) \<Rightarrow> length p | Inr (Inr (p, s, j, n)) \<Rightarrow> length p),
      (\<lambda>x. case x of Inl _ \<Rightarrow> 1 | Inr (Inl _) \<Rightarrow> 0 | Inr (Inr _) \<Rightarrow> 2),
      (\<lambda>x. case x of Inl _ \<Rightarrow> 0 | Inr (Inl (p, s, i, j)) \<Rightarrow> length p - i | Inr (Inr (p, s, j, n)) \<Rightarrow> n)]")
    (auto dest: or_split_less split: if_splits)


declare mg_match_prefix_n.simps [simp del] match_loop.simps [simp del] match_star.simps [simp del]

subsection \<open>Order\<close>

lemma mg_strcmp_eq: "mg_strcmp a b = 0 \<longleftrightarrow> a = b"
  by (induction a b rule: mg_strcmp.induct) (auto simp: signed_word_eqI)

lemma mg_strcmp_antisym: "mg_strcmp b a = - mg_strcmp a b"
  by (induction a b rule: mg_strcmp.induct) auto

subsection \<open>Searching\<close>

lemma mg_strstr_Some:
  "mg_strstr h n = Some i \<Longrightarrow> i + length n \<le> length h \<and> take (length n) (drop i h) = n \<and>
     (\<forall>j < i. take (length n) (drop j h) \<noteq> n)"
proof (induction h arbitrary: i)
  case Nil
  then show ?case by (auto simp: mg_strstr.simps split: if_splits)
next
  case (Cons x h)
  show ?case
  proof (cases "take (length n) (x # h) = n")
    case True
    with Cons.prems show ?thesis by (auto simp: mg_strstr.simps split: if_splits)
  next
    case False
    with Cons.prems obtain k where k: "mg_strstr h n = Some k" "i = Suc k"
      by (auto simp: mg_strstr.simps [of "x # h"] split: if_splits)
    from Cons.IH [OF k(1)] False k(2) show ?thesis by (auto simp: less_Suc_eq_0_disj)
  qed
qed

lemma mg_strstr_None: "mg_strstr h n = None \<Longrightarrow> i + length n \<le> length h \<Longrightarrow> take (length n) (drop i h) \<noteq> n"
proof (induction h arbitrary: i)
  case Nil
  then show ?case by (auto simp: mg_strstr.simps split: if_splits)
next
  case (Cons x h)
  then show ?case
    by (cases i) (auto simp: mg_strstr.simps [of "x # h"] split: if_splits)
qed

subsection \<open>Hexadecimal\<close>

lemma fourbit_hex: "n < 16 \<Longrightarrow> fourbit (hex_digits ! n) = int n"
proof -
  have "\<forall>n \<in> set [0..<16]. fourbit (hex_digits ! n) = int n" by code_simp
  then show "n < 16 \<Longrightarrow> fourbit (hex_digits ! n) = int n" by simp
qed

lemma nibbles: "unat (drop_bit 4 (x :: byte)) < 16" "unat (x AND 15) < 16"
  "(word_of_int (push_bit 4 (int (unat (drop_bit 4 x))) + int (unat (x AND 15))) :: byte) = x"
proof -
  have u: "unat x < 256" using unsigned_less [of x, where ?'a = nat] by simp
  have d: "unat (drop_bit 4 x) = unat x div 16" unfolding unat_drop_bit_eq by (simp add: drop_bit_eq_div)
  have m: "unat (x AND 15) = unat x mod 16"
  proof -
    have "x AND 15 = take_bit 4 x" by (simp add: take_bit_eq_mask mask_eq_exp_minus_1)
    then have "unat (x AND 15) = take_bit 4 (unat x)" by (simp only: unsigned_take_bit_eq)
    then show ?thesis by (simp add: take_bit_eq_mod)
  qed
  show "unat (drop_bit 4 x) < 16" "unat (x AND 15) < 16" using u by (auto simp: d m)
  have "int (unat x) = int (unat x div 16 * 16 + unat x mod 16)" by (simp only: div_mult_mod_eq)
  also have "\<dots> = push_bit 4 (int (unat (drop_bit 4 x))) + int (unat (x AND 15))"
    unfolding d m push_bit_eq_mult by (simp only: of_nat_add of_nat_mult of_nat_numeral) simp
  finally have "push_bit 4 (int (unat (drop_bit 4 x))) + int (unat (x AND 15)) = uint x"
    by (simp only: uint_nat)
  then show "(word_of_int (push_bit 4 (int (unat (drop_bit 4 x))) + int (unat (x AND 15))) :: byte) = x"
    by (simp only: word_of_int_uint)
qed

lemma hex_pair:
  "(word_of_int (push_bit 4 (fourbit (hex_digits ! unat (drop_bit 4 x))) +
     fourbit (hex_digits ! unat (x AND 15))) :: byte) = x"
  unfolding fourbit_hex [OF nibbles(1)] fourbit_hex [OF nibbles(2)] by (rule nibbles(3))

text \<open>Reading back the hexadecimal form of any byte string gives the string.\<close>

theorem cs_hex_roundtrip: "cs_from_hex (butlast (cs_to_hex p)) z = p @ [0]"
proof -
  have "cs_from_hex_body (concat (map (\<lambda>x. [hex_digits ! unat (drop_bit 4 x), hex_digits ! unat (x AND 15)]) p)) z = p"
    by (induction p) (simp_all add: hex_pair del: of_int_add)
  then show ?thesis by (simp add: cs_from_hex_def cs_to_hex_def)
qed

subsection \<open>Comma lists\<close>

fun join_commas :: "bytes list \<Rightarrow> bytes" where
  "join_commas [] = []"
| "join_commas [x] = x"
| "join_commas (x # xs) = x @ 44 # join_commas xs"

function comma_entries :: "bytes \<Rightarrow> bytes list" where
  "comma_entries list = (case mg_next_comma_list_entry_n list False of
     None \<Rightarrow> [] | Some (val, _, rest) \<Rightarrow> val # comma_entries rest)"
  by pat_completeness auto
termination
  by (relation "measure length") (auto simp: mg_next_comma_list_entry_n_def Let_def split: if_splits option.splits)

declare comma_entries.simps [simp del]

lemma mg_strchr_append: "c \<notin> set xs \<Longrightarrow> mg_strchr (xs @ c # ys) c = Some (length xs)"
  by (induction xs) auto

lemma next_entry_sep: "44 \<notin> set x \<Longrightarrow> mg_next_comma_list_entry_n (x @ 44 # r) False = Some (x, None, r)"
  by (simp add: mg_next_comma_list_entry_n_def mg_strchr_append)

lemma next_entry_last: "44 \<notin> set x \<Longrightarrow> x \<noteq> [] \<Longrightarrow> mg_next_comma_list_entry_n x False = Some (x, None, [])"
  using mg_strchr_None [of x 44] by (simp add: mg_next_comma_list_entry_n_def)

text \<open>Iterating over a comma list visits exactly the entries it was made of, in order (when none holds a
comma and the last is not empty).\<close>

theorem comma_list_entries:
  assumes "\<forall>x \<in> set xs. 44 \<notin> set x" "xs = [] \<or> last xs \<noteq> []"
  shows "comma_entries (join_commas xs) = xs"
  using assms
proof (induction xs rule: join_commas.induct)
  case 1
  show ?case by (simp add: comma_entries.simps mg_next_comma_list_entry_n_def)
next
  case (2 x)
  then show ?case by (subst comma_entries.simps) (simp add: next_entry_last comma_entries.simps [of "[]"] mg_next_comma_list_entry_n_def [of "[]"])
next
  case (3 x v va)
  then show ?case by (subst comma_entries.simps) (simp add: next_entry_sep)
qed

lemma comma_list_entries_witness: "comma_entries (join_commas [[97], [], [98, 99]]) = [[97], [], [98, 99]]"
  by (rule comma_list_entries) auto

subsection \<open>Glob patterns\<close>

lemma path_span_le: "path_span s \<le> length s"
  by (simp add: path_span_def length_takeWhile_le)

lemma match_bounds:
  "mg_match_prefix_n p s \<le> length s"
  "j \<le> length s \<Longrightarrow> match_loop p s i j \<le> length s"
  "j + len \<le> length s \<Longrightarrow> match_star p s j len \<le> length s"
proof (induction p s and p s i j and p s j len rule: mg_match_prefix_n_match_loop_match_star.induct)
  case (1 p s)
  then show ?case by (auto simp: mg_match_prefix_n.simps [of p s] Let_def split: option.splits)
next
  case (2 p s i j)
  have sp: "path_span (drop j s) + j \<le> length s" using path_span_le [of "drop j s"] 2(4) by simp
  show ?case
    using 2 sp by (subst match_loop.simps) (auto simp: Let_def split: if_splits)
next
  case (3 p s j len)
  then show ?case by (subst match_star.simps) (auto simp: Let_def)
qed


text \<open>A pattern without metacharacters.\<close>

definition plain :: "bytes \<Rightarrow> bool" where
  "plain p \<longleftrightarrow> set p \<inter> {124, 44, 63, 42, 36} = {}"

lemma lowercase_eq: "str_util_lowercase a = str_util_lowercase b \<longleftrightarrow> tolower a = tolower b"
  unfolding str_util_lowercase_def by (metis word_of_int_uint)

lemma match_loop_plain:
  assumes "plain p" "i \<le> length p" "i \<le> length s"
  shows "match_loop p s i i =
    (if length p \<le> length s \<and> (\<forall>k. i \<le> k \<and> k < length p \<longrightarrow> tolower (p ! k) = tolower (s ! k)) then length p else 0)"
  using assms(2,3)
proof (induction "length p - i" arbitrary: i)
  case 0
  then have "i = length p" by simp
  with 0 show ?case by (subst match_loop.simps) auto
next
  case (Suc n)
  then have i: "i < length p" by simp
  then have "p ! i \<in> set p" by simp
  then have np: "p ! i \<noteq> 63" "p ! i \<noteq> 42" "p ! i \<noteq> 36" using assms(1) by (auto simp: plain_def)
  show ?case
  proof (cases "i < length s")
    case False
    with Suc i np show ?thesis by (subst match_loop.simps) auto
  next
    case True
    have IH: "match_loop p s (Suc i) (Suc i) = (if length p \<le> length s \<and>
        (\<forall>k. Suc i \<le> k \<and> k < length p \<longrightarrow> tolower (p ! k) = tolower (s ! k)) then length p else 0)"
      using Suc.hyps(2) i True by (intro Suc.hyps(1)) auto
    show ?thesis
    proof (cases "tolower (p ! i) = tolower (s ! i)")
      case True
      then have "(\<forall>k. i \<le> k \<and> k < length p \<longrightarrow> tolower (p ! k) = tolower (s ! k)) \<longleftrightarrow>
        (\<forall>k. Suc i \<le> k \<and> k < length p \<longrightarrow> tolower (p ! k) = tolower (s ! k))"
        by (metis Suc_leD not_less_eq_eq le_antisym)
      with IH np i \<open>i < length s\<close> True show ?thesis by (subst match_loop.simps) (simp add: lowercase_eq)
    next
      case False
      with np i \<open>i < length s\<close> show ?thesis
        by (subst match_loop.simps) (auto simp: lowercase_eq)
    qed
  qed
qed

text \<open>The glob matcher always returns, never claims more than the string has, and on a pattern without
metacharacters it is a case-insensitive prefix test: the length of the pattern on a match, otherwise 0.\<close>

theorem mg_match_prefix_spec:
  "mg_match_prefix_n p s \<le> length s \<and>
   (plain p \<longrightarrow> mg_match_prefix_n p s =
      (if map tolower (take (length p) s) = map tolower p then length p else 0))"
proof (intro conjI impI)
  show "mg_match_prefix_n p s \<le> length s" by (rule match_bounds)
  assume pl: "plain p"
  then have "or_split p = None" using mg_strchr_None [of p 124] mg_strchr_None [of p 44]
    by (auto simp: or_split_def plain_def)
  then have "mg_match_prefix_n p s = match_loop p s 0 0" by (simp add: mg_match_prefix_n.simps)
  also have "\<dots> = (if length p \<le> length s \<and> (\<forall>k < length p. tolower (p ! k) = tolower (s ! k)) then length p else 0)"
    using match_loop_plain [OF pl, of 0 s] by simp
  also have "length p \<le> length s \<and> (\<forall>k < length p. tolower (p ! k) = tolower (s ! k)) \<longleftrightarrow>
      map tolower (take (length p) s) = map tolower p"
    by (auto simp: list_eq_iff_nth_eq)
  finally show "mg_match_prefix_n p s = (if map tolower (take (length p) s) = map tolower p then length p else 0)" .
qed

lemma mg_match_prefix_spec_witness: "mg_match_prefix_n [71, 69, 84] [103, 101, 116, 47] = 3"
proof -
  have "plain [71, 69, 84]" by (simp add: plain_def)
  with mg_match_prefix_spec [of "[71, 69, 84]" "[103, 101, 116, 47]"] show ?thesis by (simp add: tolower_def)
qed


subsection \<open>Character classes and number parsing of the C library\<close>

text \<open>The classes in the C locale.\<close>

definition isprint :: "byte \<Rightarrow> bool" where
  "isprint c \<longleftrightarrow> 32 \<le> c \<and> c \<le> 126"

definition isalnum :: "byte \<Rightarrow> bool" where
  "isalnum c \<longleftrightarrow> isdigit c \<or> (65 \<le> c \<and> c \<le> 90) \<or> (97 \<le> c \<and> c \<le> 122)"

definition isxdigit :: "byte \<Rightarrow> bool" where
  "isxdigit c \<longleftrightarrow> isdigit c \<or> (65 \<le> c \<and> c \<le> 70) \<or> (97 \<le> c \<and> c \<le> 102)"

text \<open>strtoll with base 10 saturates; atoi is undefined when the number is no int.\<close>

definition strtoll :: "bytes \<Rightarrow> int" where
  "strtoll s =
     (let s = dropWhile isspace s;
          (neg, s) = (if s \<noteq> [] \<and> hd s = 45 then (-1, tl s) else if s \<noteq> [] \<and> hd s = 43 then (1, tl s) else (1, s));
          v = neg * fold (\<lambda>c v. v * 10 + (uint c - 48)) (takeWhile isdigit s) 0
      in if v < - (2 ^ 63) then - (2 ^ 63) else if v \<ge> 2 ^ 63 then 2 ^ 63 - 1 else v)"

definition atoi :: "bytes \<Rightarrow> int option" where
  "atoi s = (let v = strtoll s in if - (2 ^ 31) \<le> v \<and> v < 2 ^ 31 then Some v else None)"

text \<open>The C string that starts at a place in memory.\<close>

definition c_string :: "bytes \<Rightarrow> bytes" where
  "c_string b = takeWhile (\<lambda>x. x \<noteq> 0) b"

lemma ncasecmp_from_same:
  assumes "\<forall>j. i \<le> j \<and> j < i + n \<longrightarrow> cchar s1 j = cchar s2 j"
  shows "mg_ncasecmp_from s1 s2 i n = 0 \<or> n = 0"
  using assms
proof (induction s1 s2 i n rule: mg_ncasecmp_from.induct)
  case (1 s1 s2 i len)
  show ?case
  proof (cases "len \<le> 1")
    case True
    then show ?thesis using "1.prems" by (subst mg_ncasecmp_from.simps) (auto simp: Let_def)
  next
    case False
    have e: "cchar s1 i = cchar s2 i" using "1.prems" False by simp
    then have "mg_ncasecmp_from s1 s2 i len = (if cchar s1 i \<noteq> 0 then mg_ncasecmp_from s1 s2 (Suc i) (len - 1) else 0)"
      using False by (subst mg_ncasecmp_from.simps) (simp add: Let_def)
    moreover have "mg_ncasecmp_from s1 s2 (Suc i) (len - 1) = 0" if "cchar s1 i \<noteq> 0"
      using "1.IH" [OF refl] "1.prems" False that e by auto
    ultimately show ?thesis by simp
  qed
qed

lemma ncasecmp_prefix: "mg_ncasecmp (a @ s) a (length a) = 0"
  using ncasecmp_from_same [of 0 "length a" "a @ s" a] by (auto simp: mg_ncasecmp_def cchar_def nth_append)

lemma strncmp_take:
  assumes "0 \<notin> set b" "n \<le> length a" "n \<le> length b"
  shows "strncmp a b n = 0 \<longleftrightarrow> take n a = take n b"
  using assms
proof (induction a b n rule: strncmp.induct)
  case (1 a as b bs n)
  then show ?case by auto (metis word_of_int_uint)+
qed auto

lemma mg_vcmp_eq: "0 \<notin> set b \<Longrightarrow> mg_vcmp a b = 0 \<longleftrightarrow> a = b"
  using strncmp_take [of b "min (length a) (length b)" a]
  by (auto simp: mg_vcmp_def Let_def min_def split: if_splits)


subsection \<open>What the comparison without case says\<close>

lemma tolower_zero: "tolower c = 0 \<longleftrightarrow> c = 0"
proof
  assume "tolower c = 0"
  moreover have "c + 32 \<noteq> 0" if "65 \<le> c" "c \<le> 90"
  proof
    assume "c + 32 = 0"
    then have "c = 0 - 32" by (metis add_diff_cancel_right')
    then show False using that by simp
  qed
  ultimately show "c = 0" by (auto simp: tolower_def split: if_splits)
qed (simp add: tolower_def)

lemma ncasecmp_from_iff:
  "0 < n \<Longrightarrow> \<forall>j. i \<le> j \<and> j < i + n \<longrightarrow> cchar s1 j \<noteq> 0 \<or> cchar s2 j \<noteq> 0 \<Longrightarrow>
    mg_ncasecmp_from s1 s2 i n = 0 \<longleftrightarrow> (\<forall>j. i \<le> j \<and> j < i + n \<longrightarrow> tolower (cchar s1 j) = tolower (cchar s2 j))"
proof (induction s1 s2 i n rule: mg_ncasecmp_from.induct)
  case (1 s1 s2 i n)
  have eq: "str_util_lowercase a - str_util_lowercase b = 0 \<longleftrightarrow> tolower a = tolower b" for a b
    by (simp add: str_util_lowercase_def word_uint_eq_iff)
  have nz: "cchar s1 i \<noteq> 0" if "tolower (cchar s1 i) = tolower (cchar s2 i)"
    using "1.prems" that tolower_zero by (metis le_refl less_add_same_cancel1)
  have split: "(\<forall>j. i \<le> j \<and> j < i + n \<longrightarrow> P j) \<longleftrightarrow> P i \<and> (\<forall>j. Suc i \<le> j \<and> j < Suc i + (n - 1) \<longrightarrow> P j)" for P
  proof
    assume r: "P i \<and> (\<forall>j. Suc i \<le> j \<and> j < Suc i + (n - 1) \<longrightarrow> P j)"
    show "\<forall>j. i \<le> j \<and> j < i + n \<longrightarrow> P j"
    proof (intro allI impI)
      fix j assume "i \<le> j \<and> j < i + n"
      then show "P j" using r by (cases "j = i") auto
    qed
  next
    assume a: "\<forall>j. i \<le> j \<and> j < i + n \<longrightarrow> P j"
    have "P j" if "Suc i \<le> j \<and> j < Suc i + (n - 1)" for j 
    proof -
      have "i \<le> j \<and> j < i + n" using that "1.prems"(1) by linarith
      then show ?thesis using a by blast
    qed
    moreover have "P i" using a "1.prems"(1) by simp
    ultimately show "P i \<and> (\<forall>j. Suc i \<le> j \<and> j < Suc i + (n - 1) \<longrightarrow> P j)" by blast
  qed
  show ?case
  proof (cases "tolower (cchar s1 i) = tolower (cchar s2 i) \<and> n > 1")
    case True
    then have "mg_ncasecmp_from s1 s2 i n = mg_ncasecmp_from s1 s2 (Suc i) (n - 1)"
      using nz by (subst mg_ncasecmp_from.simps) (simp add: Let_def str_util_lowercase_def)
    moreover have "mg_ncasecmp_from s1 s2 (Suc i) (n - 1) = 0 \<longleftrightarrow>
        (\<forall>j. Suc i \<le> j \<and> j < Suc i + (n - 1) \<longrightarrow> tolower (cchar s1 j) = tolower (cchar s2 j))"
      by (rule "1.IH" [OF refl]) (use True nz "1.prems" in \<open>auto simp: str_util_lowercase_def\<close>)
    ultimately show ?thesis using True unfolding split [of "\<lambda>j. tolower (cchar s1 j) = tolower (cchar s2 j)"] by simp
  next
    case False
    then have "mg_ncasecmp_from s1 s2 i n = 0 \<longleftrightarrow> tolower (cchar s1 i) = tolower (cchar s2 i)"
      using eq by (subst mg_ncasecmp_from.simps) (auto simp: Let_def)
    moreover from False have "n = 1 \<or> tolower (cchar s1 i) \<noteq> tolower (cchar s2 i)" using "1.prems"(1) by auto
    then have "(\<forall>j. i \<le> j \<and> j < i + n \<longrightarrow> tolower (cchar s1 j) = tolower (cchar s2 j)) \<longleftrightarrow> tolower (cchar s1 i) = tolower (cchar s2 i)"
      unfolding split [of "\<lambda>j. tolower (cchar s1 j) = tolower (cchar s2 j)"] by auto
    ultimately show ?thesis by simp
  qed
qed

text \<open>The same when it is the second string that holds no zero.\<close>

lemma ncasecmp_iff:
  assumes "\<forall>j < n. cchar b j \<noteq> 0"
  shows "mg_ncasecmp a b n = 0 \<longleftrightarrow> (\<forall>j < n. tolower (cchar a j) = tolower (cchar b j))"
  using ncasecmp_from_iff [of n 0 a b] assms by (auto simp: mg_ncasecmp_def)

text \<open>Over the length of the first string, which holds no zero, the comparison says that it is a prefix of the second.\<close>

lemma ncasecmp_prefix_iff:
  assumes "0 \<notin> set s1"
  shows "mg_ncasecmp s1 s2 (length s1) = 0 \<longleftrightarrow> length s1 \<le> length s2 \<and> map tolower s1 = map tolower (take (length s1) s2)"
proof (cases "s1 = []")
  case False
  have nz: "cchar s1 j \<noteq> 0" if "j < length s1" for j using assms nth_mem [OF that] that by (metis cchar_def)
  have "mg_ncasecmp s1 s2 (length s1) = 0 \<longleftrightarrow> (\<forall>j < length s1. tolower (cchar s1 j) = tolower (cchar s2 j))"
    using ncasecmp_from_iff [of "length s1" 0 s1 s2] nz False by (simp add: mg_ncasecmp_def)
  also have "\<dots> \<longleftrightarrow> length s1 \<le> length s2 \<and> (\<forall>j < length s1. tolower (s1 ! j) = tolower (s2 ! j))"
  proof
    assume a: "\<forall>j < length s1. tolower (cchar s1 j) = tolower (cchar s2 j)"
    have "j < length s2" if "j < length s1" for j
    proof (rule ccontr)
      assume "\<not> j < length s2"
      then have "tolower (cchar s1 j) = 0" using a that by (simp add: cchar_def tolower_zero)
      then show False using nz that by (simp add: tolower_zero)
    qed
    then have "length s1 \<le> length s2" by (meson linorder_not_less less_irrefl)
    with a show "length s1 \<le> length s2 \<and> (\<forall>j < length s1. tolower (s1 ! j) = tolower (s2 ! j))" by (simp add: cchar_def)
  qed (simp add: cchar_def)
  also have "\<dots> \<longleftrightarrow> length s1 \<le> length s2 \<and> map tolower s1 = map tolower (take (length s1) s2)"
    by (auto simp: list_eq_iff_nth_eq)
  finally show ?thesis .
qed (simp add: mg_ncasecmp_def)

lemma ncasecmp_zero_iff:
  assumes "n \<le> length a" "0 \<notin> set (take n a)"
  shows "mg_ncasecmp a b n = 0 \<longleftrightarrow> n \<le> length b \<and> map tolower (take n a) = map tolower (take n b)"
proof (cases "n = 0")
  case False
  have nz: "cchar a j \<noteq> 0" "cchar (take n a) j = cchar a j" if "j < n" for j
    using assms that nth_mem [of j "take n a"] by (auto simp: cchar_def simp del: nth_mem)
  have "mg_ncasecmp a b n = 0 \<longleftrightarrow> mg_ncasecmp (take n a) b n = 0"
    using ncasecmp_from_iff [of n 0 a b] ncasecmp_from_iff [of n 0 "take n a" b] nz False by (simp add: mg_ncasecmp_def)
  then show ?thesis using ncasecmp_prefix_iff [OF assms(2), of b] assms(1) by (simp add: min_absorb2)
qed (simp add: mg_ncasecmp_def)

lemma mg_vcasecmp_iff:
  assumes "0 \<notin> set b"
  shows "mg_vcasecmp a b = 0 \<longleftrightarrow> map tolower a = map tolower b"
proof -
  let ?m = "min (length a) (length b)"
  have "cchar b j \<noteq> 0" if "j < ?m" for j using assms that nth_mem [of j b] by (auto simp: cchar_def simp del: nth_mem)
  then have "mg_ncasecmp a b ?m = 0 \<longleftrightarrow> (\<forall>j < ?m. tolower (a ! j) = tolower (b ! j))"
    using ncasecmp_iff [of ?m b a] by (auto simp: cchar_def)
  then show ?thesis by (auto simp: mg_vcasecmp_def Let_def min_def list_eq_iff_nth_eq split: if_splits)
qed

end
