(* ===== verification/MgUri.thy ===== *)
theory MgUri
  imports MgStr MgMbuf
begin

text \<open>
  URIs (mongoose/src/mg_uri.c of 3rdLib/mongoose/mongoose.c).
  A position in the URI is an index, a component is the list of its bytes. Reading behind the
  end of the string is \<open>None\<close>. Buffers grow with an allocator that does not fail
  (\<open>mbuf_append_abs\<close> shows what they hold then).
\<close>

subsection \<open>Components\<close>

text \<open>The component from \<open>p\<close> on and the position behind the separator.\<close>

definition parse_uri_component :: "bytes \<Rightarrow> nat \<Rightarrow> bytes \<Rightarrow> bytes \<times> nat" where
  "parse_uri_component s p seps =
     (let comp = takeWhile (\<lambda>c. c \<notin> set seps) (drop p s);
          p = p + length comp
      in (comp, if p < length s then Suc p else p))"

subsection \<open>Parsing\<close>

record uri_parts =
  u_scheme :: bytes
  u_user_info :: bytes
  u_host :: bytes
  u_port :: u32
  u_path :: bytes
  u_query :: bytes
  u_fragment :: bytes

definition no_parts :: uri_parts where
  "no_parts = \<lparr>u_scheme = [], u_user_info = [], u_host = [], u_port = 0, u_path = [], u_query = [], u_fragment = []\<rparr>"

datatype uri_state = P_START | P_SCHEME_OR_PORT | P_USER_INFO | P_HOST | P_PORT | P_REST

text \<open>\<open>for (; p < end; p++)\<close> up to a byte of the set.\<close>

definition scan :: "bytes \<Rightarrow> nat \<Rightarrow> byte set \<Rightarrow> nat" where
  "scan s p stop = p + length (takeWhile (\<lambda>c. c \<notin> stop) (drop p s))"

datatype uri_step = Step uri_state nat uri_parts | Reject | Overread

definition step_start :: "bytes \<Rightarrow> nat \<Rightarrow> uri_parts \<Rightarrow> uri_step" where
  "step_start uri p r =
     (if uri ! p = 91 then Step P_HOST p r
      else
        let p = scan uri p {58, 47} in
        if p < length uri \<and> uri ! p = 58 then Step P_SCHEME_OR_PORT p r
        else Step (if p < length uri then P_REST else P_START) p (r\<lparr>u_host := take p uri\<rparr>))"

definition step_scheme_or_port :: "bytes \<Rightarrow> nat \<Rightarrow> uri_parts \<Rightarrow> uri_step" where
  "step_scheme_or_port uri p r =
     (if length uri - p \<ge> 3 \<and> take 3 (drop p uri) = [58, 47, 47] then
        Step P_USER_INFO (p + 3) (r\<lparr>u_scheme := take p uri\<rparr>)
      else Step P_PORT p (r\<lparr>u_host := take p uri\<rparr>))"

definition step_user_info :: "bytes \<Rightarrow> nat \<Rightarrow> uri_parts \<Rightarrow> uri_step" where
  "step_user_info uri p r =
     (let q = scan uri p {64, 91, 47};
          q = (if q = length uri \<or> uri ! q = 47 \<or> uri ! q = 91 then p else q)
      in Step P_HOST q (r\<lparr>u_user_info := take (q - p) (drop p uri)\<rparr>))"

definition step_host :: "bytes \<Rightarrow> nat \<Rightarrow> uri_parts \<Rightarrow> uri_step" where
  "step_host uri p r =
     (let p = (if uri ! p = 64 then Suc p else p); h = p in
      if p = length uri then Overread
      else
        let q = (if uri ! p = 91 then
                   (let k = scan uri p {93} in if k < length uri then Some (Suc k) else None)
                 else Some (scan uri p {58, 47}))
        in case q of None \<Rightarrow> Reject
         | Some p \<Rightarrow>
             Step (if p < length uri then
                     (if uri ! p = 58 then P_PORT else if uri ! p = 47 then P_REST else P_HOST)
                   else P_HOST) p (r\<lparr>u_host := take (p - h) (drop h uri)\<rparr>))"

definition port_digits :: "bytes \<Rightarrow> u32 \<Rightarrow> u32" where
  "port_digits ds port = fold (\<lambda>c port. port * 10 + word_of_int (sint c - 48)) ds port"

definition step_port :: "bytes \<Rightarrow> nat \<Rightarrow> uri_parts \<Rightarrow> uri_step" where
  "step_port uri p r =
     (let p = Suc p; q = scan uri p {47} in
      Step (if q < length uri then P_REST else P_PORT) q
        (r\<lparr>u_port := port_digits (take (q - p) (drop p uri)) (u_port r)\<rparr>))"

definition step_rest :: "bytes \<Rightarrow> nat \<Rightarrow> uri_parts \<Rightarrow> uri_step" where
  "step_rest uri p r =
     (let (path, p) = parse_uri_component uri p [63, 35];
          (query, p) = (if p < length uri \<and> uri ! (p - 1) = 63
                        then parse_uri_component uri p [35] else (u_query r, p));
          (fragment, p) = parse_uri_component uri p []
      in Step P_REST p (r\<lparr>u_path := path, u_query := query, u_fragment := fragment\<rparr>))"

definition uri_step :: "bytes \<Rightarrow> uri_state \<Rightarrow> nat \<Rightarrow> uri_parts \<Rightarrow> uri_step" where
  "uri_step uri st p r =
     (case st of P_START \<Rightarrow> step_start uri p r
        | P_SCHEME_OR_PORT \<Rightarrow> step_scheme_or_port uri p r
        | P_USER_INFO \<Rightarrow> step_user_info uri p r
        | P_HOST \<Rightarrow> step_host uri p r
        | P_PORT \<Rightarrow> step_port uri p r
        | P_REST \<Rightarrow> step_rest uri p r)"

fun state_rank :: "uri_state \<Rightarrow> nat" where
  "state_rank P_START = 5"
| "state_rank P_SCHEME_OR_PORT = 4"
| "state_rank P_USER_INFO = 3"
| "state_rank P_HOST = 2"
| "state_rank P_PORT = 1"
| "state_rank P_REST = 0"

lemma scan_ge [simp]: "p \<le> scan s p stop"
  by (simp add: scan_def)

lemma scan_le: "p \<le> length s \<Longrightarrow> scan s p stop \<le> length s"
  using length_takeWhile_le [of "\<lambda>c. c \<notin> stop" "drop p s"] by (simp add: scan_def)

lemma scan_stop: "scan s p stop < length s \<Longrightarrow> s ! scan s p stop \<in> stop"
  using nth_length_takeWhile [of "\<lambda>c. c \<notin> stop" "drop p s"]
  by (cases "p \<le> length s") (auto simp: scan_def less_diff_conv add.commute)

lemma parse_uri_component_ge: "parse_uri_component s p seps = (c, q) \<Longrightarrow> p \<le> q"
  by (auto simp: parse_uri_component_def Let_def split: if_splits)

lemma parse_uri_component_end:
  assumes "p \<le> length s"
  shows "parse_uri_component s p [] = (drop p s, length s)"
proof -
  show ?thesis using assms by (simp add: parse_uri_component_def Let_def)
qed

lemma parse_uri_component_le: "parse_uri_component s p seps = (c, q) \<Longrightarrow> p \<le> length s \<Longrightarrow> q \<le> length s"
  using length_takeWhile_le [of "\<lambda>c. c \<notin> set seps" "drop p s"]
  by (auto simp: parse_uri_component_def Let_def split: if_splits)

text \<open>Every step goes on in the string or to a later state.\<close>

lemma uri_step_progress:
  assumes "uri_step uri st p r = Step st' p' r'" "p < length uri"
  shows "p' > p \<or> (p' = p \<and> state_rank st' < state_rank st)"
proof (cases st)
  case P_START
  with assms scan_stop [of uri p "{58, 47}"] scan_ge [of p uri "{58, 47}"] show ?thesis
    by (auto simp: uri_step_def step_start_def Let_def le_less split: if_splits)
next
  case P_SCHEME_OR_PORT
  with assms show ?thesis by (auto simp: uri_step_def step_scheme_or_port_def split: if_splits)
next
  case P_USER_INFO
  with assms scan_ge [of p uri "{64, 91, 47}"] show ?thesis
    by (auto simp: uri_step_def step_user_info_def Let_def le_less split: if_splits)
next
  case P_HOST
  define h where "h = (if uri ! p = 64 then Suc p else p)"
  have h: "p \<le> h" by (simp add: h_def)
  have *: "uri_step uri st p r = (if h = length uri then Overread
      else
        let q = (if uri ! h = 91 then
                   (let k = scan uri h {93} in if k < length uri then Some (Suc k) else None)
                 else Some (scan uri h {58, 47}))
        in case q of None \<Rightarrow> Reject
         | Some p \<Rightarrow>
             Step (if p < length uri then
                     (if uri ! p = 58 then P_PORT else if uri ! p = 47 then P_REST else P_HOST)
                   else P_HOST) p (r\<lparr>u_host := take (p - h) (drop h uri)\<rparr>))"
    using P_HOST by (simp add: uri_step_def step_host_def h_def Let_def)
  show ?thesis
  proof (cases "uri ! h = 91")
    case True
    have "p < Suc (scan uri h {93})" using h scan_ge [of h uri "{93}"] by linarith
    with True * assms show ?thesis by (auto simp: Let_def split: if_splits)
  next
    case False
    with * assms h scan_ge [of h uri "{58, 47}"] scan_stop [of uri h "{58, 47}"] P_HOST show ?thesis
      by (auto simp: Let_def le_less split: if_splits)
  qed
next
  case P_PORT
  with assms scan_ge [of "Suc p" uri "{47}"] show ?thesis
    by (auto simp: uri_step_def step_port_def Let_def le_less split: if_splits)
next
  case P_REST
  obtain c1 q1 where 1: "parse_uri_component uri p [63, 35] = (c1, q1)" by fastforce
  obtain c2 q2 where 2: "parse_uri_component uri q1 [35] = (c2, q2)" by fastforce
  have "q1 \<le> length uri" "q2 \<le> length uri"
    using parse_uri_component_le [OF 1] parse_uri_component_le [OF 2] assms(2) by auto
  with P_REST assms 1 2 show ?thesis
    by (auto simp: uri_step_def step_rest_def parse_uri_component_end split: if_splits)
qed

text \<open>The result of the parser: the parts, a rejection (-1), or a read behind the end.\<close>

datatype uri_result = Parsed uri_parts | Rejected | Fault

function parse_uri_loop :: "bytes \<Rightarrow> uri_state \<Rightarrow> nat \<Rightarrow> uri_parts \<Rightarrow> uri_result" where
  "parse_uri_loop uri st p r =
     (if p < length uri then
        (case uri_step uri st p r of
           Step st p r \<Rightarrow> parse_uri_loop uri st p r
         | Reject \<Rightarrow> Rejected
         | Overread \<Rightarrow> Fault)
      else Parsed r)"
  by pat_completeness auto
termination
  by (relation "measures [\<lambda>(uri, st, p, r). length uri - p, \<lambda>(uri, st, p, r). state_rank st]")
    (auto dest: uri_step_progress)

declare parse_uri_loop.simps [simp del]

definition mg_parse_uri :: "bytes \<Rightarrow> uri_result" where
  "mg_parse_uri uri = parse_uri_loop uri P_START 0 no_parts"


subsection \<open>Normalisation\<close>

text \<open>Back to the previous slash, never past the first one.\<close>

definition uri_backtrack :: "bytes \<Rightarrow> bytes" where
  "uri_backtrack d =
     (let d = (if length d > 1 \<and> last d = 47 then butlast d else d)
      in rev (dropWhile (\<lambda>c. c \<noteq> 47) (rev d)))"

lemma parse_uri_component_gt: "p < length s \<Longrightarrow> parse_uri_component s p seps = (c, q) \<Longrightarrow> p < q"
  using length_takeWhile_le [of "\<lambda>c. c \<notin> set seps" "drop p s"]
  by (auto simp: parse_uri_component_def Let_def split: if_splits)

lemma parse_uri_component_snd: "p < length s \<Longrightarrow> p < snd (parse_uri_component s p seps)"
  using parse_uri_component_gt [of p s seps] by (metis prod.collapse)

function normalize_loop :: "bytes \<Rightarrow> nat \<Rightarrow> bytes \<Rightarrow> bytes" where
  "normalize_loop s p d =
     (if p < length s then
        (let component = fst (parse_uri_component s p [47]); next = snd (parse_uri_component s p [47]) in
         if mg_vcmp component (cstr ''.'') = 0 then normalize_loop s next d
         else if mg_vcmp component (cstr ''..'') = 0 then normalize_loop s next (uri_backtrack d)
         else normalize_loop s next (d @ take (next - p) (drop p s)))
      else d)"
  by pat_completeness auto
termination
  by (relation "measure (\<lambda>(s, p, d). length s - p)") (auto simp: parse_uri_component_snd diff_less_mono2)

declare normalize_loop.simps [simp del]

definition mg_normalize_uri_path :: "bytes \<Rightarrow> bytes option" where
  "mg_normalize_uri_path s =
     (if s = [] \<or> hd s \<noteq> 47 then None
      else let d = normalize_loop s 0 [] in Some (if d = [] then [47] else d))"

subsection \<open>Assembling\<close>

definition mg_assemble_uri :: "uri_parts \<Rightarrow> bool \<Rightarrow> bytes option" where
  "mg_assemble_uri u normalize_path = do {
     let scheme = (if u_scheme u \<noteq> [] then u_scheme u @ cstr ''://'' else []);
     let user_info = (if u_user_info u \<noteq> [] then u_user_info u @ cstr ''@'' else []);
     let port = (if u_port u \<noteq> 0 then cstr ('':'' @ dec_nat (unat (u_port u))) else []);
     path \<leftarrow> (if u_path u \<noteq> [] then (if normalize_path then mg_normalize_uri_path (u_path u) else Some (u_path u))
             else Some (if normalize_path then cstr ''/'' else []));
     let query = (if u_query u \<noteq> [] then cstr ''?'' @ u_query u else []);
     let fragment = (if u_fragment u \<noteq> [] then cstr ''#'' @ u_fragment u else []);
     Some (scheme @ user_info @ u_host u @ port @ path @ query @ fragment) }"

subsection \<open>What normalisation leaves\<close>

definition dots :: "bytes set" where
  "dots = {[46], [46, 46]}"

lemma dot_tests:
  "mg_vcmp c (cstr ''.'') = 0 \<longleftrightarrow> c = [46]" "mg_vcmp c (cstr ''..'') = 0 \<longleftrightarrow> c = [46, 46]"
  by (simp_all add: mg_vcmp_eq)

definition pieces :: "bytes list \<Rightarrow> bytes" where
  "pieces cs = concat (map (\<lambda>c. c @ [47]) cs)"

definition good_segs :: "bytes list \<Rightarrow> bool" where
  "good_segs cs \<longleftrightarrow> (\<forall>c \<in> set cs. 47 \<notin> set c \<and> c \<notin> dots)"

lemma pieces_simps [simp]: "pieces [] = []" "pieces (c # cs) = c @ 47 # pieces cs" "pieces (cs @ ds) = pieces cs @ pieces ds"
  by (simp_all add: pieces_def)

lemma pieces_last: "cs \<noteq> [] \<Longrightarrow> pieces cs \<noteq> [] \<and> last (pieces cs) = 47"
  by (induction cs rule: rev_induct) auto

lemma dropWhile_rev_pieces:
  assumes "47 \<notin> set c" "cs \<noteq> []"
  shows "rev (dropWhile (\<lambda>x. x \<noteq> 47) (rev (pieces cs @ c))) = pieces cs"
proof -
  obtain xs where xs: "pieces cs = xs @ [47]" using pieces_last [OF assms(2)] by (metis append_butlast_last_id)
  have "dropWhile (\<lambda>x. x \<noteq> 47) (rev c @ 47 # ys) = 47 # ys" for ys
    using assms(1) by (subst dropWhile_append2) auto
  with xs show ?thesis by simp
qed

lemma uri_backtrack_pieces:
  assumes "good_segs cs" "cs \<noteq> []" "hd cs = []"
  shows "\<exists>ds. uri_backtrack (pieces cs) = pieces ds \<and> good_segs ds \<and> ds \<noteq> [] \<and> hd ds = []"
proof (cases "cs = [[]]")
  case True
  then have "uri_backtrack (pieces cs) = pieces cs" by (simp add: uri_backtrack_def)
  with assms show ?thesis by blast
next
  case False
  obtain ds c where cs: "cs = ds @ [c]" using assms(2) by (metis append_butlast_last_id)
  with False assms(3) have ds: "ds \<noteq> []" "hd ds = []" by (cases ds; auto)+
  have len: "length (pieces cs) > 1" using cs ds by (cases ds) auto
  have "butlast (pieces cs) = pieces ds @ c" by (simp add: cs butlast_append)
  then have "uri_backtrack (pieces cs) = pieces ds"
    using len pieces_last [OF assms(2)] dropWhile_rev_pieces [of c ds] assms(1) ds
    by (simp add: uri_backtrack_def Let_def cs good_segs_def)
  then show ?thesis using assms(1) cs ds by (auto simp: good_segs_def)
qed

lemma normalize_loop_spec:
  assumes "good_segs cs" "cs \<noteq> []" "hd cs = []" "length (pieces cs) \<le> p" "p \<le> length s"
  shows "\<exists>ds l. normalize_loop s p (pieces cs) = pieces ds @ l \<and> good_segs (l # ds) \<and> ds \<noteq> [] \<and> hd ds = [] \<and>
    length (pieces ds @ l) \<le> length s"
  using assms
proof (induction "length s - p" arbitrary: p cs rule: less_induct)
  case less
  show ?case
  proof (cases "p < length s")
    case False
    then have "normalize_loop s p (pieces cs) = pieces cs @ []" by (subst normalize_loop.simps) simp
    moreover have "good_segs ([] # cs)" using less.prems(1) by (auto simp: good_segs_def dots_def)
    ultimately show ?thesis using less.prems by (metis append_Nil2 le_trans)
  next
    case True
    obtain comp q where pc: "parse_uri_component s p [47] = (comp, q)" by fastforce
    have comp: "comp = takeWhile (\<lambda>c. c \<noteq> 47) (drop p s)" using pc by (auto simp: parse_uri_component_def Let_def)
    have q: "p < q" "q \<le> length s" using parse_uri_component_gt [OF True pc] parse_uri_component_le [OF pc] True by auto
    have ns: "47 \<notin> set comp" using comp by (auto dest: set_takeWhileD)
    note IH = less.hyps [OF _ _ _ _ _ q(2)]
    have sm: "length s - q < length s - p" using q True by simp
    show ?thesis
    proof (cases "comp \<in> dots")
      case True
      then consider "comp = [46]" | "comp = [46, 46]" by (auto simp: dots_def)
      then show ?thesis
      proof cases
        case 1
        then have "normalize_loop s p (pieces cs) = normalize_loop s q (pieces cs)"
          using \<open>p < length s\<close> pc by (subst normalize_loop.simps) (simp only: dot_tests, simp)
        with IH [OF sm less.prems(1-3)] less.prems(4) q show ?thesis by simp
      next
        case 2
        obtain ds where ds: "uri_backtrack (pieces cs) = pieces ds" "good_segs ds" "ds \<noteq> []" "hd ds = []"
          using uri_backtrack_pieces less.prems by blast
        have "length (pieces ds) \<le> length (pieces cs)" unfolding ds(1) [symmetric] uri_backtrack_def
          by (auto simp: Let_def intro: order_trans [OF length_dropWhile_le])
        moreover have "normalize_loop s p (pieces cs) = normalize_loop s q (pieces ds)"
          using \<open>p < length s\<close> pc 2 ds(1) by (subst normalize_loop.simps) (simp only: dot_tests, simp)
        ultimately show ?thesis using IH [OF sm ds(2-4)] less.prems(4) q by simp
      qed
    next
      case False
      then have step: "normalize_loop s p (pieces cs) = normalize_loop s q (pieces cs @ take (q - p) (drop p s))"
        using \<open>p < length s\<close> pc by (subst normalize_loop.simps) (simp only: dot_tests, simp add: dots_def)
      show ?thesis
      proof (cases "p + length comp < length s")
        case True
        then have "q = Suc (p + length comp)" using pc comp by (auto simp: parse_uri_component_def Let_def)
        moreover have "take (Suc (length comp)) (drop p s) = comp @ [47]"
        proof -
          have l: "length comp < length (drop p s)" using True by simp
          have "take (length comp) (drop p s) = comp" by (simp add: comp takeWhile_eq_take [symmetric])
          moreover have "drop p s ! length comp = 47" using l nth_length_takeWhile [of "\<lambda>c. c \<noteq> 47" "drop p s"] comp by auto
          ultimately show ?thesis using take_Suc_conv_app_nth [OF l] by simp
        qed
        ultimately have piece: "pieces cs @ take (q - p) (drop p s) = pieces (cs @ [comp])" by simp
        have "good_segs (cs @ [comp])" using less.prems(1) ns False by (auto simp: good_segs_def)
        from IH [OF sm this] less.prems q piece step \<open>q = _\<close> show ?thesis by auto
      next
        case False
        have c: "comp = take (length comp) (drop p s)" by (metis comp takeWhile_eq_take)
        with False have all: "comp = drop p s" by simp
        have "q = p + length comp" using pc False by (auto simp: parse_uri_component_def Let_def comp)
        moreover have "length comp = length s - p" using all by simp
        ultimately have ql: "q = length s" using \<open>p < length s\<close> by simp
        have "normalize_loop s p (pieces cs) = pieces cs @ comp"
          using step all ql by (simp add: normalize_loop.simps [of s "length s"])
        moreover have "good_segs (comp # cs)" using less.prems(1) ns \<open>comp \<notin> dots\<close> by (auto simp: good_segs_def)
        moreover have "length (pieces cs @ comp) \<le> length s" using less.prems(4) all \<open>p < length s\<close> by simp
        ultimately show ?thesis using less.prems(2,3) by blast
      qed
    qed
  qed
qed


text \<open>Normalising an absolute path gives an absolute path that is no longer than the input and whose
segments are free of "." and ".."; a path that does not start with a slash is refused.\<close>

theorem mg_normalize_uri_path_spec:
  "(mg_normalize_uri_path s = None \<longleftrightarrow> s = [] \<or> hd s \<noteq> 47) \<and>
   (\<forall>out. mg_normalize_uri_path s = Some out \<longrightarrow> length out \<le> length s \<and> hd out = 47 \<and>
     (\<exists>segs l. out = pieces segs @ l \<and> good_segs (l # segs) \<and> hd segs = [] \<and> segs \<noteq> []))"
proof (intro conjI allI impI)
  show "mg_normalize_uri_path s = None \<longleftrightarrow> s = [] \<or> hd s \<noteq> 47" by (simp add: mg_normalize_uri_path_def Let_def)
  fix out assume out: "mg_normalize_uri_path s = Some out"
  then have s: "s \<noteq> []" "hd s = 47" by (auto simp: mg_normalize_uri_path_def split: if_splits)
  then obtain t where t: "s = 47 # t" by (cases s) auto
  have "normalize_loop s 0 [] = normalize_loop s 1 (pieces [[]])"
    by (subst normalize_loop.simps) (simp add: t parse_uri_component_def dot_tests mg_vcmp_eq)
  moreover obtain ds l where d: "normalize_loop s 1 (pieces [[]]) = pieces ds @ l" "good_segs (l # ds)" "ds \<noteq> []" "hd ds = []"
    "length (pieces ds @ l) \<le> length s"
    using normalize_loop_spec [of "[[]]" 1 s] t by (auto simp: good_segs_def dots_def)
  moreover have "pieces ds \<noteq> [] \<and> hd (pieces ds @ l) = 47" using d(3,4) by (cases ds) auto
  ultimately have "out = pieces ds @ l" "hd out = 47" using out s by (auto simp: mg_normalize_uri_path_def Let_def)
  with d show "length out \<le> length s" "hd out = 47"
    "\<exists>segs l. out = pieces segs @ l \<and> good_segs (l # segs) \<and> hd segs = [] \<and> segs \<noteq> []" by auto
qed

lemma mg_normalize_uri_path_spec_witness:
  "\<exists>out. mg_normalize_uri_path (cstr ''/a/../b/./c'') = Some out \<and> length out \<le> 11 \<and> hd out = 47"
proof -
  have "mg_normalize_uri_path (cstr ''/a/../b/./c'') \<noteq> None" by (simp add: mg_normalize_uri_path_def Let_def)
  then obtain out where "mg_normalize_uri_path (cstr ''/a/../b/./c'') = Some out" by blast
  with mg_normalize_uri_path_spec [of "cstr ''/a/../b/./c''"] show ?thesis by simp
qed

subsection \<open>Reading past the end\<close>

lemma scan_hit:
  assumes "set xs \<inter> stop = {}" "y \<in> stop"
  shows "scan (us @ xs @ y # ys) (length us) stop = length us + length xs"
proof -
  have "takeWhile (\<lambda>c. c \<notin> stop) (xs @ y # ys) = xs" using assms by (subst takeWhile_append2) auto
  then show ?thesis by (simp add: scan_def)
qed

text \<open>On "scheme://user@" (nothing behind the at sign) the parser reads the byte behind the end of the
string, whatever the scheme and the user are.\<close>

lemma mg_parse_uri_overread:
  assumes "set scheme \<inter> {58, 47, 91} = {}" "set user \<inter> {64, 91, 47} = {}"
  shows "mg_parse_uri (scheme @ cstr ''://'' @ user @ cstr ''@'') = Fault"
proof -
  let ?u = "scheme @ [58, 47, 47] @ user @ [64]"
  let ?n = "length scheme"
  let ?m = "?n + 3 + length user"
  have s0: "scan ?u 0 {58, 47} = ?n" using scan_hit [of scheme "{58, 47}" 58 "[]"] assms(1) by auto
  have h0: "?u ! 0 \<noteq> 91" using assms(1) by (cases scheme) auto
  have "scan ((scheme @ [58, 47, 47]) @ user @ 64 # []) (length (scheme @ [58, 47, 47])) {64, 91, 47} =
      length (scheme @ [58, 47, 47]) + length user"
    by (rule scan_hit) (use assms(2) in auto)
  then have s1: "scan ?u (?n + 3) {64, 91, 47} = ?m" by (simp add: numeral_3_eq_3)
  have n: "?u ! ?n = 58" "?u ! ?m = 64" by (simp_all add: nth_append)
  define u where "u = ?u"
  have lu: "length u = ?m + 1" by (simp add: u_def)
  have r1: "uri_step u P_START 0 no_parts = Step P_SCHEME_OR_PORT ?n no_parts"
    using s0 h0 n by (simp add: uri_step_def step_start_def Let_def u_def)
  have r2: "uri_step u P_SCHEME_OR_PORT ?n no_parts = Step P_USER_INFO (?n + 3) (no_parts\<lparr>u_scheme := scheme\<rparr>)"
    by (simp add: uri_step_def step_scheme_or_port_def u_def)
  have r3: "\<exists>r. uri_step u P_USER_INFO (?n + 3) (no_parts\<lparr>u_scheme := scheme\<rparr>) = Step P_HOST ?m r"
    using s1 n by (simp add: uri_step_def step_user_info_def Let_def u_def)
  have r4: "uri_step u P_HOST ?m r = Overread" for r
    using n by (simp add: uri_step_def step_host_def u_def)
  from r3 obtain r where r: "uri_step u P_USER_INFO (?n + 3) (no_parts\<lparr>u_scheme := scheme\<rparr>) = Step P_HOST ?m r" ..
  have "parse_uri_loop u P_HOST ?m r = Fault" by (subst parse_uri_loop.simps) (simp add: r4 lu)
  then have "parse_uri_loop u P_USER_INFO (?n + 3) (no_parts\<lparr>u_scheme := scheme\<rparr>) = Fault"
    by (subst parse_uri_loop.simps) (simp add: r lu)
  then have "parse_uri_loop u P_SCHEME_OR_PORT ?n no_parts = Fault"
    by (subst parse_uri_loop.simps) (simp add: r2 lu)
  then have "parse_uri_loop u P_START 0 no_parts = Fault"
    by (subst parse_uri_loop.simps) (simp add: r1 lu)
  then show ?thesis by (simp add: mg_parse_uri_def u_def)
qed

lemma mg_parse_uri_overread_witness: "mg_parse_uri (cstr ''http://me@'') = Fault"
  using mg_parse_uri_overread [of "cstr ''http''" "cstr ''me''"] by simp

end
