(* ===== verification/MgWebsocket.thy ===== *)
theory MgWebsocket
  imports Prelude
begin

text \<open>
  WebSocket frames (mongoose/src/mg_http_websocket.c of 3rdLib/mongoose/mongoose.c): building and
  masking a frame, and taking frames, fragments and control frames out of the receive buffer. A
  connection is the part of \<open>mg_connection\<close> that this code uses: the bytes in the receive and
  send buffers, the length of a message being reassembled, and flags. mg_send appends to the send
  buffer; the user's event handler (\<open>mg_call\<close>) and the random mask are parameters. The
  payload of a frame is shorter than the address space, so the length argument is its length.
\<close>

text \<open>
  A message as the handler sees it: its size field, the bytes its pointer leads to (at most as many as the
  size says, and no further than the buffer), and its flags.
\<close>

record ws_msg =
  wm_data :: bytes
  wm_size :: nat
  wm_flags :: byte

record ws_conn =
  ws_recv :: bytes
  ws_send :: bytes
  ws_reass_len :: nat
  ws_no_defrag :: bool
  ws_send_and_close :: bool
  ws_listener :: bool

type_synonym ws_handler = "bool \<Rightarrow> ws_msg \<Rightarrow> ws_conn \<Rightarrow> ws_conn"

definition FLAGS_MASK_FIN :: byte where "FLAGS_MASK_FIN = 128"
definition FLAGS_MASK_OP :: byte where "FLAGS_MASK_OP = 15"
definition WEBSOCKET_OP_CONTINUE :: byte where "WEBSOCKET_OP_CONTINUE = 0"
definition WEBSOCKET_OP_CLOSE :: byte where "WEBSOCKET_OP_CLOSE = 8"
definition WEBSOCKET_OP_PING :: byte where "WEBSOCKET_OP_PING = 9"
definition WEBSOCKET_OP_PONG :: byte where "WEBSOCKET_OP_PONG = 10"
definition WEBSOCKET_DONT_FIN :: u32 where "WEBSOCKET_DONT_FIN = 0x100"

lemmas ws_consts = FLAGS_MASK_FIN_def FLAGS_MASK_OP_def WEBSOCKET_OP_CONTINUE_def WEBSOCKET_OP_CLOSE_def
  WEBSOCKET_OP_PING_def WEBSOCKET_OP_PONG_def WEBSOCKET_DONT_FIN_def

definition mg_is_ws_fragment :: "byte \<Rightarrow> bool" where
  "mg_is_ws_fragment flags \<longleftrightarrow>
     flags AND FLAGS_MASK_FIN = 0 \<or> flags AND FLAGS_MASK_OP = WEBSOCKET_OP_CONTINUE"

definition mg_is_ws_first_fragment :: "byte \<Rightarrow> bool" where
  "mg_is_ws_first_fragment flags \<longleftrightarrow>
     flags AND FLAGS_MASK_FIN = 0 \<and> flags AND FLAGS_MASK_OP \<noteq> WEBSOCKET_OP_CONTINUE"

definition mg_is_ws_control_frame :: "byte \<Rightarrow> bool" where
  "mg_is_ws_control_frame flags \<longleftrightarrow>
     (let op = flags AND FLAGS_MASK_OP in
      op = WEBSOCKET_OP_CLOSE \<or> op = WEBSOCKET_OP_PING \<or> op = WEBSOCKET_OP_PONG)"

definition mg_handle_incoming_websocket_frame :: "ws_handler \<Rightarrow> ws_msg \<Rightarrow> ws_conn \<Rightarrow> ws_conn" where
  "mg_handle_incoming_websocket_frame h wsm nc = h (wm_flags wsm AND 8 \<noteq> 0) wsm nc"

subsection \<open>Sending\<close>

definition mg_send :: "bytes \<Rightarrow> ws_conn \<Rightarrow> ws_conn" where
  "mg_send data nc = nc\<lparr>ws_send := ws_send nc @ data\<rparr>"

definition ws_first_byte :: "u32 \<Rightarrow> byte" where
  "ws_first_byte op = (if op AND WEBSOCKET_DONT_FIN \<noteq> 0 then 0 else FLAGS_MASK_FIN) OR (ucast op AND FLAGS_MASK_OP)"

text \<open>The bytes behind the first: the 7-bit length, with the mask flag of a client, and its extension.\<close>

definition ws_length_bytes :: "nat \<Rightarrow> byte \<Rightarrow> bytes" where
  "ws_length_bytes len mask_flag =
     (if len < 126 then [of_nat len OR mask_flag]
      else if len < 65535 then (126 OR mask_flag) # to_be 2 len
      else (127 OR mask_flag) # to_be 4 (len div 2 ^ 32) @ to_be 4 (len mod 2 ^ 32))"

record ws_mask_ctx =
  mc_pos :: nat
  mc_mask :: bytes

text \<open>\<open>rnd\<close> is the next random mask, as the four bytes it has in memory.\<close>

definition mg_send_ws_header :: "bytes \<Rightarrow> u32 \<Rightarrow> nat \<Rightarrow> ws_conn \<Rightarrow> ws_mask_ctx \<times> ws_conn" where
  "mg_send_ws_header rnd op len nc =
     (if \<not> ws_listener nc then
        let nc = mg_send (ws_first_byte op # ws_length_bytes len 128) nc;
            nc = mg_send rnd nc
        in (\<lparr>mc_pos = length (ws_send nc), mc_mask = rnd\<rparr>, nc)
      else
        (\<lparr>mc_pos = 0, mc_mask = rnd\<rparr>, mg_send (ws_first_byte op # ws_length_bytes len 0) nc))"

text \<open>\<open>buf[i] ^= mask[i % 4]\<close>\<close>

definition ws_xor :: "bytes \<Rightarrow> bytes \<Rightarrow> bytes" where
  "ws_xor m d = map (\<lambda>i. d ! i XOR m ! (i mod 4)) [0..<length d]"

definition mg_ws_mask_frame :: "ws_mask_ctx \<Rightarrow> ws_conn \<Rightarrow> ws_conn" where
  "mg_ws_mask_frame ctx nc =
     (if mc_pos ctx = 0 then nc
      else nc\<lparr>ws_send := take (mc_pos ctx) (ws_send nc) @ ws_xor (mc_mask ctx) (drop (mc_pos ctx) (ws_send nc))\<rparr>)"

definition ws_close_flag :: "u32 \<Rightarrow> ws_conn \<Rightarrow> ws_conn" where
  "ws_close_flag op nc = (if op = ucast WEBSOCKET_OP_CLOSE then nc\<lparr>ws_send_and_close := True\<rparr> else nc)"

definition mg_send_websocket_frame :: "bytes \<Rightarrow> u32 \<Rightarrow> bytes \<Rightarrow> ws_conn \<Rightarrow> ws_conn" where
  "mg_send_websocket_frame rnd op data nc =
     (let (ctx, nc) = mg_send_ws_header rnd op (length data) nc;
          nc = mg_send data nc
      in ws_close_flag op (mg_ws_mask_frame ctx nc))"

text \<open>The lengths are added up in an int, whose overflow is undefined.\<close>

definition mg_send_websocket_framev :: "bytes \<Rightarrow> u32 \<Rightarrow> bytes list \<Rightarrow> ws_conn \<Rightarrow> ws_conn option" where
  "mg_send_websocket_framev rnd op strv nc = do {
     let len = sum_list (map length strv);
     _ \<leftarrow> ensure (len < 2 ^ 31);
     let (ctx, nc) = mg_send_ws_header rnd op len nc;
     let nc = fold mg_send strv nc;
     Some (ws_close_flag op (mg_ws_mask_frame ctx nc)) }"

definition mg_ws_close :: "bytes \<Rightarrow> bytes \<Rightarrow> ws_conn \<Rightarrow> ws_conn" where
  "mg_ws_close rnd data nc =
     (mg_send_websocket_frame rnd (ucast WEBSOCKET_OP_CLOSE) data nc)\<lparr>ws_send_and_close := True\<rparr>"

subsection \<open>Receiving\<close>

text \<open>The lengths of mask, header and payload that the bytes at hand determine (zeros when too few).\<close>

definition ws_lengths :: "bytes \<Rightarrow> nat \<times> nat \<times> nat" where
  "ws_lengths d =
     (if length d \<ge> 2 then
        let len = d ! 1 AND 127; mask_len = (if d ! 1 AND FLAGS_MASK_FIN \<noteq> 0 then 4 else 0) in
        if len < 126 \<and> length d \<ge> mask_len then (mask_len, 2 + mask_len, unat len)
        else if len = 126 \<and> length d \<ge> 4 + mask_len then
          (mask_len, 4 + mask_len, be (take 2 (drop 2 d)))
        else if length d \<ge> 10 + mask_len then
          (mask_len, 10 + mask_len, be (take 4 (drop 2 d)) * 2 ^ 32 + be (take 4 (drop 6 d)))
        else (mask_len, 0, 0)
      else (0, 0, 0))"

text \<open>The payload in the buffer, unmasked in place.\<close>

definition ws_unmask :: "nat \<Rightarrow> nat \<Rightarrow> nat \<Rightarrow> nat \<Rightarrow> bytes \<Rightarrow> bytes" where
  "ws_unmask off mask_len header_len data_len buf =
     (if mask_len > 0 then
        take (off + header_len) buf
        @ ws_xor (take 4 (drop (off + header_len - mask_len) buf)) (take data_len (drop (off + header_len) buf))
        @ drop (off + header_len + data_len) buf
      else buf)"

text \<open>
  A fragment: it is moved up behind what is already reassembled; the last one delivers the message. The
  size of the message is an unsigned subtraction. When nothing is left in the buffer its first byte is still
  the header byte of this frame.
\<close>

definition ws_fragment :: "ws_handler \<Rightarrow> nat \<Rightarrow> byte \<Rightarrow> nat \<Rightarrow> nat \<Rightarrow> ws_conn \<Rightarrow> ws_conn" where
  "ws_fragment h off flags header_len data_len nc =
     (let first = mg_is_ws_first_fragment flags;
          dst = (if first then off + 1 else off);
          reass_len = (if first then 1 else ws_reass_len nc) + data_len;
          nc = nc\<lparr>ws_recv := take dst (ws_recv nc) @ drop (off + header_len) (ws_recv nc), ws_reass_len := reass_len\<rparr>
      in if flags AND FLAGS_MASK_FIN \<noteq> 0 then
           let size = nat ((int reass_len - 1) mod 2 ^ 64);
               op = (if ws_recv nc \<noteq> [] then ws_recv nc ! 0 else flags);
               wsm = \<lparr>wm_data = take size (drop 1 (ws_recv nc)), wm_size = size, wm_flags = FLAGS_MASK_FIN OR op\<rparr>;
               nc = mg_handle_incoming_websocket_frame h wsm (nc\<lparr>ws_reass_len := 0\<rparr>)
           in (if 0 < reass_len \<and> reass_len \<le> length (ws_recv nc) then nc\<lparr>ws_recv := drop reass_len (ws_recv nc)\<rparr> else nc)
         else nc)"

text \<open>A whole frame, possibly between fragments; control frames are answered first.\<close>

definition ws_complete :: "ws_handler \<Rightarrow> bytes \<Rightarrow> nat \<Rightarrow> byte \<Rightarrow> nat \<Rightarrow> nat \<Rightarrow> ws_conn \<Rightarrow> ws_conn" where
  "ws_complete h rnd off flags header_len data_len nc =
     (let wsm = \<lparr>wm_data = take data_len (drop (off + header_len) (ws_recv nc)), wm_size = data_len, wm_flags = flags\<rparr>;
          op = flags AND FLAGS_MASK_OP;
          nc = (if op = WEBSOCKET_OP_PING then mg_send_websocket_frame rnd (ucast WEBSOCKET_OP_PONG) (wm_data wsm) nc
                else if op = WEBSOCKET_OP_CLOSE then mg_ws_close rnd (wm_data wsm) nc
                else nc);
          nc = mg_handle_incoming_websocket_frame h wsm nc;
          r = ws_reass_len nc
      in nc\<lparr>ws_recv := take r (ws_recv nc) @ drop (r + (header_len + data_len)) (ws_recv nc)\<rparr>)"

text \<open>
  One round. The first byte behind the reassembled part is read before its presence is tested; its value
  is used only when it is there. The frame length is computed modulo \<open>2 ^ 64\<close>.
\<close>

definition mg_deliver_websocket_data :: "ws_handler \<Rightarrow> bytes \<Rightarrow> ws_conn \<Rightarrow> (bool \<times> ws_conn) option" where
  "mg_deliver_websocket_data h rnd nc = do {
     let off = ws_reass_len nc;
     _ \<leftarrow> ensure (off \<le> length (ws_recv nc));
     let d = drop off (ws_recv nc);
     let flags = (if d \<noteq> [] then d ! 0 else 0);
     let reass = (d \<noteq> [] \<and> mg_is_ws_fragment flags \<and> \<not> ws_no_defrag nc);
     Some (if reass \<and> mg_is_ws_control_frame flags then
         (False, mg_ws_close rnd (cstr ''fragmented control frames are illegal'') nc)
       else if d \<noteq> [] \<and> \<not> reass \<and> \<not> mg_is_ws_control_frame flags \<and> off > 0 then
         (False, mg_ws_close rnd (cstr ''non-continuation in the middle of a fragmented message'') nc)
       else
         let (mask_len, header_len, data_len) = ws_lengths d;
             frame_len = (header_len + data_len) mod 2 ^ 64
         in if frame_len < header_len \<or> frame_len < data_len then
              (False, mg_ws_close rnd (cstr ''overflowed message'') nc)
            else if frame_len > 0 \<and> frame_len \<le> length d then
              let nc = nc\<lparr>ws_recv := ws_unmask off mask_len header_len data_len (ws_recv nc)\<rparr>
              in (True, if reass then ws_fragment h off flags header_len data_len nc
                        else ws_complete h rnd off flags header_len data_len nc)
            else (False, nc)) }"

text \<open>The loop of the event handler: rounds until one does not find a frame.\<close>

partial_function (option) ws_recv_loop :: "ws_handler \<Rightarrow> (nat \<Rightarrow> bytes) \<Rightarrow> nat \<Rightarrow> ws_conn \<Rightarrow> ws_conn option" where
  "ws_recv_loop h rnds k nc = do {
     (ok, nc) \<leftarrow> mg_deliver_websocket_data h (rnds k) nc;
     (if ok then ws_recv_loop h rnds (Suc k) nc else Some nc) }"

subsection \<open>Masking\<close>

lemma length_ws_xor [simp]: "length (ws_xor m d) = length d"
  by (simp add: ws_xor_def)

lemma ws_xor_invol [simp]: "ws_xor m (ws_xor m d) = d"
  by (rule nth_equalityI) (simp_all add: ws_xor_def xor.assoc)

subsection \<open>What a frame is on the wire\<close>

definition ws_frame :: "bytes \<Rightarrow> u32 \<Rightarrow> bool \<Rightarrow> bytes \<Rightarrow> bytes" where
  "ws_frame rnd op client data =
     (if client then ws_first_byte op # ws_length_bytes (length data) 128 @ rnd @ ws_xor rnd data
      else ws_first_byte op # ws_length_bytes (length data) 0 @ data)"

lemma mg_send_websocket_frame_eq:
  "mg_send_websocket_frame rnd op data nc =
     ws_close_flag op (nc\<lparr>ws_send := ws_send nc @ ws_frame rnd op (\<not> ws_listener nc) data\<rparr>)"
  by (simp add: mg_send_websocket_frame_def mg_send_ws_header_def mg_send_def mg_ws_mask_frame_def ws_frame_def Let_def)

lemma masked_first:
  fixes n :: nat
  assumes "n < 128"
  shows "(of_nat n OR 128) AND (127 :: byte) = of_nat n" "(of_nat n OR 128) AND (128 :: byte) = 128"
    "of_nat n AND (127 :: byte) = of_nat n" "of_nat n AND (128 :: byte) = 0"
proof -
  have "\<forall>n \<in> set [0..<128]. (of_nat n OR 128) AND (127 :: byte) = of_nat n \<and> (of_nat n OR 128) AND (128 :: byte) = 128 \<and>
    of_nat n AND (127 :: byte) = of_nat n \<and> of_nat n AND (128 :: byte) = 0" by code_simp
  with assms show "(of_nat n OR 128) AND (127 :: byte) = of_nat n" "(of_nat n OR 128) AND (128 :: byte) = 128"
    "of_nat n AND (127 :: byte) = of_nat n" "of_nat n AND (128 :: byte) = 0" by auto
qed

text \<open>The header of a frame is everything before its payload.\<close>

definition ws_header :: "bytes \<Rightarrow> u32 \<Rightarrow> bool \<Rightarrow> nat \<Rightarrow> bytes" where
  "ws_header rnd op client n = ws_first_byte op # ws_length_bytes n (if client then 128 else 0) @ (if client then rnd else [])"

lemma ws_frame_split:
  "ws_frame rnd op client data = ws_header rnd op client (length data) @ (if client then ws_xor rnd data else data)"
  by (simp add: ws_frame_def ws_header_def)

lemma ws_lengths_frame:
  assumes "length rnd = 4" "length data < 2 ^ 64"
  shows "ws_lengths (ws_frame rnd op client data @ rest) =
    (if client then 4 else 0, length (ws_header rnd op client (length data)), length data)"
proof -
  let ?n = "length data"
  consider "?n < 126" | "126 \<le> ?n" "?n < 65535" | "65535 \<le> ?n" by linarith
  then show ?thesis
  proof cases
    case 1
    have "unat (of_nat ?n :: byte) = ?n" "(of_nat ?n :: byte) < 126" using 1 by (simp_all add: unat_of_nat word_less_nat_alt)
    with 1 assms masked_first [of ?n] show ?thesis
      by (auto simp: ws_lengths_def ws_frame_def ws_header_def ws_length_bytes_def ws_consts Let_def)
  next
    case 2
    then have "?n mod 65536 = ?n" by simp
    with 2 assms show ?thesis
      by (auto simp: ws_lengths_def ws_frame_def ws_header_def ws_length_bytes_def ws_consts Let_def)
  next
    case 3
    have e: "(?n div 2 ^ 32) mod 2 ^ 32 = ?n div 2 ^ 32" "?n div 2 ^ 32 * 2 ^ 32 + ?n mod 2 ^ 32 = ?n"
      using assms(2) by (auto simp: div_mult_mod_eq less_mult_imp_div_less)
    show ?thesis
      using 3 assms e by (auto simp: ws_lengths_def ws_frame_def ws_header_def ws_length_bytes_def ws_consts Let_def)
  qed
qed


lemma ws_unmask_frame:
  assumes "length rnd = 4"
  shows "ws_unmask (length pre) (if client then 4 else 0) (length (ws_header rnd op client (length data))) (length data)
      (pre @ ws_frame rnd op client data @ rest) = pre @ ws_header rnd op client (length data) @ data @ rest"
proof (cases client)
  case True
  obtain h where h: "ws_header rnd op client (length data) = h @ rnd" using True by (auto simp: ws_header_def)
  have f: "ws_frame rnd op client data = h @ rnd @ ws_xor rnd data" using h True by (simp add: ws_frame_split)
  show ?thesis using True assms unfolding f h by (simp add: ws_unmask_def)
qed (simp add: ws_unmask_def ws_frame_split)

text \<open>A round on a buffer that holds a whole frame behind the reassembled part.\<close>

lemma deliver_frame:
  assumes "length rnd = 4" "length (ws_frame rnd op client data) < 2 ^ 64"
    and "ws_recv nc = pre @ ws_frame rnd op client data @ rest" "ws_reass_len nc = length pre"
    and "flags = ws_first_byte op" "frag \<longleftrightarrow> mg_is_ws_fragment flags \<and> \<not> ws_no_defrag nc"
    and "hl = length (ws_header rnd op client (length data))"
    and "\<not> (frag \<and> mg_is_ws_control_frame flags)" "frag \<or> mg_is_ws_control_frame flags \<or> pre = []"
  shows "mg_deliver_websocket_data h k nc = Some (True,
      let nc = nc\<lparr>ws_recv := pre @ ws_header rnd op client (length data) @ data @ rest\<rparr> in
      if frag then ws_fragment h (length pre) flags hl (length data) nc
      else ws_complete h k (length pre) flags hl (length data) nc)"
proof -
  have split: "ws_frame rnd op client data = ws_header rnd op client (length data) @ (if client then ws_xor rnd data else data)"
    by (rule ws_frame_split)
  have len: "length (ws_frame rnd op client data) = hl + length data" using assms(7) by (simp add: split)
  have hd: "ws_frame rnd op client data @ rest \<noteq> []" "(ws_frame rnd op client data @ rest) ! 0 = flags"
    using assms(5) by (auto simp: ws_frame_def)
  have hl: "0 < hl" using assms(7) by (simp add: ws_header_def)
  have lens: "ws_lengths (ws_frame rnd op client data @ rest) = (if client then 4 else 0, hl, length data)"
    using assms(1,2,7) len by (subst ws_lengths_frame) auto
  have d: "drop (length pre) (ws_recv nc) = ws_frame rnd op client data @ rest" using assms(3) by simp
  have m: "(hl + length data) mod 2 ^ 64 = hl + length data" using assms(2) len by simp
  show ?thesis
    unfolding mg_deliver_websocket_data_def assms(4) Let_def d
    using assms(3,6,8,9) hd hl lens m len ws_unmask_frame [OF assms(1), of pre client op data rest] assms(7)
    by (simp add: Let_def split del: if_split cong: if_cong) (auto simp: Let_def)
qed

lemma first_byte_bits:
  "ws_first_byte op AND 128 = (if op AND 0x100 \<noteq> 0 then 0 else 128)"
  "ws_first_byte op AND 15 = ucast op AND 15"
proof -
  have "(ucast op AND 15) AND (128 :: byte) = 0" by (simp add: and.assoc)
  then show "ws_first_byte op AND 128 = (if op AND 0x100 \<noteq> 0 then 0 else 128)"
    by (auto simp: ws_first_byte_def ws_consts word_ao_dist)
  show "ws_first_byte op AND 15 = ucast op AND 15"
    by (auto simp: ws_first_byte_def ws_consts word_ao_dist and.assoc)
qed

definition ws_quiet :: "ws_handler \<Rightarrow> bool" where
  "ws_quiet h \<longleftrightarrow> (\<forall>b m nc. ws_recv (h b m nc) = ws_recv nc \<and> ws_reass_len (h b m nc) = ws_reass_len nc \<and>
     ws_no_defrag (h b m nc) = ws_no_defrag nc)"


lemma first_bytes:
  "ws_first_byte 0x100 = 0" "ws_first_byte 0 = 128" "ws_first_byte 1 = 129" "ws_first_byte 2 = 130"
  "ws_first_byte (1 OR 0x100) = 1" "ws_first_byte (2 OR 0x100) = 2"
  by code_simp+

lemma frame_kinds:
  "mg_is_ws_fragment 0" "mg_is_ws_fragment 128" "mg_is_ws_fragment 1" "mg_is_ws_fragment 2"
  "\<not> mg_is_ws_fragment 129" "\<not> mg_is_ws_fragment 130"
  "\<not> mg_is_ws_first_fragment 0" "\<not> mg_is_ws_first_fragment 128" "mg_is_ws_first_fragment 1" "mg_is_ws_first_fragment 2"
  "\<not> mg_is_ws_control_frame 0" "\<not> mg_is_ws_control_frame 128" "\<not> mg_is_ws_control_frame 1" "\<not> mg_is_ws_control_frame 2"
  "\<not> mg_is_ws_control_frame 129" "\<not> mg_is_ws_control_frame 130"
  by code_simp+

text \<open>The fragments of one message: the first carries the operation, the last the FIN flag.\<close>

lemma deliver_first_fragment:
  assumes "length m = 4" "length (ws_frame m (op OR 0x100) c d) < 2 ^ 64" "op = 1 \<or> op = 2" "\<not> ws_no_defrag nc"
    and "ws_recv nc = ws_frame m (op OR 0x100) c d @ rest" "ws_reass_len nc = 0"
  shows "mg_deliver_websocket_data h k nc =
    Some (True, nc\<lparr>ws_recv := ucast op # d @ rest, ws_reass_len := 1 + length d\<rparr>)"
proof -
  have f: "ws_first_byte (op OR 0x100) = ucast op" "mg_is_ws_fragment (ucast op)" "mg_is_ws_first_fragment (ucast op)"
    "\<not> mg_is_ws_control_frame (ucast op)" "ucast op AND (128 :: byte) = 0"
    using assms(3) first_bytes frame_kinds by auto
  obtain t where t: "ws_header m (op OR 0x100) c (length d) = ucast op # t" using f by (simp add: ws_header_def)
  show ?thesis
    using assms f t
    by (subst deliver_frame [where pre = "[]" and rest = rest, OF assms(1,2) _ _ refl refl refl])
      (auto simp: ws_fragment_def FLAGS_MASK_FIN_def Let_def)
qed

lemma deliver_middle_fragment:
  assumes "length m = 4" "length (ws_frame m 0x100 c d) < 2 ^ 64" "\<not> ws_no_defrag nc"
    and "ws_recv nc = pre @ ws_frame m 0x100 c d @ rest" "ws_reass_len nc = length pre"
  shows "mg_deliver_websocket_data h k nc =
    Some (True, nc\<lparr>ws_recv := pre @ d @ rest, ws_reass_len := length (pre @ d)\<rparr>)"
  using assms frame_kinds
  by (subst deliver_frame [where pre = pre and rest = rest, OF assms(1,2) _ _ refl refl refl])
    (auto simp: ws_fragment_def FLAGS_MASK_FIN_def Let_def first_bytes)

lemma deliver_last_fragment:
  assumes "length m = 4" "length (ws_frame m 0 c d) < 2 ^ 64" "\<not> ws_no_defrag nc" "ws_quiet h"
    and "ws_recv nc = (b # acc) @ ws_frame m 0 c d @ rest" "ws_reass_len nc = length (b # acc)"
    and "length (acc @ d) < 2 ^ 64"
  shows "mg_deliver_websocket_data h k nc = Some (True,
     let nc1 = nc\<lparr>ws_recv := b # acc @ d @ rest, ws_reass_len := 0\<rparr> in
     (mg_handle_incoming_websocket_frame h \<lparr>wm_data = acc @ d, wm_size = length (acc @ d), wm_flags = 128 OR b\<rparr> nc1)
       \<lparr>ws_recv := rest\<rparr>)"
proof -
  have size: "nat ((int (Suc (length acc) + length d) - 1) mod 2 ^ 64) = length (acc @ d)"
    using assms(7) by (simp add: nat_mod_distrib)
  have q: "ws_recv (h x y z) = ws_recv z" for x y z using assms(4) by (simp add: ws_quiet_def)
  show ?thesis
    using assms frame_kinds size q
    by (subst deliver_frame [where pre = "b # acc" and rest = rest, OF assms(1,2) _ _ refl refl refl])
      (auto simp: ws_fragment_def FLAGS_MASK_FIN_def Let_def first_bytes mg_handle_incoming_websocket_frame_def)
qed



lemma deliver_empty: "ws_recv nc = [] \<Longrightarrow> ws_reass_len nc = 0 \<Longrightarrow> mg_deliver_websocket_data h k nc = Some (False, nc)"
  by (simp add: mg_deliver_websocket_data_def ws_lengths_def)

lemma recv_loop_middle:
  assumes "\<forall>(m, d) \<in> set mids. length m = 4 \<and> length (ws_frame m 0x100 c d) < 2 ^ 64" "\<not> ws_no_defrag nc"
    and "ws_recv nc = pre @ concat (map (\<lambda>(m, d). ws_frame m 0x100 c d) mids) @ rest" "ws_reass_len nc = length pre"
  shows "\<exists>k'. ws_recv_loop h rnds k nc = ws_recv_loop h rnds k'
     (nc\<lparr>ws_recv := pre @ concat (map snd mids) @ rest, ws_reass_len := length (pre @ concat (map snd mids))\<rparr>)"
  using assms
proof (induction mids arbitrary: nc pre k)
  case Nil
  then have "nc\<lparr>ws_recv := pre @ rest, ws_reass_len := length pre\<rparr> = nc" by simp
  then show ?case by (metis append_Nil append_Nil2 concat.simps(1) list.simps(8))
next
  case (Cons x mids)
  obtain m d where x: "x = (m, d)" by fastforce
  let ?nc = "nc\<lparr>ws_recv := pre @ d @ concat (map (\<lambda>(m, d). ws_frame m 0x100 c d) mids) @ rest, ws_reass_len := length (pre @ d)\<rparr>"
  have "mg_deliver_websocket_data h (rnds k) nc = Some (True, ?nc)"
    using Cons.prems x by (intro deliver_middle_fragment) auto
  then have "ws_recv_loop h rnds k nc = ws_recv_loop h rnds (Suc k) ?nc"
    by (subst ws_recv_loop.simps) simp
  moreover from Cons.IH [of ?nc "pre @ d" "Suc k"] Cons.prems obtain k' where
    "ws_recv_loop h rnds (Suc k) ?nc = ws_recv_loop h rnds k' (?nc\<lparr>ws_recv := (pre @ d) @ concat (map snd mids) @ rest,
       ws_reass_len := length ((pre @ d) @ concat (map snd mids))\<rparr>)" by auto
  ultimately show ?case using x by auto
qed

text \<open>C31: A message sent in any number of fragments is reassembled: the receive loop ends, the handler is called
with the concatenation of all payloads, its exact size and the operation of the first fragment, and nothing is left
in the buffer.\<close>

theorem ws_reassembly:
  assumes "op = 1 \<or> op = 2" "ws_quiet h" "\<not> ws_no_defrag nc" "ws_reass_len nc = 0"
    and "\<forall>(m, d) \<in> set ((m0, d0) # mids @ [(ml, dl)]). length m = 4 \<and> length d < 2 ^ 63"
    and "length (d0 @ concat (map snd mids) @ dl) < 2 ^ 64"
    and "ws_recv nc = ws_frame m0 (op OR 0x100) c d0 @ concat (map (\<lambda>(m, d). ws_frame m 0x100 c d) mids) @ ws_frame ml 0 c dl"
  shows "\<exists>nc1. ws_recv_loop h rnds k nc = Some ((h False \<lparr>wm_data = d0 @ concat (map snd mids) @ dl,
       wm_size = length (d0 @ concat (map snd mids) @ dl), wm_flags = 128 OR ucast op\<rparr> nc1)\<lparr>ws_recv := []\<rparr>) \<and>
     nc1\<lparr>ws_recv := []\<rparr> = nc\<lparr>ws_recv := []\<rparr>"
proof -
  have fl: "length (ws_frame m x c d) < 2 ^ 64" if "length m = 4" "length d < 2 ^ 63" for m x d
    using that by (auto simp: ws_frame_def ws_length_bytes_def)
  let ?mid = "concat (map (\<lambda>(m, d). ws_frame m 0x100 c d) mids)" and ?acc = "d0 @ concat (map snd mids)"
  let ?n1 = "nc\<lparr>ws_recv := ucast op # d0 @ ?mid @ ws_frame ml 0 c dl, ws_reass_len := 1 + length d0\<rparr>"
  have 1: "mg_deliver_websocket_data h (rnds k) nc = Some (True, ?n1)"
    using assms fl by (intro deliver_first_fragment) auto
  then have run1: "ws_recv_loop h rnds k nc = ws_recv_loop h rnds (Suc k) ?n1" by (subst ws_recv_loop.simps) simp
  let ?n2 = "nc\<lparr>ws_recv := (ucast op # ?acc) @ ws_frame ml 0 c dl, ws_reass_len := length (ucast op # ?acc)\<rparr>"
  from recv_loop_middle [of mids c ?n1 "ucast op # d0" "ws_frame ml 0 c dl" h rnds "Suc k"] assms(3,5) fl
  obtain k' where run2: "ws_recv_loop h rnds (Suc k) ?n1 = ws_recv_loop h rnds k' ?n2" by fastforce
  let ?nc1 = "nc\<lparr>ws_recv := ucast op # ?acc @ dl, ws_reass_len := 0\<rparr>"
  let ?msg = "\<lparr>wm_data = ?acc @ dl, wm_size = length (?acc @ dl), wm_flags = 128 OR ucast op\<rparr>"
  have f8: "(128 OR ucast op) AND (8 :: byte) = 0" using assms(1) by auto
  have 3: "mg_deliver_websocket_data h (rnds k') ?n2 = Some (True, (h False ?msg ?nc1)\<lparr>ws_recv := []\<rparr>)"
    using assms fl f8
    by (subst deliver_last_fragment [where b = "ucast op" and acc = ?acc and rest = "[]" and d = dl and m = ml and c = c])
      (auto simp: mg_handle_incoming_websocket_frame_def Let_def)
  have q: "ws_reass_len (h x y z) = ws_reass_len z" for x y z using assms(2) by (simp add: ws_quiet_def)
  have "mg_deliver_websocket_data h r ((h False ?msg ?nc1)\<lparr>ws_recv := []\<rparr>) = Some (False, (h False ?msg ?nc1)\<lparr>ws_recv := []\<rparr>)" for r
    by (rule deliver_empty) (simp_all add: q)
  then have "ws_recv_loop h rnds (Suc k') ((h False ?msg ?nc1)\<lparr>ws_recv := []\<rparr>) = Some ((h False ?msg ?nc1)\<lparr>ws_recv := []\<rparr>)"
    by (subst ws_recv_loop.simps) simp
  with 3 have run3: "ws_recv_loop h rnds k' ?n2 = Some ((h False ?msg ?nc1)\<lparr>ws_recv := []\<rparr>)"
    by (subst ws_recv_loop.simps) simp
  show ?thesis using run1 run2 run3 assms(4) by (intro exI [of _ ?nc1]) simp
qed

text \<open>A final continuation frame without payload, out of the blue, makes the handler believe in a message of
2^64 - 1 bytes: the size is an unsigned 0 - 1.\<close>

theorem ws_lone_continuation_size:
  assumes "length rnd = 4" "ws_recv nc = ws_frame rnd 0 c []" "ws_reass_len nc = 0" "\<not> ws_no_defrag nc"
  shows "\<exists>nc1 nc2. mg_deliver_websocket_data h k nc = Some (True, nc2) \<and>
    nc2 = h False \<lparr>wm_data = [], wm_size = 2 ^ 64 - 1, wm_flags = 128\<rparr> nc1"
proof -
  have l: "length (ws_frame rnd 0 c []) < 2 ^ 64" using assms(1) by (simp add: ws_frame_def ws_length_bytes_def)
  have "nat ((- 1 :: int) mod 2 ^ 64) = 2 ^ 64 - 1" by simp
  with assms frame_kinds show ?thesis
    by (subst deliver_frame [where pre = "[]" and rest = "[]", OF assms(1) l _ _ refl refl refl])
      (auto simp: ws_fragment_def FLAGS_MASK_FIN_def Let_def first_bytes mg_handle_incoming_websocket_frame_def)
qed

text \<open>An echoing server, and connections of a client and a server.\<close>

definition ws_echo :: ws_handler where
  "ws_echo control wsm nc = (if control then nc else mg_send_websocket_frame [] (ucast (wm_flags wsm AND 15)) (wm_data wsm) nc)"

definition ws_conn0 :: "bool \<Rightarrow> bytes \<Rightarrow> ws_conn" where
  "ws_conn0 listener recv = \<lparr>ws_recv = recv, ws_send = [], ws_reass_len = 0, ws_no_defrag = False,
     ws_send_and_close = False, ws_listener = listener\<rparr>"

lemma ws_echo_quiet: "ws_quiet ws_echo"
  by (simp add: ws_quiet_def ws_echo_def mg_send_websocket_frame_eq ws_close_flag_def)


lemma ws_reassembly_witness:
  "\<exists>nc'. ws_recv_loop ws_echo (\<lambda>_. []) 0 (ws_conn0 True (ws_frame [9, 8, 7, 6] (1 OR 0x100) True [72] @
      ws_frame [1, 1, 2, 2] 0x100 True [101, 121] @ ws_frame [0, 0, 0, 1] 0 True [33])) = Some nc' \<and> ws_recv nc' = []"
proof -
  let ?nc = "ws_conn0 True (ws_frame [9, 8, 7, 6] (1 OR 0x100) True [72] @
      concat (map (\<lambda>(m, d). ws_frame m 0x100 True d) [([1, 1, 2, 2], [101, 121])]) @ ws_frame [0, 0, 0, 1] 0 True [33])"
  have z: "\<not> ws_no_defrag ?nc" "ws_reass_len ?nc = 0" by (simp_all add: ws_conn0_def)
  have r: "ws_recv ?nc = ws_frame [9, 8, 7, 6] (1 OR 0x100) True [72] @
      concat (map (\<lambda>(m, d). ws_frame m 0x100 True d) [([1, 1, 2, 2], [101, 121])]) @ ws_frame [0, 0, 0, 1] 0 True [33]"
    by (simp add: ws_conn0_def)
  from ws_reassembly [OF _ ws_echo_quiet z _ _ r, of "\<lambda>_. []" 0] show ?thesis by fastforce
qed

lemma ws_lone_continuation_size_witness:
  "\<exists>nc1 nc2. mg_deliver_websocket_data ws_echo [] (ws_conn0 True (ws_frame [1, 2, 3, 4] 0 True [])) = Some (True, nc2) \<and>
    nc2 = ws_echo False \<lparr>wm_data = [], wm_size = 2 ^ 64 - 1, wm_flags = 128\<rparr> nc1"
proof -
  let ?nc = "ws_conn0 True (ws_frame [1, 2, 3, 4] 0 True [])"
  have "ws_recv ?nc = ws_frame [1, 2, 3, 4] 0 True []" "ws_reass_len ?nc = 0" "\<not> ws_no_defrag ?nc"
    by (simp_all add: ws_conn0_def)
  from ws_lone_continuation_size [OF _ this] show ?thesis by simp
qed

text \<open>What the length fields say of an incomplete frame: nothing yet, or the true lengths.\<close>

lemma ws_lengths_partial:
  assumes "length rnd = 4" "length data < 2 ^ 64" "n < length (ws_frame rnd op client data)"
  shows "\<exists>ml hl dl. ws_lengths (take n (ws_frame rnd op client data)) = (ml, hl, dl) \<and>
    (hl = 0 \<and> dl = 0 \<or> hl = length (ws_header rnd op client (length data)) \<and> dl = length data)"
proof -
  let ?n = "length data"
  have t: "take 2 (drop 2 (take n xs)) = take 2 (drop 2 xs)" if "4 \<le> n" for xs :: bytes
    using that by (simp add: take_drop min_def)
  have t4: "take 4 (drop 2 (take n xs)) = take 4 (drop 2 xs)" "take 4 (drop 6 (take n xs)) = take 4 (drop 6 xs)"
    if "10 \<le> n" for xs :: bytes
    using that by (simp_all add: take_drop min_def)
  have ln: "length (take n (ws_frame rnd op client data)) = n" using assms(3) by simp
  have first: "take n (ws_frame rnd op client data) ! 1 = ws_frame rnd op client data ! 1" if "2 \<le> n" using that by simp
  have full: "ws_lengths (ws_frame rnd op client data) =
      (if client then 4 else 0, length (ws_header rnd op client ?n), ?n)"
    using ws_lengths_frame [OF assms(1,2), of op client "[]"] by simp
  have ge: "length (take n (ws_frame rnd op client data)) \<le> length (ws_frame rnd op client data)" by simp
  show ?thesis
    using full t [of "ws_frame rnd op client data"] t4 [of "ws_frame rnd op client data"] first assms(3)
    unfolding ws_lengths_def ln
    by (auto simp: Let_def split: if_splits)
qed

text \<open>As long as a text or binary frame is not complete, a round changes nothing and calls nobody: the
receiver waits for the rest.\<close>

theorem ws_partial_frame_waits:
  assumes "length rnd = 4" "length (ws_frame rnd op client data) < 2 ^ 64" "op = 1 \<or> op = 2"
    and "ws_recv nc = take n (ws_frame rnd op client data)" "n < length (ws_frame rnd op client data)" "ws_reass_len nc = 0"
  shows "mg_deliver_websocket_data h k nc = Some (False, nc)"
proof -
  let ?f = "ws_frame rnd op client data"
  have len: "length ?f = length (ws_header rnd op client (length data)) + length data" by (simp add: ws_frame_split)
  obtain ml hl dl where l: "ws_lengths (take n ?f) = (ml, hl, dl)"
    "hl = 0 \<and> dl = 0 \<or> hl = length (ws_header rnd op client (length data)) \<and> dl = length data"
    using ws_lengths_partial [OF assms(1) _ assms(5)] assms(2) len by fastforce
  have m: "(hl + dl) mod 2 ^ 64 = hl + dl" using l(2) len assms(2) by auto
  have n: "\<not> (0 < hl + dl \<and> hl + dl \<le> n)" using l(2) len assms(5) by auto
  have f: "?f ! 0 = ws_first_byte op" by (simp add: ws_frame_def)
  have nf: "\<not> mg_is_ws_fragment (ws_first_byte op)" using assms(3) first_bytes frame_kinds by auto
  have ln: "length (take n ?f) = n" using assms(5) by simp
  show ?thesis
    using assms(4,6) l(1) m n f nf ln
    by (auto simp: mg_deliver_websocket_data_def Let_def)
qed

lemma ws_partial_frame_waits_witness:
  "mg_deliver_websocket_data ws_echo [] (ws_conn0 True (take 4 (ws_frame [1, 2, 3, 4] 1 True [5, 6, 7]))) =
     Some (False, ws_conn0 True (take 4 (ws_frame [1, 2, 3, 4] 1 True [5, 6, 7])))"
  by (rule ws_partial_frame_waits [where rnd = "[1, 2, 3, 4]" and op = 1 and n = 4 and data = "[5, 6, 7]" and client = True])
    (simp_all add: ws_conn0_def ws_frame_def ws_length_bytes_def)

end
