(* ===== verification/MgHttp.thy ===== *)
theory MgHttp
  imports MgStr
begin

text \<open>
  Parsing of HTTP messages (mongoose/src/mg_http.c of 3rdLib/mongoose/mongoose.c): when the header is
  complete, the request and response lines, the headers, and the lookup of a header. The
  strings of a message point into the receive buffer: a reference is a position and a length,
  \<open>None\<close> is the null pointer that memset leaves. The buffer is shorter than \<open>2 ^ 31\<close> (its
  length is passed as an int).
\<close>

type_synonym mg_ref = "nat \<times> nat"

definition ref_str :: "bytes \<Rightarrow> mg_ref \<Rightarrow> bytes" where
  "ref_str buf r = take (snd r) (drop (fst r) buf)"

record http_message =
  hm_message_len :: u64
  hm_body_pos :: nat
  hm_body_len :: u64
  hm_method :: "mg_ref option"
  hm_uri :: "mg_ref option"
  hm_proto :: "mg_ref option"
  hm_resp_code :: int
  hm_resp_status_msg :: "mg_ref option"
  hm_query_string :: "mg_ref option"
  hm_headers :: "(mg_ref \<times> mg_ref) list"

definition crlf :: bytes where "crlf = [13, 10]"

definition MG_MAX_HTTP_HEADERS :: nat where "MG_MAX_HTTP_HEADERS = 40"

subsection \<open>Is the header complete?\<close>

fun request_len_from :: "bytes \<Rightarrow> nat \<Rightarrow> int" where
  "request_len_from [] i = 0"
| "request_len_from (c # s) i =
     (if \<not> isprint c \<and> c \<noteq> 13 \<and> c \<noteq> 10 \<and> c < 128 then -1
      else if c = 10 \<and> s \<noteq> [] \<and> s ! 0 = 10 then int i + 2
      else if c = 10 \<and> length s > 1 \<and> s ! 0 = 13 \<and> s ! 1 = 10 then int i + 3
      else request_len_from s (Suc i))"

definition mg_http_get_request_len :: "bytes \<Rightarrow> int" where
  "mg_http_get_request_len buf = request_len_from buf 0"

subsection \<open>Tokens\<close>

text \<open>strchr finds the terminating zero of the delimiters too.\<close>

definition mg_skip :: "bytes \<Rightarrow> nat \<Rightarrow> nat \<Rightarrow> bytes \<Rightarrow> mg_ref \<times> nat" where
  "mg_skip buf s end delims =
     (let len = length (takeWhile (\<lambda>c. c \<notin> set (delims @ [0])) (take (end - s) (drop s buf)));
          t = s + len
      in ((s, len), t + length (takeWhile (\<lambda>c. c \<in> set (delims @ [0])) (take (end - t) (drop t buf)))))"

text \<open>\<open>while (v->len > 0 && v->p[v->len - 1] == ' ') v->len--\<close>\<close>

definition trim_value :: "bytes \<Rightarrow> mg_ref \<Rightarrow> mg_ref" where
  "trim_value buf v = (fst v, length (dropWhile (\<lambda>c. c = 32) (rev (ref_str buf v))))"

lemma mg_skip_fst: "fst (fst (mg_skip buf s end d)) = s"
  by (simp add: mg_skip_def Let_def)

lemma mg_skip_ge: "s + snd (fst (mg_skip buf s end d)) \<le> snd (mg_skip buf s end d)"
  by (simp add: mg_skip_def Let_def)

lemma length_takeWhile_take: "length (takeWhile P (take (e - s) xs)) \<le> e - s"
  using length_takeWhile_le [of P "take (e - s) xs"] by simp

lemma mg_skip_le: "s \<le> end \<Longrightarrow> snd (mg_skip buf s end d) \<le> end"
proof -
  assume s: "s \<le> end"
  define t where "t = s + length (takeWhile (\<lambda>c. c \<notin> set (d @ [0])) (take (end - s) (drop s buf)))"
  have "t \<le> end" using s length_takeWhile_take [of "\<lambda>c. c \<notin> set (d @ [0])" "end" s "drop s buf"] by (simp add: t_def)
  moreover have "snd (mg_skip buf s end d) \<le> t + (end - t)"
    using length_takeWhile_take [of "\<lambda>c. c \<in> set (d @ [0])" "end" t "drop t buf"]
    by (simp add: mg_skip_def Let_def t_def)
  ultimately show ?thesis by simp
qed

text \<open>A token that is not empty moves the position on.\<close>

lemma mg_skip_progress:
  assumes "snd (fst (mg_skip buf s end d)) \<noteq> 0"
  shows "s < snd (mg_skip buf s end d)" "snd (mg_skip buf s end d) \<le> end"
proof -
  show "s < snd (mg_skip buf s end d)" using mg_skip_ge [of s buf "end" d] assms by linarith
  have "s \<le> end" using assms by (cases "s \<le> end") (auto simp: mg_skip_def Let_def)
  then show "snd (mg_skip buf s end d) \<le> end" by (rule mg_skip_le)
qed

subsection \<open>Headers\<close>

text \<open>
  One round of the loop: where it goes on (position, number of headers, message), or that it stops there.
  A header with a name and no value is passed over.
\<close>

definition parse_header :: "bytes \<Rightarrow> nat \<Rightarrow> nat \<Rightarrow> nat \<Rightarrow> nat \<Rightarrow> http_message \<Rightarrow> bool \<times> nat \<times> nat \<times> http_message" where
  "parse_header buf s end len i req =
     (let (k, s) = mg_skip buf s end (cstr '': '');
          (v, s) = mg_skip buf s end [13, 10];
          v = trim_value buf v
      in if snd k \<noteq> 0 \<and> snd v = 0 then (True, s, i, req)
         else if snd k = 0 \<or> snd v = 0 then (False, s, i, req)
         else
           let req = req\<lparr>hm_headers := hm_headers req @ [(k, v)]\<rparr>;
               req = (if mg_ncasecmp (drop (fst k) buf) (cstr ''Content-Length'') 14 = 0 then
                        let body_len = word_of_int (strtoll (drop (fst v) buf)) in
                        req\<lparr>hm_body_len := body_len, hm_message_len := of_nat len + body_len\<rparr>
                      else req)
           in (True, s, Suc i, req))"

lemma parse_header_progress:
  assumes "parse_header buf s end len i req = (True, s', i', req')"
  shows "i' = Suc i \<or> (i' = i \<and> s < s' \<and> s' \<le> end)"
proof -
  define r where "r = mg_skip buf s end [58, 32]"
  define r2 where "r2 = mg_skip buf (snd r) end [13, 10]"
  have "i' = Suc i \<or> (i' = i \<and> snd (fst r) \<noteq> 0 \<and> s' = snd r2)"
    using assms by (auto simp: parse_header_def r_def [symmetric] r2_def [symmetric] case_prod_unfold Let_def split: if_splits)
  moreover have "snd (fst r) \<noteq> 0 \<Longrightarrow> s < snd r \<and> snd r \<le> end"
    using mg_skip_progress [of buf s "end" "[58, 32]"] by (simp only: r_def) blast
  moreover have "snd r \<le> snd r2" "snd r \<le> end \<Longrightarrow> snd r2 \<le> end"
    using mg_skip_ge [of "snd r" buf "end" "[13, 10]"] mg_skip_le [of "snd r" "end" buf "[13, 10]"] by (auto simp: r2_def)
  ultimately show ?thesis by linarith
qed

function mg_http_parse_headers :: "bytes \<Rightarrow> nat \<Rightarrow> nat \<Rightarrow> nat \<Rightarrow> nat \<Rightarrow> http_message \<Rightarrow> nat \<times> http_message" where
  "mg_http_parse_headers buf s end len i req =
     (if i < MG_MAX_HTTP_HEADERS - 1 then
        (case parse_header buf s end len i req of
           (True, s, i, req) \<Rightarrow> mg_http_parse_headers buf s end len i req
         | (False, s, i, req) \<Rightarrow> (s, req))
      else (s, req))"
  by pat_completeness auto
termination
  by (relation "measures [\<lambda>(buf, s, end, len, i, req). MG_MAX_HTTP_HEADERS - i, \<lambda>(buf, s, end, len, i, req). end - s]")
    (auto dest!: parse_header_progress [OF sym])

declare mg_http_parse_headers.simps [simp del]

subsection \<open>Messages\<close>

datatype http_parse = Malformed | Incomplete | Message nat http_message

definition no_message :: "nat \<Rightarrow> http_message" where
  "no_message len = \<lparr>hm_message_len = -1, hm_body_pos = len, hm_body_len = -1,
     hm_method = None, hm_uri = None, hm_proto = None, hm_resp_code = 0, hm_resp_status_msg = None,
     hm_query_string = None, hm_headers = []\<rparr>"

definition parse_request_line :: "bytes \<Rightarrow> nat \<Rightarrow> nat \<Rightarrow> http_message \<Rightarrow> (nat \<times> http_message) option" where
  "parse_request_line buf s end hm =
     (let (verb, s) = mg_skip buf s end (cstr '' '');
          (uri, s) = mg_skip buf s end (cstr '' '');
          (proto, s) = mg_skip buf s end [13, 10]
      in if fst uri \<le> fst verb \<or> fst proto \<le> fst uri then None
         else
           let (uri, query) = (case memchr (ref_str buf uri) 63 of
                  Some qs \<Rightarrow> ((fst uri, qs), Some (fst uri + qs + 1, snd uri - (qs + 1)))
                | None \<Rightarrow> (uri, None))
           in Some (s, hm\<lparr>hm_method := Some verb, hm_uri := Some uri, hm_proto := Some proto,
                hm_query_string := query\<rparr>))"

text \<open>The outer option is the undefined behaviour of atoi, the inner one the return of -1.\<close>

definition parse_status_line :: "bytes \<Rightarrow> nat \<Rightarrow> nat \<Rightarrow> http_message \<Rightarrow> (nat \<times> http_message) option option" where
  "parse_status_line buf s end hm =
     (let (proto, s) = mg_skip buf s end (cstr '' '') in
      if end - s < 4 \<or> buf ! (s + 3) \<noteq> 32 then Some None
      else do {
        resp_code \<leftarrow> atoi (drop s buf);
        Some (if resp_code < 100 \<or> resp_code \<ge> 600 then None
          else
            let (msg, s) = mg_skip buf (s + 4) end [13, 10]
            in Some (s, hm\<lparr>hm_proto := Some proto, hm_resp_code := resp_code, hm_resp_status_msg := Some msg\<rparr>)) })"

text \<open>The length that a null reference has is 0.\<close>

definition opt_str :: "bytes \<Rightarrow> mg_ref option \<Rightarrow> bytes" where
  "opt_str buf r = (case r of None \<Rightarrow> [] | Some r \<Rightarrow> ref_str buf r)"

definition default_body :: "bytes \<Rightarrow> bool \<Rightarrow> nat \<Rightarrow> http_message \<Rightarrow> http_message" where
  "default_body buf is_req len hm =
     (if hm_body_len hm = -1 \<and> is_req \<and>
         mg_vcasecmp (opt_str buf (hm_method hm)) (cstr ''PUT'') \<noteq> 0 \<and>
         mg_vcasecmp (opt_str buf (hm_method hm)) (cstr ''POST'') \<noteq> 0
      then hm\<lparr>hm_body_len := 0, hm_message_len := of_nat len\<rparr> else hm)"

definition mg_parse_http :: "bytes \<Rightarrow> bool \<Rightarrow> http_parse option" where
  "mg_parse_http buf is_req =
     (let len = mg_http_get_request_len buf in
      if len < 0 then Some Malformed
      else if len = 0 then Some Incomplete
      else
        let end = nat len; s = length (takeWhile isspace (take end buf))
        in do {
          line \<leftarrow> (if is_req then Some (parse_request_line buf s end (no_message end))
                   else parse_status_line buf s end (no_message end));
          Some (case line of None \<Rightarrow> Malformed
            | Some (s, hm) \<Rightarrow>
                Message end (default_body buf is_req end (snd (mg_http_parse_headers buf s end end 0 hm)))) })"

definition mg_get_http_header :: "bytes \<Rightarrow> http_message \<Rightarrow> bytes \<Rightarrow> mg_ref option" where
  "mg_get_http_header buf hm name =
     map_option snd (find (\<lambda>(h, v). snd h = length name \<and> mg_ncasecmp (drop (fst h) buf) name (length name) = 0)
       (hm_headers hm))"


subsection \<open>Completeness of the header\<close>

lemma request_len_from_append: "request_len_from b i \<noteq> 0 \<Longrightarrow> request_len_from (b @ later) i = request_len_from b i"
proof (induction b i rule: request_len_from.induct)
  case (2 c s i)
  show ?case
  proof (cases s)
    case Nil
    with 2 show ?thesis by (auto split: if_splits)
  next
    case (Cons d t)
    show ?thesis
    proof (cases "c = 10 \<and> d = 13 \<and> t = []")
      case True
      with 2 Cons show ?thesis by simp
    next
      case False
      have 1: "(s @ later) ! 0 = s ! 0" "s @ later \<noteq> []" "s \<noteq> []" "s ! 0 = d" using Cons by simp_all
      have 2: "(c = 10 \<and> length (s @ later) > 1 \<and> d = 13 \<and> (s @ later) ! 1 = 10) \<longleftrightarrow>
          (c = 10 \<and> length s > 1 \<and> d = 13 \<and> s ! 1 = 10)"
      proof (cases t)
        case Nil
        with False Cons show ?thesis by auto
      qed (simp add: Cons)
      show ?thesis
        unfolding append_Cons request_len_from.simps 1 2
        using "2.IH" "2.prems" 1 by (simp only: request_len_from.simps 1 split: if_split_asm) auto
    qed
  qed
qed simp

lemma request_len_from_bound: "request_len_from b i > 0 \<Longrightarrow> int i < request_len_from b i \<and> request_len_from b i \<le> int (i + length b)"
  by (induction b i rule: request_len_from.induct) (auto simp: Suc_le_eq split: if_splits)

lemma request_len_from_end:
  "request_len_from b i > 0 \<Longrightarrow>
     \<exists>p. take (nat (request_len_from b i) - i) b = p @ [10, 10] \<or> take (nat (request_len_from b i) - i) b = p @ [10, 13, 10]"
proof (induction b i rule: request_len_from.induct)
  case (2 c s i)
  consider "c = 10 \<and> s \<noteq> [] \<and> s ! 0 = 10" | "c = 10 \<and> length s > 1 \<and> s ! 0 = 13 \<and> s ! 1 = 10"
    | "request_len_from (c # s) i = request_len_from s (Suc i)" "request_len_from s (Suc i) > 0"
      "\<not> (\<not> isprint c \<and> c \<noteq> 13 \<and> c \<noteq> 10 \<and> c < 128)" "\<not> (c = 10 \<and> s \<noteq> [] \<and> s ! 0 = 10)"
      "\<not> (c = 10 \<and> length s > 1 \<and> s ! 0 = 13 \<and> s ! 1 = 10)"
    using 2(2) by (auto split: if_splits)
  then show ?case
  proof cases
    case 1
    then obtain t where "s = 10 # t" by (cases s) auto
    with 1 show ?thesis by (intro exI [of _ "[]"]) (simp add: isprint_def nat_add_distrib)
  next
    case 2
    then obtain t where "s = 13 # 10 # t" by (cases s; cases "tl s") auto
    with 2 show ?thesis by (intro exI [of _ "[]"]) (simp add: isprint_def nat_add_distrib numeral_3_eq_3)
  next
    case 3
    have b: "int (Suc i) < request_len_from s (Suc i)" using request_len_from_bound [OF 3(2)] by simp
    then have n: "nat (request_len_from s (Suc i)) - i = Suc (nat (request_len_from s (Suc i)) - Suc i)" by linarith
    obtain p where "take (nat (request_len_from s (Suc i)) - Suc i) s = p @ [10, 10] \<or>
        take (nat (request_len_from s (Suc i)) - Suc i) s = p @ [10, 13, 10]"
      using 2(1) [OF 3(3,4,5) 3(2)] by blast
    then show ?thesis unfolding 3(1) n by (intro exI [of _ "c # p"]) auto
  qed
qed simp

text \<open>The test for a complete header can be repeated on a growing buffer: a positive answer is a length
within the buffer at which a blank line ends, it does not change when more arrives, and before these bytes were
there the answer was "not yet".\<close>

theorem http_request_len_stream:
  assumes "mg_http_get_request_len b = r" "r > 0"
  shows "nat r \<le> length b \<and> mg_http_get_request_len (b @ later) = r \<and>
    (m < nat r \<longrightarrow> mg_http_get_request_len (take m b) = 0) \<and>
    (\<exists>p. take (nat r) b = p @ [10, 10] \<or> take (nat r) b = p @ [10, 13, 10])"
proof -
  have "mg_http_get_request_len (take m b) = 0" if m: "m < nat r"
  proof (rule ccontr)
    assume "mg_http_get_request_len (take m b) \<noteq> 0"
    then have "request_len_from (take m b) 0 = r"
      using request_len_from_append [of "take m b" 0 "drop m b"] assms(1) by (simp add: mg_http_get_request_len_def)
    then show False using request_len_from_bound [of "take m b" 0] assms(2) m by simp
  qed
  then show ?thesis
    using assms request_len_from_append [of b 0 later] request_len_from_bound [of b 0] request_len_from_end [of b 0]
    by (auto simp: mg_http_get_request_len_def)
qed

lemma http_request_len_stream_witness:
  "mg_http_get_request_len ([71, 13, 10, 13, 10] @ [66]) = 5 \<and> mg_http_get_request_len (take 3 [71, 13, 10, 13, 10]) = 0"
proof -
  have 1: "mg_http_get_request_len [71, 13, 10, 13, 10] = 5" by code_simp
  show ?thesis using http_request_len_stream [OF 1, of "[66]" 3] by simp
qed

subsection \<open>Reading back a request\<close>

fun header_window :: "(bytes \<times> bytes) list \<Rightarrow> bytes" where
  "header_window [] = []"
| "header_window ((k, v) # hs) = k @ [58, 32] @ v @ [13, 10] @ (if hs = [] then [13, 10] else []) @ header_window hs"

definition header_lines :: "(bytes \<times> bytes) list \<Rightarrow> bytes" where
  "header_lines hdrs = concat (map (\<lambda>(k, v). k @ [58, 32] @ v @ [13, 10]) hdrs) @ [13, 10]"

definition http_request :: "bytes \<Rightarrow> bytes \<Rightarrow> bytes \<Rightarrow> (bytes \<times> bytes) list \<Rightarrow> bytes" where
  "http_request verb uri proto hdrs = verb @ [32] @ uri @ [32] @ proto @ [13, 10] @ header_lines hdrs"

lemma header_lines_window: "header_lines hdrs = (if hdrs = [] then [13, 10] else []) @ header_window hdrs"
  by (induction hdrs rule: header_window.induct) (auto simp: header_lines_def)

definition http_token :: "bytes \<Rightarrow> bool" where
  "http_token t \<longleftrightarrow> t \<noteq> [] \<and> (\<forall>c \<in> set t. isprint c \<and> c \<noteq> 32)"

definition good_header :: "bytes \<times> bytes \<Rightarrow> bool" where
  "good_header h \<longleftrightarrow> http_token (fst h) \<and> 58 \<notin> set (fst h) \<and> snd h \<noteq> [] \<and> (\<forall>c \<in> set (snd h). isprint c) \<and>
     hd (snd h) \<notin> {58, 32} \<and> last (snd h) \<noteq> 32"

lemma mg_skip_window:
  assumes "take (end - s) (drop s buf) = tok @ sep @ rest"
    and "\<forall>c \<in> set tok. c \<notin> set (d @ [0])" "\<forall>c \<in> set sep. c \<in> set (d @ [0])" "sep \<noteq> []"
    and "rest = [] \<or> hd rest \<notin> set (d @ [0])"
  shows "mg_skip buf s end d = ((s, length tok), s + length tok + length sep)"
    and "take (end - (s + length tok + length sep)) (drop (s + length tok + length sep) buf) = rest"
    and "ref_str buf (s, length tok) = tok"
proof -
  have 1: "takeWhile (\<lambda>c. c \<notin> set (d @ [0])) (take (end - s) (drop s buf)) = tok"
    unfolding assms(1) using assms(2,3,4) by (cases sep) (auto simp: takeWhile_append)
  have d: "take (end - (s + n)) (drop (s + n) buf) = drop n (tok @ sep @ rest)" for n
    using arg_cong [OF assms(1), of "drop n"] by (simp add: drop_take add.commute)
  have 2: "takeWhile (\<lambda>c. c \<in> set (d @ [0])) (take (end - (s + length tok)) (drop (s + length tok) buf)) = sep"
    unfolding d using assms(3,5) by (cases rest) (auto simp: takeWhile_append takeWhile_eq_all_conv)
  show "mg_skip buf s end d = ((s, length tok), s + length tok + length sep)"
    using 1 2 by (simp add: mg_skip_def Let_def)
  show "take (end - (s + length tok + length sep)) (drop (s + length tok + length sep) buf) = rest"
    using d [of "length tok + length sep"] by (simp add: add.assoc)
  have "length tok \<le> end - s" using arg_cong [OF assms(1), of length] by (simp add: min_def split: if_splits)
  then have "ref_str buf (s, length tok) = take (length tok) (take (end - s) (drop s buf))"
    by (simp add: ref_str_def min_def)
  then show "ref_str buf (s, length tok) = tok" unfolding assms(1) by simp
qed

lemma mg_skip_empty: "take (end - s) (drop s buf) = [] \<Longrightarrow> snd (fst (mg_skip buf s end d)) = 0"
  unfolding mg_skip_def Let_def by (simp only: takeWhile.simps list.size fst_conv snd_conv)

lemma trim_value_id: "ref_str buf v = t \<Longrightarrow> length t = snd v \<Longrightarrow> t \<noteq> [] \<Longrightarrow> last t \<noteq> 32 \<Longrightarrow> trim_value buf v = v"
  by (cases t rule: rev_cases) (auto simp: trim_value_def prod_eq_iff)

text \<open>The header loop leaves the request line alone.\<close>

definition line_fields :: "http_message \<Rightarrow> (mg_ref option \<times> mg_ref option) \<times> (mg_ref option \<times> mg_ref option)" where
  "line_fields hm = ((hm_method hm, hm_uri hm), (hm_proto hm, hm_query_string hm))"

lemma line_fields_update [simp]:
  "line_fields (hm\<lparr>hm_headers := x\<rparr>) = line_fields hm"
  "line_fields (hm\<lparr>hm_body_len := y, hm_message_len := z\<rparr>) = line_fields hm"
  by (simp_all add: line_fields_def)

lemma parse_headers_line: "line_fields (snd (mg_http_parse_headers buf s end len i req)) = line_fields req"
proof (induction buf s "end" len i req rule: mg_http_parse_headers.induct)
  case (1 buf s "end" len i req)
  obtain go s' i' req' where p: "parse_header buf s end len i req = (go, s', i', req')" by (metis prod_cases4)
  then have "line_fields req' = line_fields req"
    by (auto simp: parse_header_def case_prod_unfold Let_def split: if_splits)
  then show ?case
    using 1 p by (subst mg_http_parse_headers.simps) (simp split: bool.split)
qed

definition ref_pair :: "bytes \<Rightarrow> mg_ref \<times> mg_ref \<Rightarrow> bytes \<times> bytes" where
  "ref_pair buf h = (ref_str buf (fst h), ref_str buf (snd h))"

lemma http_token_skip: "http_token t \<Longrightarrow> c \<in> set t \<Longrightarrow> c \<notin> {32, 0, 13, 10}"
  by (auto simp: http_token_def isprint_def)

lemma isprint_skip: "isprint c \<Longrightarrow> c \<notin> {0, 13, 10}"
  by (auto simp: isprint_def)

lemma header_window_hd:
  assumes "\<forall>h \<in> set hs. good_header h"
  shows "header_window hs = [] \<or> hd (header_window hs) \<notin> {13, 10, 0, 32}"
proof (cases hs)
  case (Cons h hs')
  then have t: "http_token (fst h)" using assms by (simp add: good_header_def)
  then obtain c k where k: "fst h = c # k" by (cases "fst h") (auto simp: http_token_def)
  have "c \<notin> {32, 0, 13, 10}" using http_token_skip [OF t] k by simp
  then show ?thesis using Cons k by (cases h) simp
qed simp

subsection \<open>The length of the body\<close>

definition content_length :: bytes where "content_length = cstr ''Content-Length''"

definition body_header :: "bytes \<Rightarrow> bool" where
  "body_header k \<longleftrightarrow> 14 \<le> length k \<and> map tolower (take 14 k) = map tolower content_length"

text \<open>The last header whose name starts with Content-Length decides.\<close>

fun body_length :: "(bytes \<times> bytes) list \<Rightarrow> u64 option" where
  "body_length [] = None"
| "body_length ((k, v) # hs) =
     (case body_length hs of Some n \<Rightarrow> Some n | None \<Rightarrow> if body_header k then Some (word_of_int (strtoll v)) else None)"

lemma body_header_test:
  "mg_ncasecmp (k @ 58 # rest) content_length 14 = 0 \<longleftrightarrow> body_header k"
proof -
  have l: "length content_length = 14" by (simp add: content_length_def)
  have "list_all (\<lambda>c. c \<noteq> 0 \<and> tolower c \<noteq> tolower 58) content_length" by code_simp
  then have nz: "\<forall>j < 14. cchar content_length j \<noteq> 0" "\<forall>j < 14. tolower (cchar content_length j) \<noteq> tolower 58"
    by (simp_all add: list_all_length l cchar_def)
  have "(\<forall>j < 14. tolower (cchar (k @ 58 # rest) j) = tolower (cchar content_length j)) \<longleftrightarrow> body_header k"
  proof (cases "14 \<le> length k")
    case True
    then show ?thesis using l by (auto simp: body_header_def list_eq_iff_nth_eq cchar_def nth_append)
  next
    case False
    then have "length k < 14 \<and> cchar (k @ 58 # rest) (length k) = 58" by (simp add: cchar_def)
    with nz(2) have "\<not> (\<forall>j < 14. tolower (cchar (k @ 58 # rest) j) = tolower (cchar content_length j))" by metis
    with False show ?thesis by (simp add: body_header_def)
  qed
  then show ?thesis using ncasecmp_iff [OF nz(1)] by blast
qed

lemma strtoll_line:
  assumes "v \<noteq> []" "\<not> isspace (hd v)"
  shows "strtoll (v @ 13 # rest) = strtoll v"
proof -
  have d: "dropWhile isspace (v @ x) = v @ x" for x using assms by (cases v) auto
  have t: "takeWhile isdigit (w @ 13 # rest) = takeWhile isdigit w" for w
    by (induction w) (auto simp: isdigit_def)
  have h: "hd (v @ x) = hd v" "tl (v @ x) = tl v @ x" for x using assms by simp_all
  show ?thesis using assms(1) d [of "13 # rest"] d [of "[]"] h t by (simp add: strtoll_def Let_def)
qed

lemma isspace_print: "isprint c \<Longrightarrow> c \<noteq> 32 \<Longrightarrow> \<not> isspace c"
proof -
  have "\<not> (32 \<le> c \<and> c \<le> 13)" by (simp add: word_le_nat_alt)
  then show "isprint c \<Longrightarrow> c \<noteq> 32 \<Longrightarrow> \<not> isspace c" by (auto simp: isspace_def isprint_def)
qed

lemma drop_window: "take n (drop s buf) = w \<Longrightarrow> \<exists>rest. drop s buf = w @ rest"
  using append_take_drop_id [of n "drop s buf"] by metis

text \<open>One header at the start of the window.\<close>

lemma parse_header_window:
  assumes "take (end - s) (drop s buf) = header_window ((k, v) # hs)" "\<forall>h \<in> set ((k, v) # hs). good_header h"
  shows "\<exists>s' kr vr. take (end - s') (drop s' buf) = header_window hs \<and> ref_pair buf (kr, vr) = (k, v) \<and>
    parse_header buf s end len i req = (True, s', Suc i,
      let req = req\<lparr>hm_headers := hm_headers req @ [(kr, vr)]\<rparr>; n = word_of_int (strtoll v)
      in if body_header k then req\<lparr>hm_body_len := n, hm_message_len := of_nat len + n\<rparr> else req)"
proof -
  define w where "w = (if hs = [] then [13, 10] else ([] :: bytes))"
  define s1 where "s1 = s + length k + 2"
  define s2 where "s2 = s1 + length v + length ([13, 10] @ w)"
  have g: "http_token k" "58 \<notin> set k" "v \<noteq> []" "\<forall>c \<in> set v. isprint c" "hd v \<notin> {58, 32}" "last v \<noteq> 32"
    using assms(2) by (auto simp: good_header_def)
  have hd: "hd v \<notin> {0, 13, 10}" using g(3,4) isprint_skip [of "hd v"] by simp
  have win: "take (end - s) (drop s buf) = k @ [58, 32] @ (v @ ([13, 10] @ w) @ header_window hs)"
    using assms(1) by (simp add: w_def)
  have K: "mg_skip buf s end (cstr '': '') = ((s, length k), s1)"
      "take (end - s1) (drop s1 buf) = v @ ([13, 10] @ w) @ header_window hs" "ref_str buf (s, length k) = k"
    using mg_skip_window [OF win, of "cstr '': ''"] http_token_skip [OF g(1)] g(2,3,5) hd
    by (auto simp: s1_def)
  have V: "mg_skip buf s1 end [13, 10] = ((s1, length v), s2)"
      "take (end - s2) (drop s2 buf) = header_window hs" "ref_str buf (s1, length v) = v"
    using mg_skip_window [OF K(2), of "[13, 10]"] isprint_skip g(4) header_window_hd [of hs] assms(2)
    by (auto simp: s2_def w_def)
  have T: "trim_value buf (s1, length v) = (s1, length v)" using trim_value_id [OF V(3)] g(3,6) by simp
  have k: "length k \<noteq> 0" "length v \<noteq> 0" using g(1,3) by (auto simp: http_token_def)
  obtain r1 where "drop s buf = k @ 58 # r1" using drop_window [OF win] by auto
  then have kt: "mg_ncasecmp (drop s buf) (cstr ''Content-Length'') 14 = 0 \<longleftrightarrow> body_header k"
    using body_header_test unfolding content_length_def by metis
  obtain r2 where r2: "drop s1 buf = v @ 13 # r2" using drop_window [OF K(2)] by auto
  have "isprint (hd v)" using g(3,4) by simp
  then have vt: "strtoll (drop s1 buf) = strtoll v" unfolding r2 using strtoll_line [OF g(3) isspace_print] g(5) by simp
  have "ref_pair buf ((s, length k), (s1, length v)) = (k, v)" using K(3) V(3) by (simp add: ref_pair_def)
  then show ?thesis
    using V(2) K(1) V(1) T k kt vt
    by (intro exI [of _ s2] exI [of _ "(s, length k)"] exI [of _ "(s1, length v)"]) (simp add: parse_header_def Let_def del: cstr_Cons)
qed

lemma parse_headers_end:
  assumes "take (end - s) (drop s buf) = header_window []"
  shows "snd (mg_http_parse_headers buf s end len i req) = req"
proof -
  obtain k s1 where k: "mg_skip buf s end (cstr '': '') = (k, s1)" by fastforce
  obtain v s2 where v: "mg_skip buf s1 end [13, 10] = (v, s2)" by fastforce
  have "snd k = 0" using mg_skip_empty [of "end" s buf] assms k by (metis fst_conv header_window.simps(1))
  with k v show ?thesis by (subst mg_http_parse_headers.simps) (simp add: parse_header_def Let_def)
qed

definition body_fields :: "http_message \<Rightarrow> u64 \<times> u64" where
  "body_fields hm = (hm_body_len hm, hm_message_len hm)"

lemma parse_headers_window:
  assumes "take (end - s) (drop s buf) = header_window hs" "\<forall>h \<in> set hs. good_header h"
    and "i + length hs \<le> MG_MAX_HTTP_HEADERS - 1"
  shows "map (ref_pair buf) (hm_headers (snd (mg_http_parse_headers buf s end len i req))) =
      map (ref_pair buf) (hm_headers req) @ hs \<and>
    body_fields (snd (mg_http_parse_headers buf s end len i req)) =
      (case body_length hs of None \<Rightarrow> body_fields req | Some n \<Rightarrow> (n, of_nat len + n))"
  using assms
proof (induction hs arbitrary: s i req rule: header_window.induct)
  case 1
  then show ?case by (simp add: parse_headers_end)
next
  case (2 k v hs)
  obtain s' kr vr where h: "take (end - s') (drop s' buf) = header_window hs" "ref_pair buf (kr, vr) = (k, v)"
      "parse_header buf s end len i req = (True, s', Suc i,
        let req = req\<lparr>hm_headers := hm_headers req @ [(kr, vr)]\<rparr>; n = word_of_int (strtoll v)
        in if body_header k then req\<lparr>hm_body_len := n, hm_message_len := of_nat len + n\<rparr> else req)"
    using parse_header_window [OF 2(2,3)] by metis
  have i: "i < MG_MAX_HTTP_HEADERS - 1" "Suc i + length hs \<le> MG_MAX_HTTP_HEADERS - 1" using 2(4) by auto
  show ?case
    using 2(1) [OF h(1) _ i(2)] 2(3) i(1) h(2,3)
    by (subst (1 2) mg_http_parse_headers.simps) (simp add: body_fields_def Let_def split: option.split)
qed

lemma request_len_clean:
  assumes "\<forall>c \<in> set t. isprint c" "t \<noteq> []"
  shows "request_len_from (t @ s) i = request_len_from s (i + length t)"
  using assms
proof (induction t arbitrary: i)
  case (Cons c t)
  have "c \<noteq> 10" "isprint c" using Cons.prems isprint_skip [of c] by auto
  with Cons show ?case by (cases "t = []") auto
qed simp

text \<open>A line end in front of a printable character is passed over.\<close>

lemma request_len_line: "c \<noteq> 13 \<Longrightarrow> c \<noteq> 10 \<Longrightarrow> request_len_from (13 # 10 # c # s) i = request_len_from (c # s) (i + 2)"
  by simp

lemma request_len_header_lines:
  assumes "\<forall>h \<in> set hdrs. good_header h"
  shows "request_len_from (13 # 10 # header_lines hdrs @ body) i = int (i + 2 + length (header_lines hdrs))"
  using assms
proof (induction hdrs arbitrary: i)
  case Nil
  show ?case by (simp add: header_lines_def)
next
  case (Cons h hdrs)
  obtain k v where h: "h = (k, v)" by fastforce
  have g: "http_token k" "\<forall>c \<in> set (k @ [58, 32] @ v). isprint c" "k @ [58, 32] @ v \<noteq> []"
    using Cons.prems by (auto simp: h good_header_def http_token_def isprint_def)
  have e: "header_lines (h # hdrs) = (k @ [58, 32] @ v) @ 13 # 10 # header_lines hdrs"
    by (simp add: header_lines_def h)
  obtain c k' where c: "k = c # k'" "c \<notin> {32, 0, 13, 10}"
    using g(1) http_token_skip [OF g(1)] by (cases k) (auto simp: http_token_def)
  have "request_len_from (13 # 10 # header_lines (h # hdrs) @ body) i
      = request_len_from (header_lines (h # hdrs) @ body) (i + 2)"
    using c by (simp add: e request_len_line del: request_len_from.simps)
  also have "\<dots> = request_len_from (13 # 10 # header_lines hdrs @ body) (i + 2 + length (k @ [58, 32] @ v))"
    unfolding e append_assoc [of "k @ [58, 32] @ v"] request_len_clean [OF g(2,3)] by (simp del: request_len_from.simps)
  also have "\<dots> = int (i + 2 + length (header_lines (h # hdrs)))"
    using Cons.prems by (subst Cons.IH) (simp_all add: e)
  finally show ?case .
qed

lemma request_len_request:
  assumes "http_token verb" "http_token uri" "http_token proto" "\<forall>h \<in> set hdrs. good_header h"
  shows "mg_http_get_request_len (http_request verb uri proto hdrs @ body) = int (length (http_request verb uri proto hdrs))"
proof -
  let ?l = "verb @ [32] @ uri @ [32] @ proto"
  have l: "\<forall>c \<in> set ?l. isprint c" "?l \<noteq> []" using assms by (auto simp: http_token_def isprint_def)
  have e: "http_request verb uri proto hdrs @ body = ?l @ 13 # 10 # header_lines hdrs @ body"
    by (simp add: http_request_def)
  show ?thesis
    unfolding mg_http_get_request_len_def e request_len_clean [OF l] request_len_header_lines [OF assms(4)]
    by (simp add: http_request_def)
qed

text \<open>What the parsed request line says.\<close>

definition says_line :: "bytes \<Rightarrow> http_message \<Rightarrow> bytes \<Rightarrow> bytes \<Rightarrow> bytes \<Rightarrow> bool" where
  "says_line buf hm verb uri proto \<longleftrightarrow> opt_str buf (hm_method hm) = verb \<and> opt_str buf (hm_proto hm) = proto \<and>
     opt_str buf (hm_uri hm) @ (case hm_query_string hm of None \<Rightarrow> [] | Some q \<Rightarrow> 63 # ref_str buf q) = uri \<and>
     63 \<notin> set (opt_str buf (hm_uri hm))"

lemma parse_request_line_window:
  assumes "http_token verb" "http_token uri" "http_token proto" "\<forall>h \<in> set hdrs. good_header h"
    and "w = (if hdrs = [] then [13, 10] else [])"
    and "take n buf = verb @ [32] @ (uri @ [32] @ (proto @ ([13, 10] @ w) @ header_window hdrs))"
  shows "\<exists>s hm'. parse_request_line buf 0 n hm = Some (s, hm') \<and> take (n - s) (drop s buf) = header_window hdrs \<and>
    hm_headers hm' = hm_headers hm \<and> says_line buf hm' verb uri proto"
proof -
  define s1 where "s1 = length verb + 1"
  define s2 where "s2 = s1 + length uri + 1"
  define s3 where "s3 = s2 + length proto + length ([13, 10] @ w)"
  have hd: "hd uri \<notin> {32, 0}" "hd proto \<notin> {32, 0}" "uri \<noteq> []" "proto \<noteq> []"
    using assms(2,3) http_token_skip [of uri "hd uri"] http_token_skip [of proto "hd proto"] by (auto simp: http_token_def)
  have M: "mg_skip buf 0 n (cstr '' '') = ((0, length verb), s1)"
      "take (n - s1) (drop s1 buf) = uri @ [32] @ (proto @ ([13, 10] @ w) @ header_window hdrs)"
      "ref_str buf (0, length verb) = verb"
    using mg_skip_window [of n 0 buf verb "[32]" "uri @ [32] @ (proto @ ([13, 10] @ w) @ header_window hdrs)" "cstr '' ''"]
      assms(6) http_token_skip [OF assms(1)] hd by (auto simp: s1_def)
  have U: "mg_skip buf s1 n (cstr '' '') = ((s1, length uri), s2)"
      "take (n - s2) (drop s2 buf) = proto @ ([13, 10] @ w) @ header_window hdrs" "ref_str buf (s1, length uri) = uri"
    using mg_skip_window [OF M(2), of "cstr '' ''"] http_token_skip [OF assms(2)] hd by (auto simp: s2_def)
  have P: "mg_skip buf s2 n [13, 10] = ((s2, length proto), s3)"
      "take (n - s3) (drop s3 buf) = header_window hdrs" "ref_str buf (s2, length proto) = proto"
    using mg_skip_window [OF U(2), of "[13, 10]"] http_token_skip [OF assms(3)] header_window_hd [OF assms(4)]
    by (auto simp: s3_def assms(5))
  define q where "q = memchr uri 63"
  define hm1 where "hm1 = hm\<lparr>hm_method := Some (0, length verb),
      hm_uri := Some (s1, case q of None \<Rightarrow> length uri | Some k \<Rightarrow> k), hm_proto := Some (s2, length proto),
      hm_query_string := (case q of None \<Rightarrow> None | Some k \<Rightarrow> Some (s1 + k + 1, length uri - (k + 1)))\<rparr>"
  have s: "0 < s1" "s1 < s2" "memchr (ref_str buf (s1, length uri)) 63 = q"
    unfolding U(3) q_def by (simp_all add: s1_def s2_def)
  have line: "parse_request_line buf 0 n hm = Some (s3, hm1)"
    using M(1) U(1) P(1) s by (simp add: parse_request_line_def hm1_def Let_def split: option.split)
  have uri: "take (length uri) (drop s1 buf) = uri" using U(3) by (simp add: ref_str_def)
  have sub: "k < length uri \<Longrightarrow> ref_str buf (s1, k) = take k uri \<and> ref_str buf (s1 + k + 1, length uri - (k + 1)) = drop (k + 1) uri" for k
    using arg_cong [OF uri, of "take k"] arg_cong [OF uri, of "drop (k + 1)"]
    by (simp add: ref_str_def min_def drop_take add.commute)
  have u: "opt_str buf (hm_uri hm1) @ (case hm_query_string hm1 of None \<Rightarrow> [] | Some q \<Rightarrow> 63 # ref_str buf q) = uri \<and>
      63 \<notin> set (opt_str buf (hm_uri hm1))"
  proof (cases q)
    case None
    then show ?thesis using mg_strchr_None [of uri 63] U(3) by (simp add: q_def hm1_def opt_str_def)
  next
    case (Some k)
    then have "k < length uri" "uri ! k = 63" "63 \<notin> set (take k uri)" using mg_strchr_Some [of uri 63 k] by (auto simp: q_def)
    moreover have "take k uri @ 63 # drop (Suc k) uri = uri" using id_take_nth_drop [OF \<open>k < length uri\<close>] \<open>uri ! k = 63\<close> by simp
    ultimately show ?thesis using Some sub [of k] by (simp add: hm1_def opt_str_def)
  qed
  have "says_line buf hm1 verb uri proto"
    using u M(3) P(3) by (simp add: says_line_def hm1_def opt_str_def)
  then show ?thesis using line P(2) by (intro exI [of _ s3] exI [of _ hm1]) (simp add: hm1_def)
qed

lemma says_line_fields: "line_fields hm = line_fields hm' \<Longrightarrow> says_line buf hm = says_line buf hm'"
  by (intro ext) (simp add: says_line_def line_fields_def)

lemma default_body_fields: "line_fields (default_body buf b n hm) = line_fields hm" "hm_headers (default_body buf b n hm) = hm_headers hm"
  by (simp_all add: default_body_def line_fields_def)

text \<open>The lengths of body and message that a request says.\<close>

definition request_body :: "bytes \<Rightarrow> u64 \<Rightarrow> (bytes \<times> bytes) list \<Rightarrow> u64 \<times> u64" where
  "request_body verb n hdrs =
     (let (b, m) = (case body_length hdrs of None \<Rightarrow> (-1, -1) | Some k \<Rightarrow> (k, n + k)) in
      if b = -1 \<and> map tolower verb \<notin> {cstr ''put'', cstr ''post''} then (0, n) else (b, m))"

lemma request_body_verb:
  "mg_vcasecmp verb (cstr ''PUT'') = 0 \<longleftrightarrow> map tolower verb = cstr ''put''"
  "mg_vcasecmp verb (cstr ''POST'') = 0 \<longleftrightarrow> map tolower verb = cstr ''post''"
  using mg_vcasecmp_iff [of "cstr ''PUT''" verb] mg_vcasecmp_iff [of "cstr ''POST''" verb] by (simp_all add: tolower_def)

lemma parse_request_line_body:
  "parse_request_line buf s end hm = Some (s', hm') \<Longrightarrow> hm = no_message n \<Longrightarrow> body_fields hm' = (-1, -1)"
  by (auto simp: parse_request_line_def Let_def body_fields_def no_message_def case_prod_unfold split: if_splits option.splits)

lemma parse_status_line_body:
  "parse_status_line buf s end hm = Some (Some (s', hm')) \<Longrightarrow> hm = no_message n \<Longrightarrow> body_fields hm' = (-1, -1)"
  by (auto simp: parse_status_line_def Let_def body_fields_def no_message_def case_prod_unfold split: if_splits bind_splits)

lemma mg_parse_http_reads:
  assumes "http_token verb" "http_token uri" "http_token proto" "\<forall>h \<in> set hdrs. good_header h"
    and "length hdrs \<le> 39" and "buf = http_request verb uri proto hdrs @ body"
  shows "\<exists>hm. mg_parse_http buf True = Some (Message (length (http_request verb uri proto hdrs)) hm) \<and>
    says_line buf hm verb uri proto \<and> map (ref_pair buf) (hm_headers hm) = hdrs \<and>
    body_fields hm = request_body verb (of_nat (length (http_request verb uri proto hdrs))) hdrs"
proof -
  define w where "w = (if hdrs = [] then [13, 10] else ([] :: bytes))"
  define n where "n = length (http_request verb uri proto hdrs)"
  have "http_request verb uri proto hdrs = verb @ [32] @ (uri @ [32] @ (proto @ ([13, 10] @ w) @ header_window hdrs))"
    using header_lines_window [of hdrs] by (simp add: w_def http_request_def)
  moreover have "take n buf = http_request verb uri proto hdrs" by (simp add: n_def assms(6))
  ultimately have req: "take n buf = verb @ [32] @ (uri @ [32] @ (proto @ ([13, 10] @ w) @ header_window hdrs))" by simp
  have len: "mg_http_get_request_len buf = int n"
    using request_len_request [OF assms(1-4)] by (simp add: n_def assms(6))
  have n: "0 < n" by (simp add: n_def http_request_def)
  obtain c m where c: "verb = c # m" using assms(1) by (cases verb) (auto simp: http_token_def)
  have "32 \<le> c" using assms(1) c by (simp add: http_token_def isprint_def)
  moreover have "\<not> (32 :: byte) \<le> 13" by simp
  ultimately have "\<not> c \<le> 13" by (metis order.trans)
  then have "\<not> isspace c" using assms(1) c by (simp add: http_token_def isspace_def)
  then have sp: "takeWhile isspace (take n buf) = []" unfolding req c by simp
  obtain s hm1 where line: "parse_request_line buf 0 n (no_message n) = Some (s, hm1)"
      "take (n - s) (drop s buf) = header_window hdrs" "hm_headers hm1 = []" "says_line buf hm1 verb uri proto"
    using parse_request_line_window [OF assms(1-4) w_def req, of "no_message n"] by (auto simp: no_message_def)
  define hm where "hm = default_body buf True n (snd (mg_http_parse_headers buf s n n 0 hm1))"
  have parse: "mg_parse_http buf True = Some (Message n hm)"
    using len n sp line(1) by (simp add: mg_parse_http_def Let_def hm_def)
  have "map (ref_pair buf) (hm_headers hm) = hdrs"
    using conjunct1 [OF parse_headers_window [OF line(2) assms(4), of 0 n hm1]] assms(5)
    by (simp add: hm_def default_body_fields line(3) MG_MAX_HTTP_HEADERS_def)
  moreover have says: "says_line buf hm verb uri proto"
    using line(4) says_line_fields [of hm hm1] by (simp add: hm_def default_body_fields parse_headers_line)
  moreover have "body_fields hm = request_body verb (of_nat n) hdrs"
  proof -
    let ?h = "snd (mg_http_parse_headers buf s n n 0 hm1)"
    have "says_line buf ?h verb uri proto" using line(4) says_line_fields [of ?h hm1] by (simp add: parse_headers_line)
    moreover have "body_fields hm1 = (-1, -1)" using line(1) by (rule parse_request_line_body [OF _ refl])
    ultimately show ?thesis
      using conjunct2 [OF parse_headers_window [OF line(2) assms(4), of 0 n hm1]] assms(5)
      by (simp add: hm_def default_body_def body_fields_def request_body_def request_body_verb [simplified] says_line_def MG_MAX_HTTP_HEADERS_def Let_def
          split: option.splits)
  qed
  ultimately show ?thesis using parse by (auto simp: n_def)
qed

text \<open>C6: A request that is printed with single spaces and CRLF line ends is read back whole: method, URI (split
at the question mark), protocol and every header in order, whatever follows the blank line; the length of the body is
the number of the last header that counts as Content-Length, and without one it is 0, or unknown for PUT and POST.\<close>

theorem mg_parse_http_request:
  assumes "http_token verb" "http_token uri" "http_token proto" "\<forall>h \<in> set hdrs. good_header h"
    and "length hdrs \<le> 39" and "buf = http_request verb uri proto hdrs @ body"
  shows "\<exists>hm. mg_parse_http buf True = Some (Message (length (http_request verb uri proto hdrs)) hm) \<and>
    says_line buf hm verb uri proto \<and> map (ref_pair buf) (hm_headers hm) = hdrs \<and>
    body_fields hm = request_body verb (of_nat (length (http_request verb uri proto hdrs))) hdrs"
  using mg_parse_http_reads [OF assms] by blast

lemma mg_parse_http_request_witness:
  "\<exists>hm. mg_parse_http (http_request (cstr ''POST'') (cstr ''/a?b'') (cstr ''HTTP/1.1'') [(cstr ''Host'', cstr ''x''),
        (cstr ''Content-Length'', cstr ''2'')] @ [1, 2]) True = Some (Message 50 hm) \<and>
    hm_body_len hm = 2 \<and> hm_message_len hm = 52"
proof -
  let ?h = "[(cstr ''Host'', cstr ''x''), (cstr ''Content-Length'', cstr ''2'')]"
  let ?r = "http_request (cstr ''POST'') (cstr ''/a?b'') (cstr ''HTTP/1.1'') ?h"
  have "\<exists>hm. mg_parse_http (?r @ [1, 2]) True = Some (Message (length ?r) hm) \<and>
    says_line (?r @ [1, 2]) hm (cstr ''POST'') (cstr ''/a?b'') (cstr ''HTTP/1.1'') \<and> map (ref_pair (?r @ [1, 2])) (hm_headers hm) = ?h \<and>
    body_fields hm = request_body (cstr ''POST'') (of_nat (length ?r)) ?h"
    by (rule mg_parse_http_request) (simp_all add: http_token_def good_header_def isprint_def)
  moreover have "length ?r = 50" by code_simp
  moreover have "request_body (cstr ''POST'') 50 ?h = (2, 52)" by code_simp
  ultimately show ?thesis by (auto simp: body_fields_def)
qed

subsection \<open>Lookup and the body length\<close>

text \<open>Content-Length is recognised by its first 14 bytes, so a header whose name only starts like it sets the
body length, and the lookup of Content-Length does not find it.\<close>

definition lengthy_request :: bytes where
  "lengthy_request = http_request (cstr ''GET'') (cstr ''/'') (cstr ''X'') [(cstr ''Content-Lengthy'', cstr ''7'')]"

lemma content_length_prefix:
  "map_option (\<lambda>p. case p of Message n hm \<Rightarrow> (n, hm_body_len hm, hm_message_len hm,
       mg_get_http_header lengthy_request hm (cstr ''Content-Length'')) | _ \<Rightarrow> (0, 0, 0, None))
     (mg_parse_http lengthy_request True) = Some (31, 7, 38, None)"
  by code_simp

subsection \<open>Every string of a message lies in its header\<close>

definition ref_in :: "nat \<Rightarrow> mg_ref \<Rightarrow> bool" where "ref_in e r \<longleftrightarrow> fst r + snd r \<le> e"

definition message_in :: "nat \<Rightarrow> http_message \<Rightarrow> bool" where
  "message_in e hm \<longleftrightarrow> (\<forall>r \<in> set_option (hm_method hm) \<union> set_option (hm_uri hm) \<union> set_option (hm_proto hm) \<union>
     set_option (hm_resp_status_msg hm) \<union> set_option (hm_query_string hm). ref_in e r) \<and>
     (\<forall>h \<in> set (hm_headers hm). ref_in e (fst h) \<and> ref_in e (snd h))"

lemma mg_skip_in: "mg_skip buf s end d = (r, t) \<Longrightarrow> s \<le> end \<Longrightarrow> ref_in end r \<and> t \<le> end"
  using mg_skip_ge [of s buf "end" d] mg_skip_le [of s "end" buf d] mg_skip_fst [of buf s "end" d] by (simp add: ref_in_def)

lemma trim_value_in: "ref_in e v \<Longrightarrow> ref_in e (trim_value buf v)"
  using length_dropWhile_le [of "\<lambda>c. c = 32" "rev (ref_str buf v)"] by (simp add: ref_in_def trim_value_def ref_str_def)

lemma parse_header_in:
  assumes "s \<le> end" "message_in end req" "parse_header buf s end len i req = (b, s', i', req')"
  shows "s' \<le> end \<and> message_in end req'"
proof -
  obtain k s1 v s2 where k: "mg_skip buf s end [58, 32] = (k, s1)" and v: "mg_skip buf s1 end [13, 10] = (v, s2)"
    by fastforce
  have "ref_in end k \<and> s1 \<le> end" using mg_skip_in [OF k assms(1)] .
  moreover from this have "ref_in end v \<and> s2 \<le> end" using mg_skip_in [OF v] by blast
  ultimately show ?thesis
    using assms(2,3) trim_value_in [of "end" v buf]
    by (auto simp: parse_header_def k v Let_def message_in_def split: if_splits)
qed

lemma parse_headers_in:
  "s \<le> end \<Longrightarrow> message_in end req \<Longrightarrow> message_in end (snd (mg_http_parse_headers buf s end len i req))"
proof (induction buf s "end" len i req rule: mg_http_parse_headers.induct)
  case (1 buf s "end" len i req)
  obtain b s' i' req' where p: "parse_header buf s end len i req = (b, s', i', req')" by (metis prod_cases4)
  have n: "s' \<le> end \<and> message_in end req'" using parse_header_in [OF "1.prems" p] .
  show ?case
  proof (cases "b \<and> i < MG_MAX_HTTP_HEADERS - 1")
    case True
    then have "message_in end (snd (mg_http_parse_headers buf s' end len i' req'))"
      using "1.IH" [OF _ p [symmetric] _ refl refl] n by blast
    with True p show ?thesis by (subst mg_http_parse_headers.simps) simp
  next
    case False
    with p n "1.prems" show ?thesis by (subst mg_http_parse_headers.simps) (cases b; simp)
  qed
qed

lemma parse_request_line_in:
  assumes "s \<le> end" "message_in end hm" "parse_request_line buf s end hm = Some (s', hm')"
  shows "s' \<le> end \<and> message_in end hm'"
proof -
  obtain m s1 u s2 p s3 where k: "mg_skip buf s end [32] = (m, s1)" "mg_skip buf s1 end [32] = (u, s2)"
      "mg_skip buf s2 end [13, 10] = (p, s3)" by (metis surj_pair)
  have m: "ref_in end m \<and> s1 \<le> end" using mg_skip_in [OF k(1) assms(1)] .
  then have u: "ref_in end u \<and> s2 \<le> end" using mg_skip_in [OF k(2)] by blast
  then have p: "ref_in end p \<and> s3 \<le> end" using mg_skip_in [OF k(3)] by blast
  have q: "j < snd u" if "memchr (ref_str buf u) 63 = Some j" for j
    using mg_strchr_Some [OF that] by (simp add: ref_str_def)
  show ?thesis
    using assms(2,3) m u p q
    by (auto simp: parse_request_line_def k Let_def message_in_def ref_in_def split: if_splits option.splits)
qed

lemma parse_status_line_in:
  assumes "s \<le> end" "message_in end hm" "parse_status_line buf s end hm = Some (Some (s', hm'))"
  shows "s' \<le> end \<and> message_in end hm'"
proof -
  obtain p s1 where p: "mg_skip buf s end [32] = (p, s1)" by fastforce
  obtain m s2 where m: "mg_skip buf (s1 + 4) end [13, 10] = (m, s2)" by fastforce
  have "ref_in end p \<and> s1 \<le> end" using mg_skip_in [OF p assms(1)] .
  moreover have "s1 + 4 \<le> end \<Longrightarrow> ref_in end m \<and> s2 \<le> end" using mg_skip_in [OF m] by blast
  ultimately show ?thesis
    using assms(2,3) by (auto simp: parse_status_line_def p m Let_def message_in_def split: if_splits bind_splits)
qed

lemma parse_http_in:
  assumes "mg_parse_http buf is_req = Some (Message n hm)"
  shows "n \<le> length buf \<and> message_in n hm"
proof -
  let ?s = "length (takeWhile isspace (take n buf))"
  have r: "0 < mg_http_get_request_len buf" and n: "n = nat (mg_http_get_request_len buf)"
    using assms by (auto simp: mg_parse_http_def Let_def split: if_splits bind_splits option.splits)
  then have le: "n \<le> length buf" using request_len_from_bound [of buf 0] by (simp add: mg_http_get_request_len_def)
  have s: "?s \<le> n" using length_takeWhile_le [of isspace "take n buf"] by simp
  have nm: "message_in n (no_message n)" by (simp add: message_in_def no_message_def)
  obtain s' hm' where l: "is_req \<Longrightarrow> parse_request_line buf ?s n (no_message n) = Some (s', hm')"
      "\<not> is_req \<Longrightarrow> parse_status_line buf ?s n (no_message n) = Some (Some (s', hm'))"
      "hm = default_body buf is_req n (snd (mg_http_parse_headers buf s' n n 0 hm'))"
    using assms r n by (auto simp: mg_parse_http_def Let_def split: if_splits bind_splits option.splits)
  have "s' \<le> n \<and> message_in n hm'" using l(1,2) s nm parse_request_line_in parse_status_line_in by (cases is_req) blast+
  then have "message_in n (snd (mg_http_parse_headers buf s' n n 0 hm'))" using parse_headers_in by blast
  then show ?thesis using le by (simp add: l(3) default_body_def message_in_def)
qed

text \<open>C32: Whatever bytes come in, a request or a reply that is accepted has its header within the buffer, and every string of
the message (method, URI, query, protocol, reason, header names and values) within the header: no use of a parsed message reads
outside what has been received.\<close>

theorem mg_parse_http_refs:
  assumes "mg_parse_http buf is_req = Some (Message n hm)"
  shows "n \<le> length buf \<and> message_in n hm"
  by (rule parse_http_in [OF assms])

lemma mg_parse_http_refs_witness:
  "\<exists>hm. mg_parse_http (cstr ''HTTP/1.1 200 OK'' @ [13, 10] @ cstr ''A: b'' @ [13, 10, 13, 10]) False = Some (Message 25 hm) \<and> message_in 25 hm"
proof -
  let ?b = "cstr ''HTTP/1.1 200 OK'' @ [13, 10] @ cstr ''A: b'' @ [13, 10, 13, 10]"
  have "case mg_parse_http ?b False of Some (Message n hm) \<Rightarrow> n = 25 | _ \<Rightarrow> False" by code_simp
  then obtain hm where "mg_parse_http ?b False = Some (Message 25 hm)" by (auto split: option.splits http_parse.splits)
  with mg_parse_http_refs [OF this] show ?thesis by blast
qed

subsection \<open>Looking up a header\<close>

definition same_name :: "bytes \<Rightarrow> bytes \<Rightarrow> bool" where "same_name k name \<longleftrightarrow> map tolower k = map tolower name"

lemma header_lookup:
  assumes "message_in (length buf) hm" "0 \<notin> set name" "\<forall>h \<in> set hdrs. 0 \<notin> set (fst h)" "map (ref_pair buf) (hm_headers hm) = hdrs"
  shows "map_option (ref_str buf) (mg_get_http_header buf hm name) = map_option snd (find (\<lambda>h. same_name (fst h) name) hdrs)"
proof -
  have "map_option (ref_str buf) (map_option snd (find (\<lambda>(h, v). snd h = length name \<and>
         mg_ncasecmp (drop (fst h) buf) name (length name) = 0) hs)) =
       map_option snd (find (\<lambda>h. same_name (fst h) name) (map (ref_pair buf) hs))"
    if "\<forall>h \<in> set hs. ref_in (length buf) (fst h)" "\<forall>h \<in> set hs. 0 \<notin> set (ref_str buf (fst h))" for hs
    using that
  proof (induction hs)
    case (Cons h hs)
    obtain k v where h: "h = (k, v)" by (cases h)
    have len: "length (ref_str buf k) = snd k" using Cons.prems(1) by (auto simp: h ref_in_def ref_str_def)
    have "snd k = length name \<and> mg_ncasecmp (drop (fst k) buf) name (length name) = 0 \<longleftrightarrow> same_name (ref_str buf k) name"
    proof (cases "snd k = length name")
      case True
      have z: "0 \<notin> set (ref_str buf k)" using Cons.prems(2) by (simp add: h)
      then show ?thesis
        using ncasecmp_zero_iff [of "length name" "drop (fst k) buf" name] True len
        by (simp add: same_name_def ref_str_def min_def split: if_splits)
    next
      case False
      then show ?thesis using len by (auto simp: same_name_def dest: arg_cong [where f = length])
    qed
    then show ?case using Cons by (simp add: h ref_pair_def case_prod_unfold)
  qed simp
  from this [of "hm_headers hm"] show ?thesis
    using assms by (auto simp: mg_get_http_header_def message_in_def ref_pair_def)
qed

subsection \<open>Reading back a reply\<close>

definition digit_byte :: "nat \<Rightarrow> byte" where "digit_byte d = of_nat (48 + d)"

definition code_bytes :: "nat \<Rightarrow> bytes" where
  "code_bytes code = map digit_byte [code div 100, code div 10 mod 10, code mod 10]"

definition http_reply :: "bytes \<Rightarrow> nat \<Rightarrow> bytes \<Rightarrow> (bytes \<times> bytes) list \<Rightarrow> bytes" where
  "http_reply proto code msg hdrs = proto @ [32] @ code_bytes code @ [32] @ msg @ [13, 10] @ header_lines hdrs"

definition says_status :: "bytes \<Rightarrow> http_message \<Rightarrow> bytes \<Rightarrow> nat \<Rightarrow> bytes \<Rightarrow> bool" where
  "says_status buf hm proto code msg \<longleftrightarrow> opt_str buf (hm_proto hm) = proto \<and> hm_resp_code hm = int code \<and>
     opt_str buf (hm_resp_status_msg hm) = msg"

lemma digit_byte:
  assumes "d < 10"
  shows "isdigit (digit_byte d)" "uint (digit_byte d) = 48 + int d" "isprint (digit_byte d)" "digit_byte d \<notin> {0, 32, 43, 45}"
    "\<not> isspace (digit_byte d)"
proof -
  have "\<forall>d \<in> set [0..<10]. isdigit (digit_byte d) \<and> uint (digit_byte d) = 48 + int d \<and> isprint (digit_byte d) \<and>
    digit_byte d \<notin> {0, 32, 43, 45} \<and> \<not> isspace (digit_byte d)" by code_simp
  with assms show "isdigit (digit_byte d)" "uint (digit_byte d) = 48 + int d" "isprint (digit_byte d)"
    "digit_byte d \<notin> {0, 32, 43, 45}" "\<not> isspace (digit_byte d)" by auto
qed

lemma atoi_code:
  assumes "code < 1000"
  shows "atoi (code_bytes code @ 32 # rest) = Some (int code)"
proof -
  define a b c where d: "a = code div 100" "b = code div 10 mod 10" "c = code mod 10"
  have l: "a < 10" "b < 10" "c < 10" using assms by (simp_all add: d)
  have "\<not> isdigit 32" by (simp add: isdigit_def)
  note D = this digit_byte [OF l(1)] digit_byte [OF l(2)] digit_byte [OF l(3)]
  have "code div 10 div 10 = a" by (simp add: d(1) div_mult2_eq [symmetric])
  then have v: "(a * 10 + b) * 10 + c = code"
    using div_mult_mod_eq [of "code div 10" 10] div_mult_mod_eq [of code 10] by (simp add: d)
  have b: "code_bytes code = [digit_byte a, digit_byte b, digit_byte c]" by (simp add: code_bytes_def d)
  have "strtoll (code_bytes code @ 32 # rest) = int ((a * 10 + b) * 10 + c)"
    unfolding b strtoll_def using D l by (simp add: Let_def)
  then show ?thesis unfolding v using assms by (simp add: atoi_def)
qed

lemma isprint_code: "code < 1000 \<Longrightarrow> c \<in> set (code_bytes code) \<Longrightarrow> isprint c \<and> c \<noteq> 32 \<and> c \<noteq> 0"
proof -
  assume "code < 1000" "c \<in> set (code_bytes code)"
  then obtain d where "c = digit_byte d" "d < 10" unfolding code_bytes_def by auto
  with digit_byte [of d] show ?thesis by simp
qed

lemma code_bytes_nonempty: "length (code_bytes code) = 3" "code_bytes code \<noteq> []"
  by (simp_all add: code_bytes_def)

lemma request_len_lines:
  assumes "\<forall>c \<in> set l. isprint c" "l \<noteq> []" "\<forall>h \<in> set hdrs. good_header h"
  shows "mg_http_get_request_len (l @ 13 # 10 # header_lines hdrs @ body) = int (length l + 2 + length (header_lines hdrs))"
  unfolding mg_http_get_request_len_def request_len_clean [OF assms(1,2)] request_len_header_lines [OF assms(3)] by simp

lemma parse_status_line_window:
  assumes "http_token proto" "code < 600" "100 \<le> code" "msg \<noteq> []" "\<forall>c \<in> set msg. isprint c" "\<forall>h \<in> set hdrs. good_header h"
    and "w = (if hdrs = [] then [13, 10] else [])"
    and "take n buf = proto @ [32] @ (code_bytes code @ [32] @ msg @ ([13, 10] @ w) @ header_window hdrs)" "n \<le> length buf"
  shows "\<exists>s hm'. parse_status_line buf 0 n hm = Some (Some (s, hm')) \<and> take (n - s) (drop s buf) = header_window hdrs \<and>
    hm_headers hm' = hm_headers hm \<and> says_status buf hm' proto code msg"
proof -
  define s1 where "s1 = length proto + 1"
  define s2 where "s2 = s1 + 4 + length msg + length ([13, 10] @ w)"
  have hd: "hd (code_bytes code) \<notin> {32, 0}" using isprint_code [of code "hd (code_bytes code)"] assms(2) code_bytes_nonempty by simp
  have M: "mg_skip buf 0 n (cstr '' '') = ((0, length proto), s1)"
      "take (n - s1) (drop s1 buf) = code_bytes code @ [32] @ msg @ ([13, 10] @ w) @ header_window hdrs"
      "ref_str buf (0, length proto) = proto"
    using mg_skip_window [of n 0 buf proto "[32]" "code_bytes code @ [32] @ msg @ ([13, 10] @ w) @ header_window hdrs" "cstr '' ''"]
      assms(8) http_token_skip [OF assms(1)] hd code_bytes_nonempty by (auto simp: s1_def)
  have len: "length (code_bytes code) = 3" by (rule code_bytes_nonempty)
  have l4: "4 \<le> n - s1" using arg_cong [OF M(2), of length] len by (simp add: min_def split: if_splits)
  have at: "drop s1 buf = code_bytes code @ 32 # msg @ ([13, 10] @ w) @ header_window hdrs @ drop (n - s1) (drop s1 buf)"
    using append_take_drop_id [of "n - s1" "drop s1 buf"] unfolding M(2) by simp
  have sp: "buf ! (s1 + 3) = 32" using l4 assms(9) arg_cong [OF at, of "\<lambda>x. x ! 3"] len by (simp add: nth_append)
  have "take (n - (s1 + 4)) (drop (s1 + 4) buf) = drop 4 (take (n - s1) (drop s1 buf))" by (simp add: drop_take add.commute)
  also have "\<dots> = msg @ ([13, 10] @ w) @ header_window hdrs" unfolding M(2) using len by simp
  finally have W: "take (n - (s1 + 4)) (drop (s1 + 4) buf) = msg @ ([13, 10] @ w) @ header_window hdrs" .
  have P: "mg_skip buf (s1 + 4) n [13, 10] = ((s1 + 4, length msg), s2)"
      "take (n - s2) (drop s2 buf) = header_window hdrs" "ref_str buf (s1 + 4, length msg) = msg"
    using mg_skip_window [OF W, of "[13, 10]"] isprint_skip assms(5) header_window_hd [OF assms(6)]
    by (auto simp: s2_def assms(7))
  have "parse_status_line buf 0 n hm = Some (Some (s2, hm\<lparr>hm_proto := Some (0, length proto), hm_resp_code := int code,
      hm_resp_status_msg := Some (s1 + 4, length msg)\<rparr>))"
    using M(1) l4 sp atoi_code [of code] at assms(2,3) P(1) by (simp add: parse_status_line_def Let_def)
  then show ?thesis using P(2,3) M(3) by (auto simp: says_status_def opt_str_def)
qed

definition status_fields :: "http_message \<Rightarrow> mg_ref option \<times> int \<times> mg_ref option" where
  "status_fields hm = (hm_proto hm, hm_resp_code hm, hm_resp_status_msg hm)"

lemma parse_headers_status: "status_fields (snd (mg_http_parse_headers buf s end len i req)) = status_fields req"
proof (induction buf s "end" len i req rule: mg_http_parse_headers.induct)
  case (1 buf s "end" len i req)
  obtain go s' i' req' where p: "parse_header buf s end len i req = (go, s', i', req')" by (metis prod_cases4)
  then have "status_fields req' = status_fields req"
    by (auto simp: parse_header_def case_prod_unfold Let_def status_fields_def split: if_splits)
  then show ?case
    using 1 p by (subst mg_http_parse_headers.simps) (simp split: bool.split)
qed

lemma mg_parse_http_reads_reply:
  assumes "http_token proto" "100 \<le> code" "code < 600" "msg \<noteq> []" "\<forall>c \<in> set msg. isprint c" "\<forall>h \<in> set hdrs. good_header h"
    and "length hdrs \<le> 39" and buf: "buf = http_reply proto code msg hdrs @ body"
  shows "\<exists>hm. mg_parse_http buf False = Some (Message (length (http_reply proto code msg hdrs)) hm) \<and>
    says_status buf hm proto code msg \<and> map (ref_pair buf) (hm_headers hm) = hdrs \<and>
    body_fields hm = (case body_length hdrs of None \<Rightarrow> (-1, -1)
      | Some k \<Rightarrow> (k, of_nat (length (http_reply proto code msg hdrs)) + k))"
proof -
  define w where "w = (if hdrs = [] then [13, 10] else ([] :: bytes))"
  define n where "n = length (http_reply proto code msg hdrs)"
  define l where "l = proto @ [32] @ code_bytes code @ [32] @ msg"
  have eq: "http_reply proto code msg hdrs = l @ 13 # 10 # header_lines hdrs" by (simp add: http_reply_def l_def)
  have l: "\<forall>c \<in> set l. isprint c" "l \<noteq> []" using assms(1,3,5) isprint_code [of code] by (auto simp: l_def http_token_def isprint_def)
  have len: "mg_http_get_request_len buf = int n"
    using request_len_lines [OF l assms(6), of body] by (simp add: buf eq n_def)
  have n: "0 < n" "n \<le> length buf" by (simp_all add: n_def eq buf)
  have "take n buf = http_reply proto code msg hdrs" by (simp add: n_def buf)
  moreover have "http_reply proto code msg hdrs = proto @ [32] @ (code_bytes code @ [32] @ msg @ ([13, 10] @ w) @ header_window hdrs)"
    using header_lines_window [of hdrs] by (simp add: w_def http_reply_def)
  ultimately have req: "take n buf = proto @ [32] @ (code_bytes code @ [32] @ msg @ ([13, 10] @ w) @ header_window hdrs)"
    by (rule trans)
  obtain c m where c: "proto = c # m" using assms(1) by (cases proto) (auto simp: http_token_def)
  have "isprint c" "c \<noteq> 32" using assms(1) c by (simp_all add: http_token_def)
  moreover have "\<not> (32 \<le> c \<and> c \<le> 13)" by (simp add: word_le_nat_alt)
  ultimately have "\<not> isspace c" by (auto simp: isspace_def isprint_def)
  then have sp: "takeWhile isspace (take n buf) = []" unfolding req c by simp
  obtain s hm1 where line: "parse_status_line buf 0 n (no_message n) = Some (Some (s, hm1))"
      "take (n - s) (drop s buf) = header_window hdrs" "hm_headers hm1 = []" "says_status buf hm1 proto code msg"
    using parse_status_line_window [OF assms(1,3,2,4-6) w_def req n(2), of "no_message n"] by (auto simp: no_message_def)
  define hm where "hm = default_body buf False n (snd (mg_http_parse_headers buf s n n 0 hm1))"
  have parse: "mg_parse_http buf False = Some (Message n hm)"
    using len n sp line(1) by (simp add: mg_parse_http_def Let_def hm_def)
  have "map (ref_pair buf) (hm_headers hm) = hdrs"
    using conjunct1 [OF parse_headers_window [OF line(2) assms(6), of 0 n hm1]] assms(7)
    by (simp add: hm_def default_body_fields line(3) MG_MAX_HTTP_HEADERS_def)
  moreover have "says_status buf hm proto code msg"
    using line(4) parse_headers_status [of buf s n n 0 hm1]
    by (simp add: hm_def default_body_def says_status_def status_fields_def)
  moreover have "body_fields hm = (case body_length hdrs of None \<Rightarrow> (-1, -1) | Some k \<Rightarrow> (k, of_nat n + k))"
    using conjunct2 [OF parse_headers_window [OF line(2) assms(6), of 0 n hm1]] assms(7) parse_status_line_body [OF line(1) refl]
    by (cases "body_length hdrs") (simp_all add: hm_def default_body_def MG_MAX_HTTP_HEADERS_def)
  ultimately show ?thesis using parse unfolding n_def by blast
qed

end
