(* ===== verification/MgHttpCoding.thy ===== *)
theory MgHttpCoding
  imports MgHttp MgMbuf MgBase64
begin

text \<open>
  Encodings around HTTP (mongoose/src/mg_http.c and mg_util.c of 3rdLib/mongoose/mongoose.c): percent
  encoding, form variables, chunked bodies, the alternate buffer, parameters inside a header value, basic
  authentication and the choice of an endpoint. What a function writes to a destination is part of its
  result; a decoder that returns -1 leaves an unspecified destination, which no caller reads.
\<close>

subsection \<open>Percent encoding\<close>

definition upper_hex_digits :: bytes where "upper_hex_digits = cstr ''0123456789ABCDEF''"

definition url_escape :: "bytes \<Rightarrow> bool \<Rightarrow> bool \<Rightarrow> byte \<Rightarrow> bytes" where
  "url_escape safe space_as_plus uppercase c =
     (let hex = (if uppercase then upper_hex_digits else hex_digits) in
      if isalnum c \<or> mg_strchr safe c \<noteq> None then [c]
      else if c = 32 \<and> space_as_plus then [43]
      else [37, hex ! unat (drop_bit 4 c), hex ! unat (c AND 15)])"

text \<open>The terminating zero that the buffer gets is not part of the string.\<close>

definition mg_url_encode_opt :: "bytes \<Rightarrow> bytes \<Rightarrow> bool \<Rightarrow> bool \<Rightarrow> bytes" where
  "mg_url_encode_opt src safe space_as_plus uppercase = concat (map (url_escape safe space_as_plus uppercase) src)"

definition mg_url_encode :: "bytes \<Rightarrow> bytes" where
  "mg_url_encode src = mg_url_encode_opt src (cstr ''._-$,;~()/'') False False"

definition HEXTOI :: "byte \<Rightarrow> byte" where
  "HEXTOI x = (if isdigit x then x - 48 else x - 87)"

text \<open>\<open>room\<close> is how many more bytes the destination takes in front of its zero.\<close>

fun url_decode_loop :: "bytes \<Rightarrow> nat \<Rightarrow> bool \<Rightarrow> bytes option" where
  "url_decode_loop [] room form = Some []"
| "url_decode_loop (c # s) 0 form = None"
| "url_decode_loop (c # s) (Suc room) form =
     (if c = 37 then
        (case s of a # b # t \<Rightarrow>
           if isxdigit a \<and> isxdigit b then
             map_option ((#) (push_bit 4 (HEXTOI (tolower a)) OR HEXTOI (tolower b))) (url_decode_loop t room form)
           else None
         | _ \<Rightarrow> None)
      else map_option ((#) (if form \<and> c = 43 then 32 else c)) (url_decode_loop s room form))"

definition mg_url_decode :: "bytes \<Rightarrow> nat \<Rightarrow> bool \<Rightarrow> bytes option" where
  "mg_url_decode src dst_len form = url_decode_loop src (dst_len - 1) form"

subsection \<open>Form variables\<close>

definition var_at :: "bytes \<Rightarrow> bytes \<Rightarrow> nat \<Rightarrow> bool" where
  "var_at buf name p \<longleftrightarrow> p + length name < length buf \<and> (p = 0 \<or> buf ! (p - 1) = 38) \<and>
     buf ! (p + length name) = 61 \<and> mg_ncasecmp name (drop p buf) (length name) = 0"

text \<open>The return value, and the string that is in the destination when it is not negative.\<close>

definition mg_get_http_var :: "bytes \<Rightarrow> bytes \<Rightarrow> nat \<Rightarrow> int \<times> bytes" where
  "mg_get_http_var buf name dst_len =
     (if dst_len = 0 then (-2, [])
      else if buf = [] then (-1, [])
      else case find (var_at buf name) [0..<length buf] of
        None \<Rightarrow> (-4, [])
      | Some p \<Rightarrow>
          let v = drop (p + length name + 1) buf;
              v = (case memchr v 38 of None \<Rightarrow> v | Some s \<Rightarrow> take s v)
          in case mg_url_decode v dst_len True of
               None \<Rightarrow> (-3, [])
             | Some d \<Rightarrow> (int (length d), d))"

subsection \<open>Chunked bodies\<close>

fun hex_nat :: "nat \<Rightarrow> bytes" where
  "hex_nat n = (if n < 16 then [upper_hex_digits ! n] else hex_nat (n div 16) @ [upper_hex_digits ! (n mod 16)])"

declare hex_nat.simps [simp del]

definition mg_send_http_chunk :: "bytes \<Rightarrow> bytes" where
  "mg_send_http_chunk buf = hex_nat (length buf) @ [13, 10] @ buf @ [13, 10]"

fun chunk_digits :: "bytes \<Rightarrow> nat \<Rightarrow> nat \<Rightarrow> (nat \<times> nat) option" where
  "chunk_digits [] n i = Some (n, i)"
| "chunk_digits (c # s) n i =
     (if isxdigit c then
        let n = n * 16 + (if 48 \<le> c \<and> c \<le> 57 then unat c - 48 else unat (tolower c) - 97 + 10); i = Suc i
        in if i > 6 then None else chunk_digits s n i
      else Some (n, i))"

definition crlf_at :: "bytes \<Rightarrow> nat \<Rightarrow> bool" where
  "crlf_at s i \<longleftrightarrow> \<not> (i = 0 \<or> i + 2 > length s \<or> s ! i \<noteq> 13 \<or> s ! (i + 1) \<noteq> 10)"

text \<open>The length of the whole chunk, where its data are and how many; \<open>None\<close> for the return value 0.\<close>

definition mg_http_parse_chunk :: "bytes \<Rightarrow> (nat \<times> nat \<times> nat) option" where
  "mg_http_parse_chunk buf = do {
     (n, i) \<leftarrow> chunk_digits buf 0 0;
     _ \<leftarrow> ensure (crlf_at buf i);
     let data = i + 2;
     let i = data + n;
     _ \<leftarrow> ensure (crlf_at buf i);
     Some (i + 2, data, n) }"

lemma mg_http_parse_chunk_bounds: "mg_http_parse_chunk s = Some (n, d, l) \<Longrightarrow> 0 < n \<and> n \<le> length s \<and> d + l \<le> n"
  by (auto simp: mg_http_parse_chunk_def crlf_at_def split: if_splits)

text \<open>
  The collapsing loop: position of the next chunk, length of the body so far, the buffer, the length that
  the message's body got (if any), and whether the empty chunk was seen. A move behind the end of
  the buffer would be undefined.
\<close>

function chunk_loop :: "nat \<Rightarrow> nat \<Rightarrow> bytes \<Rightarrow> nat option \<Rightarrow> (nat \<times> nat \<times> bytes \<times> nat option \<times> bool) option" where
  "chunk_loop i body_len buf hm_len =
     (case mg_http_parse_chunk (drop i buf) of
        None \<Rightarrow> Some (i, body_len, buf, hm_len, False)
      | Some (n, data, data_len) \<Rightarrow>
          if data_len = 0 then Some (i + n, body_len, buf, Some body_len, True)
          else if body_len + data_len \<le> length buf then
            chunk_loop (i + n) (body_len + data_len)
              (blit buf body_len (take data_len (drop (i + data) buf))) (Some (body_len + data_len))
          else None)"
  by pat_completeness auto
termination
  by (relation "measure (\<lambda>(i, b, buf, h). length buf - i)") (auto dest!: mg_http_parse_chunk_bounds simp: blit_def min_def)

declare chunk_loop.simps [simp del]

text \<open>
  What the handler of a chunked body works on: the bytes of the receive buffer from the body on
  (\<open>ck_buf\<close>, with \<open>ck_len\<close> of them in use), the reassembled length, and the lengths in the message.
  The user's handler is a parameter: it sees the body and says whether to delete it.
\<close>

record chunk_conn =
  ck_buf :: bytes
  ck_len :: nat
  ck_body_len :: nat
  ck_hm_body_len :: nat
  ck_hm_message_len :: nat

definition mg_handle_chunked :: "(bytes \<Rightarrow> bool) \<Rightarrow> nat \<Rightarrow> chunk_conn \<Rightarrow> (nat \<times> chunk_conn) option" where
  "mg_handle_chunked delete_chunk header_len nc = do {
     let buf = ck_buf nc;
     let blen = length buf;
     _ \<leftarrow> ensure (ck_body_len nc \<le> blen);
     (i, body_len, buf, hm_len, zero) \<leftarrow> chunk_loop (ck_body_len nc) (ck_body_len nc) buf None;
     let nc = (case hm_len of None \<Rightarrow> nc | Some k \<Rightarrow> nc\<lparr>ck_hm_body_len := k\<rparr>);
     (if i > body_len then do {
        _ \<leftarrow> ensure (i \<le> blen);
        let buf = take body_len buf @ drop i buf @ replicate (i - body_len) 0;
        let nc = nc\<lparr>ck_buf := buf, ck_len := ck_len nc - (i - body_len), ck_body_len := body_len\<rparr>;
        let nc = (if delete_chunk (take body_len buf) then
            nc\<lparr>ck_buf := blit (replicate body_len 0 @ drop body_len buf) 0 (take (blen - i) (drop body_len buf)),
               ck_len := ck_len nc - body_len, ck_hm_body_len := 0, ck_body_len := 0\<rparr>
          else nc);
        Some (body_len, if zero then nc\<lparr>ck_hm_message_len := ck_body_len nc + blen - i + header_len\<rparr> else nc) }
      else Some (body_len, nc\<lparr>ck_buf := buf\<rparr>)) }"

subsection \<open>The alternate buffer\<close>

record altbuf =
  ab_m :: mbuf
  ab_user_buf :: bytes
  ab_len :: nat
  ab_user_buf_size :: nat

definition altbuf_init :: "allocator \<Rightarrow> bytes \<Rightarrow> altbuf" where
  "altbuf_init al buf = \<lparr>ab_m = mbuf_init al 0, ab_user_buf = buf, ab_len = 0, ab_user_buf_size = length buf\<rparr>"

definition altbuf_append :: "allocator \<Rightarrow> byte \<Rightarrow> altbuf \<Rightarrow> altbuf option" where
  "altbuf_append al c ab =
     (if ab_len ab < ab_user_buf_size ab then
        Some (ab\<lparr>ab_user_buf := (ab_user_buf ab)[ab_len ab := c], ab_len := ab_len ab + 1\<rparr>)
      else do {
        m \<leftarrow> (if ab_len ab > 0 \<and> mb_len (ab_m ab) = 0 then
               map_option snd (mbuf_append al (ab_m ab) (take (ab_len ab) (ab_user_buf ab)))
             else Some (ab_m ab));
        m \<leftarrow> map_option snd (mbuf_append al m [c]);
        Some (ab\<lparr>ab_m := m, ab_len := mb_len m\<rparr>) })"

fun altbuf_appends :: "allocator \<Rightarrow> bytes \<Rightarrow> altbuf \<Rightarrow> altbuf option" where
  "altbuf_appends al [] ab = Some ab"
| "altbuf_appends al (c # cs) ab = do { ab \<leftarrow> altbuf_append al c ab; altbuf_appends al cs ab }"

definition altbuf_reset :: "allocator \<Rightarrow> altbuf \<Rightarrow> altbuf" where
  "altbuf_reset al ab = ab\<lparr>ab_m := mbuf_free al (ab_m ab), ab_len := 0\<rparr>"

definition altbuf_reallocated :: "altbuf \<Rightarrow> bool" where
  "altbuf_reallocated ab \<longleftrightarrow> ab_len ab > ab_user_buf_size ab"

definition altbuf_get_buf :: "allocator \<Rightarrow> altbuf \<Rightarrow> bool \<Rightarrow> bytes \<times> altbuf" where
  "altbuf_get_buf al ab trim =
     (if altbuf_reallocated ab then
        let ab = (if trim then ab\<lparr>ab_m := mbuf_trim al (ab_m ab)\<rparr> else ab) in (mb_buf (ab_m ab), ab)
      else (ab_user_buf ab, ab))"

subsection \<open>Parameters in a header value\<close>

text \<open>
  \<open>hdr\<close> are the bytes of the value and \<open>z\<close> the memory behind it, which the scanner of a quoted value may look at.
\<close>

definition param_at :: "bytes \<Rightarrow> bytes \<Rightarrow> nat \<Rightarrow> bool" where
  "param_at hdr name s \<longleftrightarrow> s + length name < length hdr \<and> (s = 0 \<or> hdr ! (s - 1) \<in> {32, 44, 59}) \<and>
     hdr ! (s + length name) = 61 \<and> strncmp (drop s hdr) name (length name) = 0"

text \<open>The characters appended, and the one at which the scan ended (\<open>n\<close> bytes are left in the value).\<close>

fun param_scan :: "byte \<Rightarrow> byte \<Rightarrow> byte \<Rightarrow> bytes \<Rightarrow> nat \<Rightarrow> bytes \<times> byte" where
  "param_scan ch ch1 ch2 p 0 = ([], cchar p 0)"
| "param_scan ch ch1 ch2 p (Suc n) =
     (if cchar p 0 = ch \<or> cchar p 0 = ch1 \<or> cchar p 0 = ch2 then ([], cchar p 0)
      else if ch \<noteq> 32 \<and> cchar p 0 = 92 \<and> cchar p 1 = ch then
        let (v, e) = param_scan ch ch1 ch2 (drop 2 p) (n - 1) in (cchar p 1 # v, e)
      else
        let (v, e) = param_scan ch ch1 ch2 (drop 1 p) n in (cchar p 0 # v, e))"

definition mg_http_parse_header_internal :: "allocator \<Rightarrow> bytes \<Rightarrow> bytes \<Rightarrow> bytes \<Rightarrow> altbuf \<Rightarrow> altbuf option" where
  "mg_http_parse_header_internal al hdr z name ab = do {
     ab \<leftarrow> (case find (param_at hdr name) [0..<length hdr] of
         Some s \<Rightarrow>
           if s + length name + 1 < length hdr then
             let s = s + length name + 1;
                 quoted = (hdr ! s = 34 \<or> hdr ! s = 39);
                 (ch, ch1, ch2) = (if quoted then (hdr ! s, hdr ! s, hdr ! s) else (32, 44, 59));
                 s = (if quoted then s + 1 else s);
                 (v, e) = param_scan ch ch1 ch2 (drop s (hdr @ z)) (length hdr - s)
             in do {
               ab \<leftarrow> altbuf_appends al v ab;
               Some (if ch \<noteq> 32 \<and> e \<noteq> ch then altbuf_reset al ab else ab) }
           else Some ab
       | None \<Rightarrow> Some ab);
     (if ab_len ab > 0 then altbuf_append al 0 ab else Some ab) }"

text \<open>The length without the zero, and the buffer that holds the string (with whether it is a new one).\<close>

definition mg_http_parse_header2 :: "allocator \<Rightarrow> (bytes \<times> bytes) option \<Rightarrow> bytes \<Rightarrow> bytes \<Rightarrow> (nat \<times> bytes \<times> bool) option" where
  "mg_http_parse_header2 al hdr name buf =
     (case hdr of None \<Rightarrow> Some (0, buf, False)
      | Some (hdr, z) \<Rightarrow> do {
          ab \<leftarrow> mg_http_parse_header_internal al hdr z name (altbuf_init al (if buf \<noteq> [] then buf[0 := 0] else buf));
          let (b, ab) = altbuf_get_buf al ab True;
          Some (if ab_len ab > 0 then ab_len ab - 1 else 0, b, altbuf_reallocated ab) })"

definition mg_http_parse_header :: "allocator \<Rightarrow> (bytes \<times> bytes) option \<Rightarrow> bytes \<Rightarrow> bytes \<Rightarrow> nat option" where
  "mg_http_parse_header al hdr name buf =
     map_option (\<lambda>(len, b, moved). if moved then 0 else len) (mg_http_parse_header2 al hdr name buf)"

subsection \<open>Basic authentication\<close>

definition mg_mbuf_append_base64 :: "bytes \<Rightarrow> bytes \<Rightarrow> bytes \<Rightarrow> bytes" where
  "mg_mbuf_append_base64 junk mbuf data =
     mbuf @ b64_out (cs_base64_finish (cs_base64_update data (cs_base64_init junk)))"

definition mg_basic_auth_header :: "bytes \<Rightarrow> bytes \<Rightarrow> bytes \<Rightarrow> bytes \<Rightarrow> bytes" where
  "mg_basic_auth_header junk user pass buf =
     (let ctx = cs_base64_init junk;
          buf = buf @ cstr ''Authorization: Basic '';
          ctx = cs_base64_update user ctx;
          ctx = (if length pass > 0 then cs_base64_update pass (cs_base64_update (cstr '':'') ctx) else ctx);
          ctx = cs_base64_finish ctx
      in buf @ b64_out ctx @ [13, 10])"

text \<open>
  sscanf with the format \<open>%N[^:]:%M[^\n]\<close> (both widths positive): the number of conversions and the strings
  stored; \<open>-1\<close> when the input ends before the first conversion.
\<close>

definition sscanf_user_pass :: "bytes \<Rightarrow> nat \<Rightarrow> nat \<Rightarrow> int \<times> bytes option \<times> bytes option" where
  "sscanf_user_pass s n m =
     (let s = takeWhile (\<lambda>c. c \<noteq> 0) s;
          user = take n (takeWhile (\<lambda>c. c \<noteq> 58) s);
          s' = drop (length user) s
      in if s = [] then (-1, None, None)
         else if user = [] then (0, None, None)
         else if s' \<noteq> [] \<and> hd s' = 58 then
           let pass = take m (takeWhile (\<lambda>c. c \<noteq> 10) (tl s')) in
           if pass = [] then (1, Some user, None) else (2, Some user, Some pass)
         else (1, Some user, None))"

text \<open>
  The value is decoded over its whole length from its seventh byte on, so up to six bytes behind it are looked
  at (\<open>z\<close> is the memory there). The strings are \<open>None\<close> where the destination is not written.
\<close>

definition mg_parse_http_basic_auth :: "bytes \<Rightarrow> bytes \<Rightarrow> nat \<Rightarrow> nat \<Rightarrow> int \<times> bytes option \<times> bytes option" where
  "mg_parse_http_basic_auth hdr z user_len pass_len =
     (if mg_strncmp hdr (cstr ''Basic '') 6 \<noteq> 0 then (-1, None, None)
      else
        let buf = fst (cs_base64_decode (take (length hdr) (drop 6 (hdr @ z))));
            (n, user, pass) = sscanf_user_pass buf (user_len - 1) (pass_len - 1)
        in (if n = 0 then -1 else 0, user, pass))"

subsection \<open>Endpoints\<close>

text \<open>Endpoints are the pairs of a pattern and a handler, in list order.\<close>

fun endpoint_loop :: "(bytes \<times> 'h) list \<Rightarrow> bytes \<Rightarrow> 'h option \<Rightarrow> nat \<Rightarrow> 'h option" where
  "endpoint_loop [] uri_path ret matched_max = ret"
| "endpoint_loop ((uri_pattern, h) # eps) uri_path ret matched_max =
     (let matched = mg_match_prefix_n uri_pattern uri_path in
      if matched > 0 \<and> matched > matched_max then endpoint_loop eps uri_path (Some h) matched
      else endpoint_loop eps uri_path ret matched_max)"

definition mg_http_get_endpoint_handler :: "(bytes \<times> 'h) list option \<Rightarrow> bytes \<Rightarrow> 'h option" where
  "mg_http_get_endpoint_handler nc uri_path = (case nc of None \<Rightarrow> None | Some eps \<Rightarrow> endpoint_loop eps uri_path None 0)"


subsection \<open>Percent encoding\<close>

lemma hex_digit_chars:
  assumes "n < 16" "hex \<in> {hex_digits, upper_hex_digits}"
  shows "isxdigit (hex ! n)" "HEXTOI (tolower (hex ! n)) = of_nat n"
proof -
  have "\<forall>n \<in> set [0..<16]. isxdigit (hex_digits ! n) \<and> HEXTOI (tolower (hex_digits ! n)) = of_nat n \<and>
    isxdigit (upper_hex_digits ! n) \<and> HEXTOI (tolower (upper_hex_digits ! n)) = of_nat n" by code_simp
  then show "isxdigit (hex ! n)" "HEXTOI (tolower (hex ! n)) = of_nat n" using assms by auto
qed

lemma join_nibbles: "push_bit 4 (drop_bit 4 c) OR (c AND 15) = (c :: byte)"
  by (rule byte_eqI; simp add: bit_simps)

lemma url_decode_escape:
  assumes "37 \<notin> set safe" "form \<longrightarrow> 43 \<notin> set safe" "sp \<longrightarrow> form"
  shows "url_decode_loop (url_escape safe sp upper c @ s) (Suc room) form = map_option ((#) c) (url_decode_loop s room form)"
proof -
  define hex where "hex = (if upper then upper_hex_digits else hex_digits)"
  have h: "hex \<in> {hex_digits, upper_hex_digits}" by (simp add: hex_def)
  consider "isalnum c \<or> c \<in> set safe" | "\<not> (isalnum c \<or> c \<in> set safe)" "c = 32 \<and> sp" |
    "\<not> (isalnum c \<or> c \<in> set safe)" "\<not> (c = 32 \<and> sp)" by blast
  then show ?thesis
  proof cases
    case 1
    then have "c \<noteq> 37" "form \<longrightarrow> c \<noteq> 43" using assms by (auto simp: isalnum_def isdigit_def)
    with 1 show ?thesis by (auto simp: url_escape_def mg_strchr_None)
  next
    case 2
    with assms show ?thesis by (simp add: url_escape_def mg_strchr_None)
  next
    case 3
    then have e: "url_escape safe sp upper c = [37, hex ! unat (drop_bit 4 c), hex ! unat (c AND 15)]"
      by (auto simp: url_escape_def mg_strchr_None hex_def)
    show ?thesis
      unfolding e using hex_digit_chars [OF nibbles(1) h, of c] hex_digit_chars [OF nibbles(2) h, of c]
      by (simp add: join_nibbles)
  qed
qed

text \<open>Percent-decoding gives back what was encoded, with or without plus signs for spaces, for every set of
characters to leave alone that holds no percent sign (and no plus sign where forms are decoded), when the
destination has room for the result and its zero.\<close>

theorem mg_url_roundtrip:
  assumes "37 \<notin> set safe" "form \<longrightarrow> 43 \<notin> set safe" "sp \<longrightarrow> form" "length src < dst_len"
  shows "mg_url_decode (mg_url_encode_opt src safe sp upper) dst_len form = Some src"
proof -
  have "url_decode_loop (mg_url_encode_opt src safe sp upper) room form = Some src" if "length src \<le> room" for room
    using that
  proof (induction src arbitrary: room)
    case Nil
    show ?case by (cases room) (simp_all add: mg_url_encode_opt_def)
  next
    case (Cons c src)
    then obtain r where r: "room = Suc r" "length src \<le> r" by (cases room) auto
    have e: "mg_url_encode_opt (c # src) safe sp upper = url_escape safe sp upper c @ mg_url_encode_opt src safe sp upper"
      by (simp add: mg_url_encode_opt_def)
    show ?case unfolding e r(1) url_decode_escape [OF assms(1-3)] Cons.IH [OF r(2)] by simp
  qed
  with assms(4) show ?thesis by (simp add: mg_url_decode_def)
qed

lemma mg_url_roundtrip_witness: "mg_url_decode (mg_url_encode_opt [97, 32, 255] [45] True False) 4 True = Some [97, 32, 255]"
  by (rule mg_url_roundtrip) auto

subsection \<open>Endpoints\<close>

text \<open>The endpoint that handles a path is one whose pattern matches it, and no other pattern matches a longer
part; no endpoint is returned only when none matches.\<close>

theorem mg_http_get_endpoint_handler_longest:
  "(case mg_http_get_endpoint_handler (Some eps) path of
      Some h \<Rightarrow> \<exists>p. (p, h) \<in> set eps \<and> mg_match_prefix_n p path > 0 \<and>
        (\<forall>(q, _) \<in> set eps. mg_match_prefix_n q path \<le> mg_match_prefix_n p path)
    | None \<Rightarrow> \<forall>(q, _) \<in> set eps. mg_match_prefix_n q path = 0)"
proof -
  define best where "best eps r m = (case r of
      Some h \<Rightarrow> \<exists>p. (p, h) \<in> set eps \<and> mg_match_prefix_n p path > 0 \<and> m = mg_match_prefix_n p path \<and>
        (\<forall>(q, _) \<in> set eps. mg_match_prefix_n q path \<le> m)
    | None \<Rightarrow> m = 0 \<and> (\<forall>(q, _) \<in> set eps. mg_match_prefix_n q path = 0))"
    for eps :: "(bytes \<times> 'a) list" and r :: "'a option" and m :: nat
  have "\<exists>m'. best (done @ eps) (endpoint_loop eps path r m) m'" if "best done r m" for "done" r m
    using that
  proof (induction eps arbitrary: "done" r m)
    case (Cons e eps)
    obtain p h where e: "e = (p, h)" by fastforce
    define k where "k = mg_match_prefix_n p path"
    have "best (done @ [e]) (if k > 0 \<and> k > m then Some h else r) (if k > 0 \<and> k > m then k else m)"
    proof (cases "k > 0 \<and> k > m")
      case True
      have "mg_match_prefix_n q path \<le> k" if "(q, x) \<in> set done" for q x
        using that Cons.prems True by (cases r) (force simp: best_def)+
      with True show ?thesis by (auto simp: best_def e k_def [symmetric] intro!: exI [of _ p])
    next
      case False
      with Cons.prems show ?thesis by (cases r) (auto simp: best_def e k_def [symmetric])
    qed
    from Cons.IH [OF this] show ?case by (auto simp: e k_def Let_def)
  qed auto
  from this [of "[]" None 0] obtain m where "best eps (endpoint_loop eps path None 0) m" by (auto simp: best_def)
  then show ?thesis by (auto simp: best_def mg_http_get_endpoint_handler_def split: option.splits)
qed


lemma mg_http_get_endpoint_handler_longest_witness:
  "\<exists>p. (p, 2) \<in> set [(cstr ''/a'', 1), (cstr ''/a/*'', 2 :: nat)] \<and>
     (\<forall>(q, _) \<in> set [(cstr ''/a'', 1), (cstr ''/a/*'', 2 :: nat)]. mg_match_prefix_n q (cstr ''/a/b'') \<le> mg_match_prefix_n p (cstr ''/a/b''))"
proof -
  have "mg_http_get_endpoint_handler (Some [(cstr ''/a'', 1), (cstr ''/a/*'', 2 :: nat)]) (cstr ''/a/b'') = Some 2" by code_simp
  then show ?thesis
    using mg_http_get_endpoint_handler_longest [of "[(cstr ''/a'', 1), (cstr ''/a/*'', 2 :: nat)]" "cstr ''/a/b''"]
    unfolding \<open>mg_http_get_endpoint_handler _ _ = Some 2\<close> option.case by blast
qed


subsection \<open>Chunked bodies: the data come back\<close>

definition chunk_digit :: "byte \<Rightarrow> nat" where
  "chunk_digit c = (if 48 \<le> c \<and> c \<le> 57 then unat c - 48 else unat (tolower c) - 97 + 10)"

lemma upper_hex_digit:
  assumes "n < 16"
  shows "isxdigit (upper_hex_digits ! n)" "chunk_digit (upper_hex_digits ! n) = n"
proof -
  have "\<forall>n \<in> set [0..<16]. isxdigit (upper_hex_digits ! n) \<and> chunk_digit (upper_hex_digits ! n) = n" by code_simp
  then show "isxdigit (upper_hex_digits ! n)" "chunk_digit (upper_hex_digits ! n) = n" using assms by auto
qed

lemma chunk_digits_append:
  "\<forall>c \<in> set xs. isxdigit c \<Longrightarrow> i + length xs \<le> 6 \<Longrightarrow>
     chunk_digits (xs @ s) n i = chunk_digits s (fold (\<lambda>c n. n * 16 + chunk_digit c) xs n) (i + length xs)"
  by (induction xs arbitrary: n i) (auto simp: chunk_digit_def Let_def)

lemma hex_nat_digits: "\<forall>c \<in> set (hex_nat k). isxdigit c"
proof (induction k rule: hex_nat.induct)
  case (1 k)
  then show ?case by (subst hex_nat.simps) (auto simp: upper_hex_digit)
qed

lemma hex_nat_value: "fold (\<lambda>c n. n * 16 + chunk_digit c) (hex_nat k) 0 = k"
proof (induction k rule: hex_nat.induct)
  case (1 k)
  then show ?case by (subst hex_nat.simps) (simp add: upper_hex_digit)
qed

lemma hex_nat_length: "k < 16 ^ Suc m \<Longrightarrow> length (hex_nat k) \<le> Suc m"
proof (induction m arbitrary: k)
  case (Suc m)
  then have "k div 16 < 16 ^ Suc m" by (simp add: less_mult_imp_div_less mult.commute)
  from Suc.IH [OF this] show ?case by (subst hex_nat.simps) simp
qed (simp add: hex_nat.simps)

lemma hex_nat_pos: "0 < length (hex_nat k)"
  by (subst hex_nat.simps) simp

lemma parse_send_chunk:
  assumes "length d < 2 ^ 24"
  shows "mg_http_parse_chunk (mg_send_http_chunk d @ rest) =
    Some (length (mg_send_http_chunk d), length (hex_nat (length d)) + 2, length d)"
proof -
  let ?h = "hex_nat (length d)"
  have l: "length ?h \<le> 6" using hex_nat_length [of "length d" 5] assms by simp
  have e: "mg_send_http_chunk d @ rest = ?h @ 13 # 10 # d @ 13 # 10 # rest" by (simp add: mg_send_http_chunk_def)
  have c: "chunk_digits (?h @ 13 # 10 # d @ 13 # 10 # rest) 0 0 = Some (length d, length ?h)"
    using chunk_digits_append [OF hex_nat_digits, of 0 "length d" "13 # 10 # d @ 13 # 10 # rest" 0] l
    by (simp add: hex_nat_value isxdigit_def isdigit_def)
  have 1: "crlf_at (?h @ 13 # 10 # d @ 13 # 10 # rest) (length ?h)"
    using hex_nat_pos [of "length d"] by (simp add: crlf_at_def nth_append)
  have 2: "crlf_at ((?h @ 13 # 10 # d) @ 13 # 10 # rest) (length (?h @ 13 # 10 # d))"
    by (simp only: crlf_at_def nth_append) simp
  then have 3: "crlf_at (?h @ 13 # 10 # d @ 13 # 10 # rest) (length ?h + 2 + length d)" by (simp add: ac_simps)
  show ?thesis
    unfolding e mg_http_parse_chunk_def c using 1 3 by (simp add: mg_send_http_chunk_def)
qed

definition send_chunks :: "bytes list \<Rightarrow> bytes" where
  "send_chunks ds = concat (map mg_send_http_chunk ds)"

lemma chunk_loop_chunks:
  assumes "\<forall>d \<in> set ds. d \<noteq> [] \<and> length d < 2 ^ 24"
    and "take b buf = body" "b \<le> i" "i \<le> length buf"
    and "drop i buf = send_chunks ds @ (if fin then mg_send_http_chunk [] @ rest else rest)"
    and "fin \<or> mg_http_parse_chunk rest = None"
  shows "\<exists>buf' hm'. chunk_loop i b buf hm = Some (length buf - length rest, b + length (concat ds), buf', hm', fin) \<and>
    take (b + length (concat ds)) buf' = body @ concat ds \<and> drop (length buf - length rest) buf' = rest \<and>
    length buf' = length buf \<and> b + length (concat ds) \<le> length buf - length rest"
  using assms
proof (induction ds arbitrary: i b buf body hm)
  case Nil
  show ?case
  proof (cases fin)
    case True
    have p: "mg_http_parse_chunk (drop i buf) = Some (length (mg_send_http_chunk []), length (hex_nat 0) + 2, 0)"
      using Nil(5) parse_send_chunk [of "[]" rest] by (simp add: True send_chunks_def)
    have l: "length buf - i = length (mg_send_http_chunk []) + length rest"
      using arg_cong [OF Nil(5), of length] by (simp add: True send_chunks_def)
    then have e: "i + length (mg_send_http_chunk []) = length buf - length rest" using Nil(4) by linarith
    have "drop (length buf - length rest) buf = drop (length (mg_send_http_chunk [])) (drop i buf)"
      using e by (simp add: add.commute)
    also have "\<dots> = rest" using Nil(5) by (simp add: True send_chunks_def)
    finally show ?thesis using p e Nil(2,3) True by (subst chunk_loop.simps) simp
  next
    case False
    then have d: "drop i buf = rest" "mg_http_parse_chunk rest = None" using Nil(5,6) by (simp_all add: send_chunks_def)
    then have "i = length buf - length rest" using Nil(4) by (metis diff_diff_cancel length_drop)
    with d Nil(2,3) False show ?thesis by (subst chunk_loop.simps) simp
  qed
next
  case (Cons d ds)
  let ?c = "mg_send_http_chunk d" and ?h = "length (hex_nat (length d)) + 2"
  define t where "t = send_chunks ds @ (if fin then mg_send_http_chunk [] @ rest else rest)"
  have d: "d \<noteq> []" "length d < 2 ^ 24" using Cons.prems(1) by auto
  have dr: "drop i buf = ?c @ t" using Cons.prems(5) by (simp add: send_chunks_def t_def)
  have p: "mg_http_parse_chunk (drop i buf) = Some (length ?c, ?h, length d)"
    unfolding dr by (rule parse_send_chunk [OF d(2)])
  have l: "i + length ?c + length t = length buf" using arg_cong [OF dr, of length] Cons.prems(4) by simp
  have cl: "length ?c = ?h + length d + 2" by (simp add: mg_send_http_chunk_def)
  have data: "take (length d) (drop (i + ?h) buf) = d"
  proof -
    have "drop (i + ?h) buf = drop ?h (drop i buf)" by (simp add: add.commute)
    also have "\<dots> = d @ 13 # 10 # t" unfolding dr by (simp add: mg_send_http_chunk_def)
    finally show ?thesis by simp
  qed
  let ?buf = "blit buf b d"
  have fits: "b + length d \<le> length buf" "b + length d \<le> i + length ?c" using Cons.prems(3) l cl by linarith+
  have 1: "take (b + length d) ?buf = body @ d"
  proof -
    have "length body = b" using Cons.prems(2) fits by auto
    then show ?thesis using Cons.prems(2) by (simp add: blit_def)
  qed
  have 2: "drop (i + length ?c) ?buf = t"
  proof -
    have "drop (i + length ?c) ?buf = drop (i + length ?c) buf" using fits by (simp add: blit_def min_def)
    also have "\<dots> = t" using arg_cong [OF dr, of "drop (length ?c)"] by (simp add: add.commute)
    finally show ?thesis .
  qed
  have 3: "length ?buf = length buf" using fits by simp
  have ds: "\<forall>d \<in> set ds. d \<noteq> [] \<and> length d < 2 ^ 24" using Cons.prems(1) by simp
  have le: "i + length ?c \<le> length ?buf" using 3 l by simp
  obtain buf' hm' where IH: "chunk_loop (i + length ?c) (b + length d) ?buf (Some (b + length d)) =
      Some (length buf - length rest, b + length d + length (concat ds), buf', hm', fin)"
    "take (b + length d + length (concat ds)) buf' = (body @ d) @ concat ds" "drop (length buf - length rest) buf' = rest"
    "length buf' = length buf" "b + length d + length (concat ds) \<le> length buf - length rest"
    using Cons.IH [OF ds 1 fits(2) le 2 [unfolded t_def] Cons.prems(6), of "Some (b + length d)"] 3 by auto
  show ?case
    using IH d(1) p data fits(1) by (subst chunk_loop.simps) (simp add: add.assoc)
qed

text \<open>C36: Whatever complete chunks have arrived behind the part of the body that is already reassembled, the
handler joins their data to the body, keeps what follows them, drops the framing from the receive buffer, and
removes the body when the user asks for it.\<close>

theorem mg_handle_chunked_spec:
  assumes "\<forall>d \<in> set ds. d \<noteq> [] \<and> length d < 2 ^ 24" "fin \<or> mg_http_parse_chunk rest = None"
    and "ck_buf nc = body @ send_chunks ds @ (if fin then mg_send_http_chunk [] @ rest else rest)"
    and "ck_len nc = length (ck_buf nc)" "ck_body_len nc = length body"
    and "gone \<longleftrightarrow> del (body @ concat ds) \<and> (ds \<noteq> [] \<or> fin)"
  shows "\<exists>nc'. mg_handle_chunked del header_len nc = Some (length (body @ concat ds), nc') \<and>
    take (ck_len nc') (ck_buf nc') = (if gone then [] else body @ concat ds) @ rest \<and>
    ck_body_len nc' = (if gone then 0 else length (body @ concat ds)) \<and>
    (fin \<longrightarrow> ck_hm_message_len nc' = header_len + ck_body_len nc' + length rest)"
proof -
  let ?buf = "ck_buf nc"
  have "take (length body) ?buf = body" "length body \<le> length ?buf"
    "drop (length body) ?buf = send_chunks ds @ (if fin then mg_send_http_chunk [] @ rest else rest)"
    using assms(3) by simp_all
  from chunk_loop_chunks [OF assms(1) this(1) _ this(2,3) assms(2), of None]
  obtain buf' hm' where L: "chunk_loop (length body) (length body) ?buf None =
      Some (length ?buf - length rest, length (body @ concat ds), buf', hm', fin)"
    "take (length (body @ concat ds)) buf' = body @ concat ds" "drop (length ?buf - length rest) buf' = rest"
    "length buf' = length ?buf" "length (body @ concat ds) \<le> length ?buf - length rest" by auto
  define i where "i = length ?buf - length rest"
  define b where "b = length (body @ concat ds)"
  have i: "i + length rest = length ?buf" using assms(3) by (auto simp: i_def split: if_splits)
  have L': "chunk_loop (length body) (length body) ?buf None = Some (i, b, buf', hm', fin)"
    "take b buf' = body @ concat ds" "drop i buf' = rest" "length buf' = length ?buf" "b \<le> i"
    using L by (simp_all add: i_def b_def)
  have iff: "b < i \<longleftrightarrow> ds \<noteq> [] \<or> fin"
  proof -
    have "length (concat ds) < length (send_chunks ds)" if "ds \<noteq> []"
      using that
    proof (induction ds)
      case (Cons d ds)
      then show ?case by (cases "ds = []") (auto simp: send_chunks_def mg_send_http_chunk_def)
    qed simp
    moreover have "length (send_chunks ds) + length body + length rest + (if fin then length (mg_send_http_chunk []) else 0) = length ?buf"
      by (simp add: assms(3))
    moreover have "length (mg_send_http_chunk []) = 5" by (simp add: mg_send_http_chunk_def hex_nat.simps)
    ultimately show ?thesis using i by (cases "ds = []"; cases fin) (auto simp: b_def send_chunks_def)
  qed
  show ?thesis
  proof (cases "b < i")
    case True
    have t: "take b (take b buf' @ rest @ replicate (i - b) 0) = body @ concat ds" using L'(2) by (simp add: b_def)
    have lb: "length (take b buf') = b" using L'(4,5) i by simp
    have ng: "gone \<longleftrightarrow> del (body @ concat ds)" using assms(6) True iff by simp
    show ?thesis
      using L' True i assms(4,5) t ng iff lb
      by (simp add: mg_handle_chunked_def Let_def blit_def split: option.split) (auto simp: b_def [symmetric])
  next
    case False
    then have "ds = []" "\<not> fin" "b = i" "\<not> gone" using iff assms(6) L'(5) by auto
    note c = this
    have b: "b = length body" using c(1) by (simp add: b_def)
    have buf': "buf' = body @ rest" using L'(2,3) append_take_drop_id [of b buf'] c(1,3) by simp
    have "mg_handle_chunked del header_len nc = Some (b,
        (case hm' of None \<Rightarrow> nc | Some k \<Rightarrow> nc\<lparr>ck_hm_body_len := k\<rparr>)\<lparr>ck_buf := buf'\<rparr>)"
      using L'(1) c(3) assms(3,5) by (simp add: mg_handle_chunked_def Let_def)
    then show ?thesis using c b buf' assms(4,5) L'(4) i by (simp split: option.split) linarith
  qed
qed


lemma mg_handle_chunked_spec_witness:
  "\<exists>nc'. mg_handle_chunked (\<lambda>_. False) 10
      \<lparr>ck_buf = [65] @ send_chunks [[66, 67], [68]] @ mg_send_http_chunk [] @ [71], ck_len = length ([65] @ send_chunks [[66, 67], [68]] @ mg_send_http_chunk [] @ [71]),
       ck_body_len = 1, ck_hm_body_len = 0, ck_hm_message_len = 0\<rparr> = Some (length ([65] @ concat [[66, 67], [68 :: byte]]), nc') \<and>
    take (ck_len nc') (ck_buf nc') = [65, 66, 67, 68, 71] \<and> ck_hm_message_len nc' = 10 + ck_body_len nc' + length [71 :: byte]"
proof -
  let ?nc = "\<lparr>ck_buf = [65] @ send_chunks [[66, 67], [68]] @ mg_send_http_chunk [] @ [71], ck_len = length ([65] @ send_chunks [[66, 67], [68]] @ mg_send_http_chunk [] @ [71]),
       ck_body_len = 1, ck_hm_body_len = 0, ck_hm_message_len = 0\<rparr> :: chunk_conn"
  show ?thesis
    using mg_handle_chunked_spec [where ds = "[[66, 67], [68]]" and fin = True and rest = "[71]" and nc = ?nc and body = "[65]"
        and gone = False and del = "\<lambda>_. False" and header_len = 10] by auto
qed

subsection \<open>The alternate buffer holds what was appended\<close>

text \<open>An allocator that does not fail and keeps below the middle of the address space.\<close>

definition al_total :: "allocator \<Rightarrow> bool" where
  "al_total al \<longleftrightarrow> (\<forall>p n. 0 < al_realloc al p n \<and> al_realloc al p n < 2 ^ 63)"

lemma mbuf_append_total:
  assumes "al_total al" "mbuf_ok m" "mb_addr m < 2 ^ 63" "mb_len m + length d < 2 ^ 51"
  shows "\<exists>m'. mbuf_append al m d = Some (length d, m') \<and> mbuf_ok m' \<and> mbuf_abs m' = mbuf_abs m @ d \<and> mb_addr m' < 2 ^ 63"
proof -
  have r: "0 < al_realloc al p n" "al_realloc al p n < 2 ^ 63" for p n using assms(1) by (auto simp: al_total_def)
  have len: "length d \<le> 2 ^ 64 - 1 - mb_addr m" using assms(3,4) by simp
  have "insert_fits al m (length d)" using len r(1) by (simp add: insert_fits_def Let_def)
  then obtain m' where m': "mbuf_append al m d = Some (length d, m')" "mbuf_ok m'" "mbuf_abs m' = mbuf_abs m @ d"
    using mbuf_insert_abs [OF assms(2) order_refl assms(4), of al] by (auto simp: mbuf_append_def mbuf_abs_def)
  moreover have "mb_addr m' < 2 ^ 63"
  proof (cases "mb_len m + length d \<le> mb_size m")
    case True
    have "wrap64 (mb_len m + length d) = mb_len m + length d" using assms(4) by (simp add: wrap64_def)
    then show ?thesis using m'(1) True len assms(2,3) by (auto simp: mbuf_append_def mbuf_insert_def mbuf_ok_def)
  next
    case False
    have "0 < al_realloc al (mb_addr m) (roomy (mb_len m + length d))" by (rule r(1))
    then show ?thesis
      using mbuf_insert_grown [OF assms(2) order_refl assms(4) len False, of al] m'(1) r(2) by (auto simp: mbuf_append_def Let_def)
  qed
  ultimately show ?thesis by blast
qed

definition altbuf_inv :: "bytes \<Rightarrow> altbuf \<Rightarrow> bool" where
  "altbuf_inv cs ab \<longleftrightarrow> ab_len ab = length cs \<and> length (ab_user_buf ab) = ab_user_buf_size ab \<and> mbuf_ok (ab_m ab) \<and>
     mb_addr (ab_m ab) < 2 ^ 63 \<and>
     (if length cs \<le> ab_user_buf_size ab then mbuf_abs (ab_m ab) = [] \<and> take (length cs) (ab_user_buf ab) = cs
      else mbuf_abs (ab_m ab) = cs)"

lemma mbuf_abs_len: "mbuf_ok m \<Longrightarrow> length (mbuf_abs m) = mb_len m"
  by (simp add: mbuf_ok_def mbuf_abs_def)

lemma altbuf_append_inv:
  assumes "al_total al" "altbuf_inv cs ab" "ab_user_buf_size ab < 2 ^ 50" "length cs < 2 ^ 50"
  shows "\<exists>ab'. altbuf_append al c ab = Some ab' \<and> altbuf_inv (cs @ [c]) ab' \<and> ab_user_buf_size ab' = ab_user_buf_size ab"
proof (cases "length cs < ab_user_buf_size ab")
  case True
  with assms(2) show ?thesis
    by (auto simp: altbuf_append_def altbuf_inv_def take_Suc_conv_app_nth)
next
  case False
  have inv: "ab_len ab = length cs" "mbuf_ok (ab_m ab)" "mb_addr (ab_m ab) < 2 ^ 63" using assms(2) by (auto simp: altbuf_inv_def)
  have "\<exists>m. (if ab_len ab > 0 \<and> mb_len (ab_m ab) = 0 then
        map_option snd (mbuf_append al (ab_m ab) (take (ab_len ab) (ab_user_buf ab))) else Some (ab_m ab)) = Some m \<and>
      mbuf_ok m \<and> mb_addr m < 2 ^ 63 \<and> mbuf_abs m = cs"
  proof (cases "length cs = ab_user_buf_size ab")
    case True
    then have e: "mbuf_abs (ab_m ab) = []" "take (length cs) (ab_user_buf ab) = cs" using assms(2) by (auto simp: altbuf_inv_def)
    then have "mb_len (ab_m ab) = 0" using mbuf_abs_len [OF inv(2)] by simp
    then show ?thesis
      using e inv mbuf_append_total [OF assms(1) inv(2,3), of cs] True assms(4) \<open>mb_len (ab_m ab) = 0\<close> by (cases "cs = []") auto
  next
    case n: False
    then have e: "mbuf_abs (ab_m ab) = cs" "0 < length cs" using False assms(2) by (auto simp: altbuf_inv_def)
    then have "mb_len (ab_m ab) \<noteq> 0" using mbuf_abs_len [OF inv(2)] unfolding e(1) by linarith
    with e inv show ?thesis by auto
  qed
  then obtain m where m: "(if ab_len ab > 0 \<and> mb_len (ab_m ab) = 0 then
        map_option snd (mbuf_append al (ab_m ab) (take (ab_len ab) (ab_user_buf ab))) else Some (ab_m ab)) = Some m"
      "mbuf_ok m" "mb_addr m < 2 ^ 63" "mbuf_abs m = cs" by blast
  obtain m' where m': "mbuf_append al m [c] = Some (1, m')" "mbuf_ok m'" "mbuf_abs m' = cs @ [c]" "mb_addr m' < 2 ^ 63"
    using mbuf_append_total [OF assms(1) m(2,3), of "[c]"] m(4) mbuf_abs_len [OF m(2)] assms(4) by auto
  have "altbuf_append al c ab = Some (ab\<lparr>ab_m := m', ab_len := mb_len m'\<rparr>)"
    using False m(1) m'(1) inv(1) by (simp add: altbuf_append_def)
  moreover have "mb_len m' = Suc (length cs)" using mbuf_abs_len [OF m'(2)] m'(3) by simp
  ultimately show ?thesis using False m' assms(2) by (auto simp: altbuf_inv_def)
qed

lemma altbuf_appends_inv:
  assumes "al_total al" "altbuf_inv cs ab" "ab_user_buf_size ab < 2 ^ 50" "length (cs @ ds) < 2 ^ 50"
  shows "\<exists>ab'. altbuf_appends al ds ab = Some ab' \<and> altbuf_inv (cs @ ds) ab' \<and> ab_user_buf_size ab' = ab_user_buf_size ab"
  using assms(2,3,4)
proof (induction ds arbitrary: cs ab)
  case (Cons d ds)
  obtain ab1 where 1: "altbuf_append al d ab = Some ab1" "altbuf_inv (cs @ [d]) ab1" "ab_user_buf_size ab1 = ab_user_buf_size ab"
    using altbuf_append_inv [OF assms(1) Cons.prems(1,2)] Cons.prems(3) by auto
  from Cons.IH [OF 1(2)] 1 Cons.prems(2,3) show ?case by auto
qed simp

lemma altbuf_init_inv: "altbuf_inv [] (altbuf_init al buf)"
  using mbuf_init_abs [of al 0] by (simp add: altbuf_inv_def altbuf_init_def) (simp add: mbuf_init_def mbuf_resize_def)

lemma altbuf_get_buf_inv:
  assumes "altbuf_inv cs ab"
  shows "take (length cs) (fst (altbuf_get_buf al ab trim)) = cs" "altbuf_reallocated ab \<longleftrightarrow> length cs > ab_user_buf_size ab"
    "ab_len (snd (altbuf_get_buf al ab trim)) = length cs"
proof -
  have ok: "mbuf_ok (ab_m ab)" using assms by (simp add: altbuf_inv_def)
  have "mb_len (mbuf_trim al (ab_m ab)) = mb_len (ab_m ab)" by (simp add: mbuf_trim_def mbuf_resize_def Let_def)
  then have m: "take (mb_len (ab_m ab)) (mb_buf (mbuf_trim al (ab_m ab))) = mbuf_abs (ab_m ab)"
    "take (mb_len (ab_m ab)) (mb_buf (ab_m ab)) = mbuf_abs (ab_m ab)"
    using mbuf_resize_abs(1) [OF ok, of al "mb_len (ab_m ab)"] unfolding mbuf_trim_def by (simp_all add: mbuf_abs_def)
  show "take (length cs) (fst (altbuf_get_buf al ab trim)) = cs"
  proof (cases "length cs \<le> ab_user_buf_size ab")
    case True
    with assms show ?thesis by (simp add: altbuf_get_buf_def altbuf_reallocated_def altbuf_inv_def)
  next
    case False
    then have c: "mbuf_abs (ab_m ab) = cs" "ab_len ab = length cs" using assms by (auto simp: altbuf_inv_def)
    then have "mb_len (ab_m ab) = length cs" using mbuf_abs_len [OF ok] by simp
    with m c False show ?thesis by (simp add: altbuf_get_buf_def altbuf_reallocated_def Let_def)
  qed
  show "altbuf_reallocated ab \<longleftrightarrow> length cs > ab_user_buf_size ab" "ab_len (snd (altbuf_get_buf al ab trim)) = length cs"
    using assms by (auto simp: altbuf_get_buf_def altbuf_reallocated_def altbuf_inv_def Let_def)
qed


subsection \<open>Quoted parameters\<close>

definition quote_param :: "bytes \<Rightarrow> bytes" where
  "quote_param v = concat (map (\<lambda>c. if c = 34 then [92, 34] else [c]) v)"

lemma quote_param_hd: "v \<noteq> [] \<Longrightarrow> cchar (quote_param v @ s) 0 = (if hd v = 34 then 92 else hd v)"
  by (cases v) (simp_all add: quote_param_def cchar_def)

lemma param_scan_quoted:
  "v = [] \<or> last v \<noteq> 92 \<Longrightarrow> length (quote_param v) < n \<Longrightarrow> param_scan 34 34 34 (quote_param v @ 34 # s) n = (v, 34)"
proof (induction v arbitrary: n)
  case Nil
  then show ?case by (cases n) (simp_all add: quote_param_def cchar_def)
next
  case (Cons c v)
  have v: "v = [] \<or> last v \<noteq> 92" using Cons.prems(1) by auto
  show ?case
  proof (cases "c = 34")
    case True
    then have q: "quote_param (c # v) = 92 # 34 # quote_param v" by (simp add: quote_param_def)
    then obtain m where n: "n = Suc (Suc m)" "length (quote_param v) < m" using Cons.prems(2) by (cases n; cases "n - 1") auto
    show ?thesis unfolding q n(1) using Cons.IH [OF v n(2)] True by (simp add: cchar_def)
  next
    case False
    then have q: "quote_param (c # v) = c # quote_param v" by (simp add: quote_param_def)
    then obtain m where n: "n = Suc m" "length (quote_param v) < m" using Cons.prems(2) by (cases n) auto
    have "\<not> (c = 92 \<and> cchar (c # quote_param v @ 34 # s) 1 = 34)"
    proof
      assume a: "c = 92 \<and> cchar (c # quote_param v @ 34 # s) 1 = 34"
      then have "v \<noteq> []" using Cons.prems(1) by auto
      then have "cchar (quote_param v @ 34 # s) 0 \<noteq> 34" using quote_param_hd [of v "34 # s"] by simp
      moreover have "cchar (c # quote_param v @ 34 # s) 1 = cchar (quote_param v @ 34 # s) 0" by (simp add: cchar_def)
      ultimately show False using a by metis
    qed
    then show ?thesis unfolding q n(1) using Cons.IH [OF v n(2)] False by (auto simp: cchar_def)
  qed
qed

lemma strncmp_refl: "strncmp (a @ b) a (length a) = 0"
  by (induction a) auto

lemma find_first: "P k \<Longrightarrow> k < n \<Longrightarrow> \<forall>j < k. \<not> P j \<Longrightarrow> find P [0..<n] = Some k"
  by (auto simp: find_Some_iff intro!: exI [of _ k])

lemma header_internal_quoted:
  assumes "al_total al" "altbuf_inv [] ab" "ab_user_buf_size ab < 2 ^ 50 \<and> length v < 2 ^ 49" "v \<noteq> []" "last v \<noteq> 92"
    and "hdr = pre @ name @ [61, 34] @ quote_param v @ [34] @ post"
    and "pre = [] \<or> last pre \<in> {32, 44, 59}" "\<forall>s < length pre. \<not> param_at hdr name s"
  shows "\<exists>ab'. mg_http_parse_header_internal al hdr z name ab = Some ab' \<and> altbuf_inv (v @ [0]) ab' \<and>
    ab_user_buf_size ab' = ab_user_buf_size ab"
proof -
  let ?s = "length pre" and ?n = "length name"
  have at: "param_at hdr name ?s"
    using assms(6,7) strncmp_refl [of name] by (cases pre rule: rev_cases) (auto simp: param_at_def nth_append)
  have f: "find (param_at hdr name) [0..<length hdr] = Some ?s"
    by (rule find_first [OF at _ assms(8)]) (use at in \<open>simp add: param_at_def\<close>)
  have q: "hdr ! Suc (?s + ?n) = 34" "drop (Suc (Suc (?s + ?n))) hdr = quote_param v @ 34 # post"
    "length hdr = ?s + ?n + 3 + length (quote_param v) + length post"
    by (simp_all add: assms(6) nth_append)
  have scan: "param_scan 34 34 34 (quote_param v @ 34 # post @ z) (Suc (length (quote_param v) + length post)) = (v, 34)"
    using param_scan_quoted [of v "Suc (length (quote_param v) + length post)" "post @ z"] assms(5) by simp
  obtain ab1 where 1: "altbuf_appends al v ab = Some ab1" "altbuf_inv v ab1" "ab_user_buf_size ab1 = ab_user_buf_size ab"
    using altbuf_appends_inv [OF assms(1,2), of v] assms(3) by auto
  then obtain ab2 where 2: "altbuf_append al 0 ab1 = Some ab2" "altbuf_inv (v @ [0]) ab2" "ab_user_buf_size ab2 = ab_user_buf_size ab"
    using altbuf_append_inv [OF assms(1) 1(2), of 0] assms(3) by auto
  have len: "ab_len ab1 > 0" using 1(2) assms(4) by (simp add: altbuf_inv_def)
  have "mg_http_parse_header_internal al hdr z name ab = Some ab2"
    unfolding mg_http_parse_header_internal_def f using q scan 1(1) 2(1) len by (simp add: Let_def)
  with 2 show ?thesis by blast
qed

text \<open>What the scanner has collected comes back with its length, in the caller's buffer when it fits.\<close>

lemma header2_internal:
  assumes "mg_http_parse_header_internal al hdr z name (altbuf_init al (if buf \<noteq> [] then buf[0 := 0] else buf)) = Some ab"
    and "altbuf_inv (v @ [0]) ab" "ab_user_buf_size ab = length buf"
  shows "\<exists>b. mg_http_parse_header2 al (Some (hdr, z)) name buf = Some (length v, b, length v + 1 > length buf) \<and>
    take (length v + 1) b = v @ [0]"
  using assms(1) altbuf_get_buf_inv(1,3) [OF assms(2), of al True] altbuf_get_buf_inv(2) [OF assms(2)] assms(3)
  by (auto simp: mg_http_parse_header2_def altbuf_reallocated_def altbuf_get_buf_def Let_def split: if_splits)

text \<open>A quoted parameter of a header is found and unquoted: the value with its quotes escaped comes back as it
was, with a terminating zero, in the caller's buffer when both fit and in a new one otherwise.\<close>

theorem mg_http_parse_header2_quoted:
  assumes "al_total al" "length buf < 2 ^ 50 \<and> length v < 2 ^ 49" "v \<noteq> []" "last v \<noteq> 92"
    and "hdr = pre @ name @ [61, 34] @ quote_param v @ [34] @ post"
    and "pre = [] \<or> last pre \<in> {32, 44, 59}" "\<forall>s < length pre. \<not> param_at hdr name s"
  shows "\<exists>b. mg_http_parse_header2 al (Some (hdr, z)) name buf = Some (length v, b, length v + 1 > length buf) \<and>
    take (length v + 1) b = v @ [0]"
proof -
  let ?ab = "altbuf_init al (if buf \<noteq> [] then buf[0 := 0] else buf)"
  have size: "ab_user_buf_size ?ab = length buf" by (simp add: altbuf_init_def)
  then obtain ab2 where "mg_http_parse_header_internal al hdr z name ?ab = Some ab2" "altbuf_inv (v @ [0]) ab2" "ab_user_buf_size ab2 = length buf"
    using header_internal_quoted [OF assms(1) altbuf_init_inv _ assms(3-7)] assms(2) by metis
  then show ?thesis by (rule header2_internal)
qed

definition al_big :: allocator where
  "al_big = \<lparr>al_realloc = \<lambda>p n. 4096, al_junk = 0\<rparr>"

lemma mg_http_parse_header2_quoted_witness:
  "\<exists>b. mg_http_parse_header2 al_big (Some ([120, 59] @ [110] @ [61, 34] @ quote_param [97, 34] @ [34] @ [], [])) [110] [0, 0] =
     Some (length [97, 34 :: byte], b, True) \<and> take (length [97, 34 :: byte] + 1) b = [97, 34, 0]"
proof -
  have t: "al_total al_big" by (simp add: al_total_def al_big_def)
  have n: "\<forall>s < length [120, 59 :: byte]. \<not> param_at ([120, 59] @ [110] @ [61, 34] @ quote_param [97, 34] @ [34] @ []) [110] s"
    by (auto simp: param_at_def less_Suc_eq)
  show ?thesis
    using mg_http_parse_header2_quoted [OF t _ _ _ refl _ n, of "[0, 0]" "[]"] by auto
qed

subsection \<open>Basic authentication\<close>

lemma decode_encode_line:
  "cs_base64_decode (base64_pad (base64_encode_body s) @ 13 # t) = (s, length (base64_pad (base64_encode_body s)))"
proof (induction s rule: triple_induct)
  case Nil
  have "from_b64 13 = 255" by code_simp
  then show ?case by (cases "13 # t" rule: cs_base64_decode.cases) (auto simp: Let_def)
qed (simp_all add: Let_def)

lemma b64_out_update:
  assumes "length junk = 3"
  shows "b64_out (cs_base64_finish (cs_base64_update s (cs_base64_init junk))) = base64_pad (base64_encode_body s)"
proof -
  have "stream_inv [] (cs_base64_init junk)"
    by (rule stream_invI [where us = "[]" and ps = "[]"]) (simp_all add: cs_base64_init_def assms)
  from finish_inv [OF update_inv [OF this, of s]] show ?thesis by simp
qed

lemma cs_base64_update_append: "cs_base64_update b (cs_base64_update a ctx) = cs_base64_update (a @ b) ctx"
  by (simp add: cs_base64_update_def)

lemma scan_user_pass:
  assumes "user \<noteq> []" "58 \<notin> set user" "0 \<notin> set user" "length user \<le> n"
    and "pass \<noteq> []" "10 \<notin> set pass" "0 \<notin> set pass" "length pass \<le> m"
  shows "sscanf_user_pass (user @ 58 # pass) n m = (2, Some user, Some pass)"
proof -
  have s: "takeWhile (\<lambda>c. c \<noteq> 0) (user @ 58 # pass) = user @ 58 # pass"
    using assms(3,7) by (subst takeWhile_eq_all_conv) auto
  have u: "takeWhile (\<lambda>c. c \<noteq> 58) (user @ 58 # pass) = user"
    using assms(2) by (subst takeWhile_append2) auto
  have p: "takeWhile (\<lambda>c. c \<noteq> 10) pass = pass" using assms(6) by (subst takeWhile_eq_all_conv) auto
  show ?thesis unfolding sscanf_user_pass_def s using assms by (simp add: Let_def u p)
qed

text \<open>C37: The credentials of an Authorization header that the client side writes are read back by the server side,
when the user name holds no colon, neither string is empty or holds a zero or (the password) a line end, and both fit.\<close>

theorem basic_auth_roundtrip:
  assumes "length junk = 3" "user \<noteq> []" "58 \<notin> set user" "0 \<notin> set user" "length user < user_len"
    and "pass \<noteq> []" "10 \<notin> set pass" "0 \<notin> set pass" "length pass < pass_len"
  shows "\<exists>value. mg_basic_auth_header junk user pass [] = cstr ''Authorization: '' @ value @ [13, 10] \<and>
    mg_parse_http_basic_auth value (13 # 10 # rest) user_len pass_len = (0, Some user, Some pass)"
proof -
  let ?e = "base64_pad (base64_encode_body (user @ 58 # pass))"
  let ?v = "cstr ''Basic '' @ ?e"
  have h: "mg_basic_auth_header junk user pass [] = cstr ''Authorization: '' @ ?v @ [13, 10]"
    using assms(6) b64_out_update [OF assms(1)]
    by (simp add: mg_basic_auth_header_def cs_base64_update_append Let_def)
  have c: "mg_strncmp ?v (cstr ''Basic '') 6 = 0" by (simp add: mg_strncmp_def mg_strcmp_eq)
  have t: "take (length ?v) (drop 6 (?v @ 13 # 10 # rest)) = ?e @ 13 # 10 # take 4 rest" by simp
  have "mg_parse_http_basic_auth ?v (13 # 10 # rest) user_len pass_len = (0, Some user, Some pass)"
    unfolding mg_parse_http_basic_auth_def c t decode_encode_line
    using scan_user_pass [OF assms(2,3,4) _ assms(6,7,8), of "user_len - 1" "pass_len - 1"] assms(5,9) by simp
  with h show ?thesis by blast
qed

lemma basic_auth_roundtrip_witness:
  "\<exists>value. mg_basic_auth_header [0, 0, 0] [117] [112, 119] [] = cstr ''Authorization: '' @ value @ [13, 10] \<and>
    mg_parse_http_basic_auth value (13 # 10 # []) 10 10 = (0, Some [117], Some [112, 119])"
  by (rule basic_auth_roundtrip) auto

text \<open>A value that decodes to nothing is accepted: sscanf reports the end of the input, which is not 0, and the
destinations keep whatever they held.\<close>

lemma basic_auth_empty_accepted: "mg_parse_http_basic_auth (cstr ''Basic !'') [13, 10] 10 10 = (0, None, None)"
  by code_simp

end
