(* ===== verification/MgLocalPath.thy ===== *)
theory MgLocalPath
  imports MgHttpCoding MgUri
begin

text \<open>
  From a request URI to a file (mg_uri_to_local_path of mongoose/src/mg_http.c in 3rdLib/mongoose/mongoose.c),
  on a POSIX system: the choice of a root directory by the rewrite rules, and the walk over the
  percent-decoded components. The file system (mg_stat) is a parameter; memory for the path is there. The path that is
  built is kept as the root without its trailing slash and the bytes behind it.
\<close>

subsection \<open>WebDAV methods\<close>

definition mg_is_dav_request :: "bool \<Rightarrow> bytes \<Rightarrow> bool" where
  "mg_is_dav_request fake_davlock s \<longleftrightarrow>
     (\<exists>m \<in> set ([''PUT'', ''DELETE'', ''MKCOL'', ''PROPFIND'', ''MOVE''] @
        (if fake_davlock then [''LOCK'', ''UNLOCK''] else [])). mg_vcmp s (cstr m) = 0)"

subsection \<open>The root\<close>

text \<open>
  The rewrite rules: the root of the rule that applies (none when there is none, or when the rule has no right-hand side),
  and where in the URI the file path starts. That place is set before the component boundary is tested, and a rule that
  fails the test leaves it set (\<open>start\<close>).
\<close>

lemma next_entry_shorter:
  "mg_next_comma_list_entry_n rewrites eq = Some (a, b, rest) \<Longrightarrow> length rest < length rewrites"
  by (auto simp: mg_next_comma_list_entry_n_def Let_def split: if_splits option.splits dest: mg_strchr_Some)

function rewrite_loop :: "bytes \<Rightarrow> bytes option \<Rightarrow> bytes \<Rightarrow> nat \<Rightarrow> bytes option \<times> nat" where
  "rewrite_loop rewrites hh uri start =
     (case mg_next_comma_list_entry_n rewrites True of
        None \<Rightarrow> (None, start)
      | Some (a, b, rest) \<Rightarrow>
          if length a > 1 \<and> a ! 0 = 64 then
            if hh \<noteq> None \<and> length (the hh) = length a - 1 \<and> mg_ncasecmp (tl a) (the hh) (length a - 1) = 0
            then (b, start) else rewrite_loop rest hh uri start
          else
            let match_len = mg_match_prefix_n a uri in
            if match_len > 0 then
              if match_len = length uri \<or> uri ! match_len = 47 then (b, match_len)
              else if uri ! (match_len - 1) = 47 then (b, match_len - 1)
              else rewrite_loop rest hh uri match_len
            else rewrite_loop rest hh uri start)"
  by pat_completeness auto
termination by (relation "measure (\<lambda>(r, h, u, s). length r)") (auto dest: next_entry_shorter)

declare rewrite_loop.simps [simp del]

record serve_opts =
  so_url_rewrites :: bytes
  so_document_root :: bytes
  so_dav_document_root :: "bytes option"

definition choose_root :: "serve_opts \<Rightarrow> bytes \<Rightarrow> bytes option \<Rightarrow> bytes \<Rightarrow> bytes \<times> nat" where
  "choose_root opts method host uri =
     (let (root, start) = rewrite_loop (so_url_rewrites opts) host uri 0 in
      case root of Some r \<Rightarrow> (r, start)
      | None \<Rightarrow>
          (case so_dav_document_root opts of
             Some d \<Rightarrow> if mg_is_dav_request False method then d else so_document_root opts
           | None \<Rightarrow> so_document_root opts, start))"

subsection \<open>The walk\<close>

datatype file_kind = Regular | Other_file

text \<open>\<open>while (p > ps && *p != DIRSEP) p--; *p = 0\<close>\<close>

definition path_up :: "bytes \<Rightarrow> bytes" where
  "path_up q = rev (tl (dropWhile (\<lambda>c. c \<noteq> 47) (rev q)))"

text \<open>
  \<open>q\<close> is what stands behind the root, \<open>cap\<close> the size of the block. A component with a zero or a slash in
  it makes the result a failure; the code walks on before it says so.
\<close>

function local_path_loop ::
    "(bytes \<Rightarrow> file_kind option) \<Rightarrow> bytes \<Rightarrow> nat \<Rightarrow> bytes \<Rightarrow> nat \<Rightarrow> bytes \<Rightarrow> bool \<Rightarrow> (bytes \<times> nat) option" where
  "local_path_loop stat uri cap root u q ex =
     (if u \<le> length uri then
        let st = (if ex then stat (root @ q) else None) in
        if st = Some Regular then Some (q, if uri ! (u - 1) = 47 then u - 1 else u)
        else if u \<ge> length uri then Some (q, u)
        else
          let comp = fst (parse_uri_component uri u [47]); next = snd (parse_uri_component uri u [47]) in
          if comp = [] then local_path_loop stat uri cap root next q (st \<noteq> None)
          else case mg_url_decode comp (cap - (length root + length q) - 1) False of
            None \<Rightarrow> None
          | Some d \<Rightarrow>
              if d = [] then None
              else if mg_vcmp d (cstr ''.'') = 0 then local_path_loop stat uri cap root next q (st \<noteq> None)
              else if mg_vcmp d (cstr ''..'') = 0 then local_path_loop stat uri cap root next (path_up q) (st \<noteq> None)
              else if 0 \<in> set d \<or> 47 \<in> set d then None
              else local_path_loop stat uri cap root next (q @ 47 # d) (st \<noteq> None)
      else Some (q, u))"
  by pat_completeness auto
termination
  by (relation "measure (\<lambda>(stat, uri, cap, root, u, q, ex). length uri - u)")
    (auto intro!: diff_less_mono2 parse_uri_component_snd)

declare local_path_loop.simps [simp del]

text \<open>The path and the rest of the URI, or the failure; the outer option is the assertion that there is a root.\<close>

definition mg_uri_to_local_path ::
    "(bytes \<Rightarrow> file_kind option) \<Rightarrow> serve_opts \<Rightarrow> bytes \<Rightarrow> bytes option \<Rightarrow> bytes \<Rightarrow> (bytes \<times> bytes) option option" where
  "mg_uri_to_local_path stat opts method host uri = do {
     let (root, start) = choose_root opts method host uri;
     _ \<leftarrow> ensure (root \<noteq> []);
     let base = (if last root = 47 then butlast root else root);
     Some (case local_path_loop stat uri (length root + length uri + 1) base (start + 1) [] True of
       None \<Rightarrow> None
     | Some (q, u) \<Rightarrow> Some (base @ q, drop (min u (length uri)) uri)) }"

subsection \<open>The path stays below the root\<close>

definition path_of :: "bytes list \<Rightarrow> bytes" where
  "path_of segs = concat (map (\<lambda>s. 47 # s) segs)"

definition safe_seg :: "bytes \<Rightarrow> bool" where
  "safe_seg s \<longleftrightarrow> s \<noteq> [] \<and> 47 \<notin> set s \<and> 0 \<notin> set s \<and> s \<noteq> [46] \<and> s \<noteq> [46, 46]"

lemma path_of_snoc: "path_of (segs @ [s]) = path_of segs @ 47 # s"
  by (simp add: path_of_def)

lemma path_up_snoc: "47 \<notin> set s \<Longrightarrow> path_up (q @ 47 # s) = q"
  using dropWhile_neq_split [of 47 "rev s" "rev q"] by (simp add: path_up_def)

lemma path_up_segs:
  assumes "\<forall>s \<in> set segs. safe_seg s"
  shows "path_up (path_of segs) = path_of (butlast segs)"
proof (cases segs rule: rev_cases)
  case (snoc ss s)
  then have "47 \<notin> set s" using assms by (simp add: safe_seg_def)
  with snoc show ?thesis by (simp add: path_of_snoc path_up_snoc)
qed (simp add: path_of_def path_up_def)

lemma url_decode_length: "url_decode_loop s room form = Some d \<Longrightarrow> length d \<le> length s"
proof (induction s room form arbitrary: d rule: url_decode_loop.induct)
  case (3 c s room form)
  show ?case
  proof (cases "c = 37")
    case True
    then obtain a b t e where "s = a # b # t" "isxdigit a \<and> isxdigit b" "url_decode_loop t room form = Some e" "length d = Suc (length e)"
      using 3(3) by (auto split: list.splits if_splits)
    with 3(1) [OF True, of a "b # t" b t e] show ?thesis by simp
  next
    case False
    then obtain e where "url_decode_loop s room form = Some e" "length d = Suc (length e)" using 3(3) by auto
    with 3(2) [OF False] show ?thesis by simp
  qed
qed auto

lemma component_next:
  assumes "u < length uri" "parse_uri_component uri u [47] = (c, n)"
  shows "u + length c \<le> length uri" "n = u + length c + (if u + length c < length uri then 1 else 0)"
proof -
  have "c = takeWhile (\<lambda>c. c \<notin> set [47]) (drop u uri)" using assms(2) by (simp add: parse_uri_component_def Let_def)
  then have "length c \<le> length uri - u" using length_takeWhile_le [of "\<lambda>c. c \<notin> set [47]" "drop u uri"] by simp
  then show "u + length c \<le> length uri" using assms(1) by simp
  show "n = u + length c + (if u + length c < length uri then 1 else 0)"
    using assms(2) by (auto simp: parse_uri_component_def Let_def)
qed


lemma dot_seg: "d \<noteq> [] \<Longrightarrow> mg_vcmp d (cstr ''.'') \<noteq> 0 \<Longrightarrow> mg_vcmp d (cstr ''..'') \<noteq> 0 \<Longrightarrow> 0 \<notin> set d \<Longrightarrow> 47 \<notin> set d \<Longrightarrow> safe_seg d"
  using dot_tests [of d] by (auto simp: safe_seg_def)

lemma length_path_up: "length (path_up q) \<le> length q"
proof -
  have "length (dropWhile (\<lambda>c. c \<noteq> 47) (rev q)) \<le> length q" using length_dropWhile_le [of "\<lambda>c. c \<noteq> 47" "rev q"] by simp
  then show ?thesis by (simp add: path_up_def)
qed

lemma local_path_loop_safe:
  assumes "q = path_of segs" "\<forall>s \<in> set segs. safe_seg s" "1 \<le> u" "length q \<le> (if u < length uri then u - 1 else length uri)"
    and "local_path_loop stat uri cap root u q ex = Some (q', u')"
  shows "\<exists>segs'. q' = path_of segs' \<and> (\<forall>s \<in> set segs'. safe_seg s) \<and> length q' \<le> length uri"
  using assms
proof (induction stat uri cap root u q ex arbitrary: segs rule: local_path_loop.induct)
  case (1 stat uri cap root u q ex)
  define st where "st = (if ex then stat (root @ q) else None)"
  obtain comp n where p: "parse_uri_component uri u [47] = (comp, n)" by fastforce
  note step = "1.prems"(5) [unfolded local_path_loop.simps [of stat uri cap root u q ex], folded st_def]
  show ?case
  proof (cases "u \<le> length uri \<and> st \<noteq> Some Regular \<and> u < length uri")
    case False
    then have "q' = q" using step by (auto simp: Let_def split: if_splits)
    with "1.prems"(1,2,4) show ?thesis by (intro exI [of _ segs]) (simp split: if_splits)
  next
    case True
    then have u: "u \<le> length uri" "st \<noteq> Some Regular" "\<not> length uri \<le> u" "u < length uri" by auto
    have n: "u + length comp \<le> length uri" "n = u + length comp + (if u + length comp < length uri then 1 else 0)" "1 \<le> n"
      using component_next [OF u(4) p] "1.prems"(3) by auto
    have lq: "length q \<le> u - 1" using "1.prems"(4) u(4) by simp
    have ok: "length q1 \<le> (if n < length uri then n - 1 else length uri)" if "length q1 \<le> length q + 1 + length comp" "comp \<noteq> []" for q1
      using that n lq "1.prems"(3) by (auto split: if_splits)
    have ok0: "length q \<le> (if n < length uri then n - 1 else length uri)" using n lq "1.prems"(3) by (auto split: if_splits)
    note IH = "1.IH" [OF u(1) st_def u(2,3) refl refl, unfolded p fst_conv snd_conv]
    show ?thesis
    proof (cases "comp = []")
      case True
      with step u p have "local_path_loop stat uri cap root n q (st \<noteq> None) = Some (q', u')" by (simp add: Let_def)
      from IH(1) [OF True "1.prems"(1,2) n(3) ok0 this] show ?thesis .
    next
      case False
      obtain d where d: "mg_url_decode comp (cap - (length root + length q) - 1) False = Some d" "d \<noteq> []"
        using step u p False by (auto simp: Let_def split: option.splits if_splits)
      have ld: "length d \<le> length comp" using url_decode_length d(1) by (auto simp: mg_url_decode_def)
      note IH' = IH(2,3,4) [OF False d(1,2)]
      consider "mg_vcmp d (cstr ''.'') = 0" | "mg_vcmp d (cstr ''.'') \<noteq> 0" "mg_vcmp d (cstr ''..'') = 0" |
        "mg_vcmp d (cstr ''.'') \<noteq> 0" "mg_vcmp d (cstr ''..'') \<noteq> 0" by blast
      then show ?thesis
      proof cases
        case 1
        with step u p False d have "local_path_loop stat uri cap root n q (st \<noteq> None) = Some (q', u')" by (simp add: Let_def)
        from IH'(1) [OF 1 "1.prems"(1,2) n(3) ok0 this] show ?thesis .
      next
        case 2
        with step u p False d have l: "local_path_loop stat uri cap root n (path_up q) (st \<noteq> None) = Some (q', u')" by (simp add: Let_def)
        have "path_up q = path_of (butlast segs)" using "1.prems"(1,2) path_up_segs by simp
        moreover have "\<forall>s \<in> set (butlast segs). safe_seg s" using "1.prems"(2) by (auto dest: in_set_butlastD)
        moreover have "length (path_up q) \<le> (if n < length uri then n - 1 else length uri)"
          using ok [of "path_up q"] length_path_up [of q] False by simp
        ultimately show ?thesis using IH'(2) [OF 2 _ _ n(3) _ l] by blast
      next
        case 3
        with step u p False d have z: "\<not> (0 \<in> set d \<or> 47 \<in> set d)"
          and l: "local_path_loop stat uri cap root n (q @ 47 # d) (st \<noteq> None) = Some (q', u')" by (auto simp: Let_def split: if_splits)
        have "q @ 47 # d = path_of (segs @ [d])" using "1.prems"(1) by (simp add: path_of_snoc)
        moreover have "\<forall>s \<in> set (segs @ [d]). safe_seg s" using "1.prems"(2) dot_seg [OF d(2) 3] z by auto
        moreover have "length (q @ 47 # d) \<le> (if n < length uri then n - 1 else length uri)"
          using ok [of "q @ 47 # d"] ld False by simp
        ultimately show ?thesis using IH'(3) [OF 3 z _ _ n(3) _ l] by blast
      qed
    qed
  qed
qed

text \<open>C4: No URI leads out of the root directory: a path that is returned is the chosen root followed by segments
that are neither empty nor a dot or two dots and hold no slash or zero (percent-encoded ones included), and it fits
into the block allocated for it.\<close>

theorem mg_uri_to_local_path_confined:
  assumes "mg_uri_to_local_path stat opts method host uri = Some (Some (path, remainder))"
  shows "\<exists>root start segs. choose_root opts method host uri = (root, start) \<and> root \<noteq> [] \<and>
    path = (if last root = 47 then butlast root else root) @ path_of segs \<and> (\<forall>s \<in> set segs. safe_seg s) \<and>
    length path < length root + length uri + 1 \<and> (\<exists>k. remainder = drop k uri)"
proof -
  obtain root start where c: "choose_root opts method host uri = (root, start)" by fastforce
  define base where "base = (if last root = 47 then butlast root else root)"
  obtain q u where q: "root \<noteq> []" "local_path_loop stat uri (length root + length uri + 1) base (start + 1) [] True = Some (q, u)"
      "path = base @ q" "remainder = drop (min u (length uri)) uri"
    using assms c by (auto simp: mg_uri_to_local_path_def base_def Let_def split: option.splits if_splits)
  from local_path_loop_safe [OF _ _ _ _ q(2), of "[]"]
  obtain segs where s: "q = path_of segs" "\<forall>s \<in> set segs. safe_seg s" "length q \<le> length uri"
    by (auto simp: path_of_def)
  have "length base \<le> length root" by (simp add: base_def)
  then have "length path < length root + length uri + 1" using q(3) s(3) by simp
  then show ?thesis using c q(1,3,4) s(1,2) by (auto simp: base_def)
qed

lemma mg_uri_to_local_path_confined_witness:
  "\<exists>root start segs. choose_root \<lparr>so_url_rewrites = [], so_document_root = [47, 114], so_dav_document_root = None\<rparr>
      [71] None [47, 97, 47, 37, 50, 101, 46, 47, 98] = (root, start) \<and> root \<noteq> [] \<and>
    [47, 114, 47, 98] = (if last root = 47 then butlast root else root) @ path_of segs \<and> (\<forall>s \<in> set segs. safe_seg s) \<and>
    length [47, 114, 47, 98 :: byte] < length root + length [47, 97, 47, 37, 50, 101, 46, 47, 98 :: byte] + 1 \<and>
    (\<exists>k. [] = drop k [47, 97, 47, 37, 50, 101, 46, 47, 98 :: byte])"
proof -
  have "mg_uri_to_local_path (\<lambda>_. Some Other_file) \<lparr>so_url_rewrites = [], so_document_root = [47, 114], so_dav_document_root = None\<rparr>
      [71] None [47, 97, 47, 37, 50, 101, 46, 47, 98] = Some (Some ([47, 114, 47, 98], []))" by code_simp
  from mg_uri_to_local_path_confined [OF this] show ?thesis .
qed

text \<open>
  A rule whose pattern ends inside a component of the URI does not apply, but its offset stays: with the rule
  \<open>/foo=/x\<close>, the file of \<open>/foobar/t\<close> is \<open>/ar/t\<close> below the document root.
\<close>

lemma failed_rewrite_cuts_uri:
  "mg_uri_to_local_path (\<lambda>_. Some Other_file)
     \<lparr>so_url_rewrites = cstr ''/foo=/x'', so_document_root = cstr ''/r'', so_dav_document_root = None\<rparr>
     (cstr ''GET'') None (cstr ''/foobar/t'') = Some (Some (cstr ''/r/ar/t'', []))"
  by code_simp

end
