(* ===== verification/MgMqtt.thy ===== *)
theory MgMqtt
  imports MgStr
begin

text \<open>
  MQTT (mongoose/src/mg_mqtt.c and mg_mqtt_server.c of 3rdLib/mongoose/mongoose.c): the parser, the senders, the event
  handler of a connection and the broker. A string in a message is the list of its bytes. \<open>None\<close> as the result
  of the parser is undefined behaviour: a read behind the received bytes, or a shift of a signed int that
  overflows. Times are numbers of one unit (\<open>mq_second\<close> of them make a second). Allocation succeeds.
\<close>

subsection \<open>Constants\<close>

definition MG_MQTT_CMD_CONNECT :: nat where "MG_MQTT_CMD_CONNECT = 1"
definition MG_MQTT_CMD_CONNACK :: nat where "MG_MQTT_CMD_CONNACK = 2"
definition MG_MQTT_CMD_PUBLISH :: nat where "MG_MQTT_CMD_PUBLISH = 3"
definition MG_MQTT_CMD_PUBACK :: nat where "MG_MQTT_CMD_PUBACK = 4"
definition MG_MQTT_CMD_PUBREC :: nat where "MG_MQTT_CMD_PUBREC = 5"
definition MG_MQTT_CMD_PUBREL :: nat where "MG_MQTT_CMD_PUBREL = 6"
definition MG_MQTT_CMD_PUBCOMP :: nat where "MG_MQTT_CMD_PUBCOMP = 7"
definition MG_MQTT_CMD_SUBSCRIBE :: nat where "MG_MQTT_CMD_SUBSCRIBE = 8"
definition MG_MQTT_CMD_SUBACK :: nat where "MG_MQTT_CMD_SUBACK = 9"
definition MG_MQTT_CMD_UNSUBSCRIBE :: nat where "MG_MQTT_CMD_UNSUBSCRIBE = 10"
definition MG_MQTT_CMD_UNSUBACK :: nat where "MG_MQTT_CMD_UNSUBACK = 11"
definition MG_MQTT_CMD_PINGREQ :: nat where "MG_MQTT_CMD_PINGREQ = 12"
definition MG_MQTT_CMD_PINGRESP :: nat where "MG_MQTT_CMD_PINGRESP = 13"
definition MG_MQTT_CMD_DISCONNECT :: nat where "MG_MQTT_CMD_DISCONNECT = 14"

lemmas mqtt_cmds = MG_MQTT_CMD_CONNECT_def MG_MQTT_CMD_CONNACK_def MG_MQTT_CMD_PUBLISH_def MG_MQTT_CMD_PUBACK_def
  MG_MQTT_CMD_PUBREC_def MG_MQTT_CMD_PUBREL_def MG_MQTT_CMD_PUBCOMP_def MG_MQTT_CMD_SUBSCRIBE_def
  MG_MQTT_CMD_SUBACK_def MG_MQTT_CMD_UNSUBSCRIBE_def MG_MQTT_CMD_UNSUBACK_def MG_MQTT_CMD_PINGREQ_def
  MG_MQTT_CMD_PINGRESP_def MG_MQTT_CMD_DISCONNECT_def

definition MG_MQTT_HAS_WILL :: byte where "MG_MQTT_HAS_WILL = 0x04"
definition MG_MQTT_HAS_PASSWORD :: byte where "MG_MQTT_HAS_PASSWORD = 0x40"
definition MG_MQTT_HAS_USER_NAME :: byte where "MG_MQTT_HAS_USER_NAME = 0x80"

lemmas mqtt_flags = MG_MQTT_HAS_WILL_def MG_MQTT_HAS_PASSWORD_def MG_MQTT_HAS_USER_NAME_def

definition MG_MQTT_GET_QOS :: "byte \<Rightarrow> byte" where "MG_MQTT_GET_QOS flags = drop_bit 1 (flags AND 0x6)"
definition MG_MQTT_QOS :: "byte \<Rightarrow> byte" where "MG_MQTT_QOS qos = push_bit 1 qos"

subsection \<open>Parsing\<close>

record mqtt_message =
  mm_cmd :: nat
  mm_qos :: byte
  mm_len :: nat
  mm_topic :: bytes
  mm_payload :: bytes
  mm_connack_ret_code :: byte
  mm_message_id :: nat
  mm_protocol_version :: byte
  mm_connect_flags :: byte
  mm_keep_alive_timer :: nat
  mm_protocol_name :: bytes
  mm_client_id :: bytes
  mm_will_topic :: bytes
  mm_will_message :: bytes
  mm_user_name :: bytes
  mm_password :: bytes

definition no_mqtt_message :: mqtt_message where
  "no_mqtt_message = \<lparr>mm_cmd = 0, mm_qos = 0, mm_len = 0, mm_topic = [], mm_payload = [], mm_connack_ret_code = 0,
     mm_message_id = 0, mm_protocol_version = 0, mm_connect_flags = 0, mm_keep_alive_timer = 0, mm_protocol_name = [],
     mm_client_id = [], mm_will_topic = [], mm_will_message = [], mm_user_name = [], mm_password = []\<rparr>"

definition getu16 :: "bytes \<Rightarrow> nat \<Rightarrow> nat option" where
  "getu16 buf p = (if p + 1 < length buf then Some (be [buf ! p, buf ! (p + 1)]) else None)"

text \<open>The string and the position behind it, which may lie behind the buffer.\<close>

definition scanto :: "bytes \<Rightarrow> nat \<Rightarrow> (bytes \<times> nat) option" where
  "scanto buf p = do { n \<leftarrow> getu16 buf p; Some (take n (drop (p + 2) buf), p + 2 + n) }"

text \<open>
  The variable-length integer: the value, the last byte and the position behind it, or \<open>Inl\<close> for too many bytes.
  The bits of the fifth byte are shifted by 28 in an int.
\<close>

fun mqtt_varint_loop :: "bytes \<Rightarrow> nat \<Rightarrow> nat \<Rightarrow> byte \<Rightarrow> (unit + nat \<times> nat \<times> byte) option" where
  "mqtt_varint_loop [] len len_len lc = Some (Inr (len, len_len, lc))"
| "mqtt_varint_loop (b # s) len len_len lc =
     (if unat (b AND 0x7f) * 2 ^ (7 * len_len) < 2 ^ 31 then
        let len = len + unat (b AND 0x7f) * 2 ^ (7 * len_len) in
        if b AND 0x80 = 0 then Some (Inr (len, Suc len_len, b))
        else if Suc len_len > 4 then Some (Inl ())
        else mqtt_varint_loop s len (Suc len_len) b
      else None)"

datatype mqtt_parse = Mqtt_malformed | Mqtt_incomplete | Mqtt_message nat mqtt_message

text \<open>A string field that is there only with its flag; \<open>Some None\<close> is a malformed message.\<close>

definition opt_field :: "bool \<Rightarrow> bytes \<Rightarrow> nat \<Rightarrow> nat \<Rightarrow> bytes \<Rightarrow> (bytes \<times> nat) option option" where
  "opt_field present buf end p old =
     (if present then (if p \<ge> end then Some None else map_option Some (scanto buf p)) else Some (Some (old, p)))"

definition parse_connect :: "bytes \<Rightarrow> nat \<Rightarrow> nat \<Rightarrow> mqtt_message \<Rightarrow> mqtt_message option option" where
  "parse_connect buf p end mm = do {
     (protocol_name, p) \<leftarrow> scanto buf p;
     (if p + 4 > end then Some None else do {
        let version = buf ! p;
        let flags = buf ! (p + 1);
        keep_alive \<leftarrow> getu16 buf (p + 2);
        let p = p + 4;
        (if p \<ge> end then Some None else do {
          (client_id, p) \<leftarrow> scanto buf p;
          (if p > end then Some None else do {
            r1 \<leftarrow> opt_field (flags AND MG_MQTT_HAS_WILL \<noteq> 0) buf end p (mm_will_topic mm);
            (case r1 of None \<Rightarrow> Some None | Some (will_topic, p) \<Rightarrow> do {
              r2 \<leftarrow> opt_field (flags AND MG_MQTT_HAS_WILL \<noteq> 0) buf end p (mm_will_message mm);
              (case r2 of None \<Rightarrow> Some None | Some (will_message, p) \<Rightarrow> do {
                r3 \<leftarrow> opt_field (flags AND MG_MQTT_HAS_USER_NAME \<noteq> 0) buf end p (mm_user_name mm);
                (case r3 of None \<Rightarrow> Some None | Some (user_name, p) \<Rightarrow> do {
                  r4 \<leftarrow> opt_field (flags AND MG_MQTT_HAS_PASSWORD \<noteq> 0) buf end p (mm_password mm);
                  (case r4 of None \<Rightarrow> Some None | Some (password, p) \<Rightarrow>
                    Some (if p \<noteq> end then None
                      else Some (mm\<lparr>mm_protocol_name := protocol_name, mm_protocol_version := version,
                        mm_connect_flags := flags, mm_keep_alive_timer := keep_alive, mm_client_id := client_id,
                        mm_will_topic := will_topic, mm_will_message := will_message, mm_user_name := user_name,
                        mm_password := password\<rparr>))) }) }) }) }) }) }) }"

definition parse_publish :: "bytes \<Rightarrow> nat \<Rightarrow> nat \<Rightarrow> mqtt_message \<Rightarrow> mqtt_message option option" where
  "parse_publish buf p end mm = do {
     (topic, p) \<leftarrow> scanto buf p;
     (if p > end then Some None
      else if mm_qos mm > 0 then
        (if end - p < 2 then Some None else do {
           message_id \<leftarrow> getu16 buf p;
           Some (Some (mm\<lparr>mm_topic := topic, mm_message_id := message_id,
             mm_payload := take (end - (p + 2)) (drop (p + 2) buf)\<rparr>)) })
      else Some (Some (mm\<lparr>mm_topic := topic, mm_payload := take (end - p) (drop p buf)\<rparr>))) }"

definition parse_body :: "bytes \<Rightarrow> nat \<Rightarrow> nat \<Rightarrow> mqtt_message \<Rightarrow> mqtt_message option option" where
  "parse_body buf p end mm =
     (let cmd = mm_cmd mm in
      if cmd = MG_MQTT_CMD_CONNECT then parse_connect buf p end mm
      else if cmd = MG_MQTT_CMD_CONNACK then
        (if end - p < 2 then Some None else Some (Some (mm\<lparr>mm_connack_ret_code := buf ! (p + 1)\<rparr>)))
      else if cmd \<in> {MG_MQTT_CMD_PUBACK, MG_MQTT_CMD_PUBREC, MG_MQTT_CMD_PUBREL, MG_MQTT_CMD_PUBCOMP, MG_MQTT_CMD_SUBACK} then
        map_option (\<lambda>i. Some (mm\<lparr>mm_message_id := i\<rparr>)) (getu16 buf p)
      else if cmd = MG_MQTT_CMD_PUBLISH then parse_publish buf p end mm
      else if cmd = MG_MQTT_CMD_SUBSCRIBE then
        (if end - p < 2 then Some None else do {
           message_id \<leftarrow> getu16 buf p;
           Some (Some (mm\<lparr>mm_message_id := message_id, mm_payload := take (end - (p + 2)) (drop (p + 2) buf)\<rparr>)) })
      else Some (Some mm))"

definition parse_mqtt :: "bytes \<Rightarrow> mqtt_message \<Rightarrow> mqtt_parse option" where
  "parse_mqtt io mm =
     (if length io < 2 then Some Mqtt_incomplete
      else do {
        let header = io ! 0;
        v \<leftarrow> mqtt_varint_loop (drop 1 io) 0 0 0;
        (case v of Inl _ \<Rightarrow> Some Mqtt_malformed
         | Inr (len, len_len, lc) \<Rightarrow>
             let p = 1 + len_len; end = p + len in
             if lc AND 0x80 \<noteq> 0 \<or> len > length io - p then Some Mqtt_incomplete
             else do {
               r \<leftarrow> parse_body io p end (mm\<lparr>mm_cmd := unat (drop_bit 4 header), mm_qos := MG_MQTT_GET_QOS header\<rparr>);
               Some (case r of None \<Rightarrow> Mqtt_malformed | Some mm \<Rightarrow> Mqtt_message end (mm\<lparr>mm_len := end\<rparr>)) }) })"

subsection \<open>Sending\<close>

record mqtt_conn =
  mq_recv :: bytes
  mq_send :: bytes
  mq_close_immediately :: bool
  mq_recv_mbuf_limit :: nat
  mq_keep_alive :: nat
  mq_last_control_time :: int

definition mq_emit :: "bytes \<Rightarrow> mqtt_conn \<Rightarrow> mqtt_conn" where
  "mq_emit d nc = nc\<lparr>mq_send := mq_send nc @ d\<rparr>"

fun mqtt_varint :: "nat \<Rightarrow> bytes" where
  "mqtt_varint len = (if len div 0x80 = 0 then [of_nat (len mod 0x80)]
     else (of_nat (len mod 0x80) OR 0x80) # mqtt_varint (len div 0x80))"

declare mqtt_varint.simps [simp del]

text \<open>More than eight length bytes do not fit into the local buffer.\<close>

definition mg_send_mqtt_header :: "int \<Rightarrow> nat \<Rightarrow> byte \<Rightarrow> nat \<Rightarrow> mqtt_conn \<Rightarrow> mqtt_conn option" where
  "mg_send_mqtt_header now cmd flags len nc =
     (if length (mqtt_varint len) \<le> 8 then
        Some ((mq_emit ((push_bit 4 (of_nat cmd) OR flags) # mqtt_varint len) nc)\<lparr>mq_last_control_time := now\<rparr>)
      else None)"

text \<open>A string in front of which its length stands (modulo \<open>2 ^ 16\<close>).\<close>

definition mqtt_string :: "bytes \<Rightarrow> bytes" where
  "mqtt_string s = (let n = length s mod 2 ^ 16 in to_be 2 n @ take n s)"

record mqtt_opts =
  mo_flags :: byte
  mo_keep_alive :: nat
  mo_will_topic :: "bytes option"
  mo_will_message :: "bytes option"
  mo_user_name :: "bytes option"
  mo_password :: "bytes option"

text \<open>A flag that the caller sets for a string that is NULL makes strlen read it.\<close>

definition flag_string :: "bool \<Rightarrow> bytes option \<Rightarrow> bytes option" where
  "flag_string flag s = (if flag then s else Some [])"

definition field_len :: "bool \<Rightarrow> bytes \<Rightarrow> nat" where
  "field_len present s = (if present then 2 + length s mod 2 ^ 16 else 0)"

definition handshake_flags :: "mqtt_opts \<Rightarrow> byte" where
  "handshake_flags opts =
     (let flags = mo_flags opts;
          flags = (if mo_user_name opts \<noteq> None then flags OR MG_MQTT_HAS_USER_NAME else flags);
          flags = (if mo_password opts \<noteq> None then flags OR MG_MQTT_HAS_PASSWORD else flags)
      in if mo_will_topic opts \<noteq> None \<and> mo_will_message opts \<noteq> None then flags OR MG_MQTT_HAS_WILL else flags)"

definition mg_send_mqtt_handshake_opt :: "int \<Rightarrow> bytes option \<Rightarrow> mqtt_opts \<Rightarrow> mqtt_conn \<Rightarrow> mqtt_conn option" where
  "mg_send_mqtt_handshake_opt now client_id opts nc = do {
     let id = (case client_id of None \<Rightarrow> [] | Some c \<Rightarrow> c);
     let both = (mo_will_topic opts \<noteq> None \<and> mo_will_message opts \<noteq> None);
     let wt = (if both then the (mo_will_topic opts) else []);
     let wm = (if both then the (mo_will_message opts) else []);
     let flags = handshake_flags opts;
     let keep_alive = (if mo_keep_alive opts = 0 then 60 else mo_keep_alive opts);
     let will = (flags AND MG_MQTT_HAS_WILL \<noteq> 0);
     let has_user = (flags AND MG_MQTT_HAS_USER_NAME \<noteq> 0);
     let has_pass = (flags AND MG_MQTT_HAS_PASSWORD \<noteq> 0);
     user \<leftarrow> flag_string has_user (mo_user_name opts);
     pass \<leftarrow> flag_string has_pass (mo_password opts);
     let total_len = 7 + 1 + 2 + 2 + length id mod 2 ^ 16 + field_len will wt
       + (if will then 2 + length wm mod 2 ^ 16 else 0) + field_len has_user user + field_len has_pass pass;
     nc \<leftarrow> mg_send_mqtt_header now MG_MQTT_CMD_CONNECT 0 total_len nc;
     let nc = mq_emit ([0, 4] @ cstr ''MQTT'' @ [4]) nc;
     let nc = mq_emit [flags] nc;
     let nc = mq_emit (to_be 2 keep_alive) nc;
     let nc = mq_emit (mqtt_string id) nc;
     let nc = (if will then mq_emit (mqtt_string wm) (mq_emit (mqtt_string wt) nc) else nc);
     let nc = (if has_user then mq_emit (mqtt_string user) nc else nc);
     let nc = (if has_pass then mq_emit (mqtt_string pass) nc else nc);
     Some (nc\<lparr>mq_keep_alive := keep_alive\<rparr>) }"

definition no_mqtt_opts :: mqtt_opts where
  "no_mqtt_opts = \<lparr>mo_flags = 0, mo_keep_alive = 0, mo_will_topic = None, mo_will_message = None,
     mo_user_name = None, mo_password = None\<rparr>"

definition mg_send_mqtt_handshake :: "int \<Rightarrow> bytes option \<Rightarrow> mqtt_conn \<Rightarrow> mqtt_conn option" where
  "mg_send_mqtt_handshake now client_id nc = mg_send_mqtt_handshake_opt now client_id no_mqtt_opts nc"

text \<open>The length counts the topic's length modulo \<open>2 ^ 16\<close>, as the string is sent.\<close>

definition mg_mqtt_publish :: "int \<Rightarrow> bytes \<Rightarrow> nat \<Rightarrow> byte \<Rightarrow> bytes \<Rightarrow> mqtt_conn \<Rightarrow> mqtt_conn option" where
  "mg_mqtt_publish now topic message_id flags data nc = do {
     let qos = (MG_MQTT_GET_QOS flags > 0);
     let total_len = 2 + length topic mod 2 ^ 16 + length data + (if qos then 2 else 0);
     nc \<leftarrow> mg_send_mqtt_header now MG_MQTT_CMD_PUBLISH flags total_len nc;
     let nc = mq_emit (mqtt_string topic) nc;
     let nc = (if qos then mq_emit (to_be 2 message_id) nc else nc);
     Some (mq_emit data nc) }"

definition mg_mqtt_subscribe :: "int \<Rightarrow> (bytes \<times> byte) list \<Rightarrow> nat \<Rightarrow> mqtt_conn \<Rightarrow> mqtt_conn option" where
  "mg_mqtt_subscribe now topics message_id nc = do {
     let total_len = 2 + sum_list (map (\<lambda>(t, _). 2 + length t + 1) topics);
     nc \<leftarrow> mg_send_mqtt_header now MG_MQTT_CMD_SUBSCRIBE (MG_MQTT_QOS 1) total_len nc;
     let nc = mq_emit (to_be 2 message_id) nc;
     Some (fold (\<lambda>(t, q) nc. mq_emit [q] (mq_emit (mqtt_string t) nc)) topics nc) }"

definition mg_mqtt_unsubscribe :: "int \<Rightarrow> bytes list \<Rightarrow> nat \<Rightarrow> mqtt_conn \<Rightarrow> mqtt_conn option" where
  "mg_mqtt_unsubscribe now topics message_id nc = do {
     let total_len = 2 + sum_list (map (\<lambda>t. 2 + length t) topics);
     nc \<leftarrow> mg_send_mqtt_header now MG_MQTT_CMD_UNSUBSCRIBE (MG_MQTT_QOS 1) total_len nc;
     let nc = mq_emit (to_be 2 message_id) nc;
     Some (fold (\<lambda>t nc. mq_emit (mqtt_string t) nc) topics nc) }"

definition mg_mqtt_connack :: "int \<Rightarrow> byte \<Rightarrow> mqtt_conn \<Rightarrow> mqtt_conn option" where
  "mg_mqtt_connack now return_code nc = do {
     nc \<leftarrow> mg_send_mqtt_header now MG_MQTT_CMD_CONNACK 0 2 nc;
     Some (mq_emit [return_code] (mq_emit [0] nc)) }"

definition mg_send_mqtt_short_command :: "int \<Rightarrow> nat \<Rightarrow> nat \<Rightarrow> mqtt_conn \<Rightarrow> mqtt_conn option" where
  "mg_send_mqtt_short_command now cmd message_id nc = do {
     nc \<leftarrow> mg_send_mqtt_header now cmd (if cmd = MG_MQTT_CMD_PUBREL then 2 else 0) 2 nc;
     Some (mq_emit (to_be 2 message_id) nc) }"

definition mg_mqtt_puback :: "int \<Rightarrow> nat \<Rightarrow> mqtt_conn \<Rightarrow> mqtt_conn option" where
  "mg_mqtt_puback now = mg_send_mqtt_short_command now MG_MQTT_CMD_PUBACK"
definition mg_mqtt_pubrec :: "int \<Rightarrow> nat \<Rightarrow> mqtt_conn \<Rightarrow> mqtt_conn option" where
  "mg_mqtt_pubrec now = mg_send_mqtt_short_command now MG_MQTT_CMD_PUBREC"
definition mg_mqtt_pubrel :: "int \<Rightarrow> nat \<Rightarrow> mqtt_conn \<Rightarrow> mqtt_conn option" where
  "mg_mqtt_pubrel now = mg_send_mqtt_short_command now MG_MQTT_CMD_PUBREL"
definition mg_mqtt_pubcomp :: "int \<Rightarrow> nat \<Rightarrow> mqtt_conn \<Rightarrow> mqtt_conn option" where
  "mg_mqtt_pubcomp now = mg_send_mqtt_short_command now MG_MQTT_CMD_PUBCOMP"
definition mg_mqtt_unsuback :: "int \<Rightarrow> nat \<Rightarrow> mqtt_conn \<Rightarrow> mqtt_conn option" where
  "mg_mqtt_unsuback now = mg_send_mqtt_short_command now MG_MQTT_CMD_UNSUBACK"

definition mg_mqtt_suback :: "int \<Rightarrow> bytes \<Rightarrow> nat \<Rightarrow> mqtt_conn \<Rightarrow> mqtt_conn option" where
  "mg_mqtt_suback now qoss message_id nc = do {
     nc \<leftarrow> mg_send_mqtt_header now MG_MQTT_CMD_SUBACK (MG_MQTT_QOS 1) (2 + length qoss) nc;
     let nc = mq_emit (to_be 2 message_id) nc;
     Some (fold (\<lambda>q. mq_emit [q]) qoss nc) }"

definition mg_mqtt_ping :: "int \<Rightarrow> mqtt_conn \<Rightarrow> mqtt_conn option" where
  "mg_mqtt_ping now = mg_send_mqtt_header now MG_MQTT_CMD_PINGREQ 0 0"
definition mg_mqtt_pong :: "int \<Rightarrow> mqtt_conn \<Rightarrow> mqtt_conn option" where
  "mg_mqtt_pong now = mg_send_mqtt_header now MG_MQTT_CMD_PINGRESP 0 0"
definition mg_mqtt_disconnect :: "int \<Rightarrow> mqtt_conn \<Rightarrow> mqtt_conn option" where
  "mg_mqtt_disconnect now = mg_send_mqtt_header now MG_MQTT_CMD_DISCONNECT 0 0"


subsection \<open>The handler of a connection\<close>



text \<open>
  The connection's handler is called with the event of the network layer first, then with each message. What the protocol
  handler does on accepting (allocating its data) is left out.
\<close>

datatype mqtt_event = Mq_recv | Mq_poll | Mq_message mqtt_message


definition mqtt_handle_poll ::
    "int \<Rightarrow> int \<Rightarrow> (mqtt_event \<Rightarrow> mqtt_conn \<Rightarrow> mqtt_conn option) \<Rightarrow> mqtt_conn \<Rightarrow> mqtt_conn option" where
  "mqtt_handle_poll mq_second now h nc = do {
     nc \<leftarrow> h Mq_poll nc;
     if mq_keep_alive nc > 0 \<and> mq_last_control_time nc > 0 \<and>
        now - mq_last_control_time nc > int (mq_keep_alive nc) * mq_second
     then mg_mqtt_ping now nc else Some nc }"

subsection \<open>Topics\<close>

definition mg_mqtt_match_topic_expression :: "bytes \<Rightarrow> bytes \<Rightarrow> bool" where
  "mg_mqtt_match_topic_expression ex topic =
     (if memchr ex 35 \<noteq> None then
        let n = length ex - 1 in
        if length topic \<le> n then False else strncmp topic ex n = 0
      else if length topic \<noteq> length ex then False
      else strncmp topic ex (length ex) = 0)"

text \<open>The expression is a C string.\<close>

definition mg_mqtt_vmatch_topic_expression :: "bytes \<Rightarrow> bytes \<Rightarrow> bool" where
  "mg_mqtt_vmatch_topic_expression ex topic = mg_mqtt_match_topic_expression (takeWhile (\<lambda>c. c \<noteq> 0) ex) topic"

text \<open>Topic, quality of service and the next position, or -1; the outer \<open>None\<close> is a read behind the payload.\<close>

definition mg_mqtt_next_subscribe_topic :: "bytes \<Rightarrow> nat \<Rightarrow> (bytes \<times> byte \<times> nat) option option" where
  "mg_mqtt_next_subscribe_topic payload pos =
     (if pos \<ge> length payload then Some None
      else do {
        n \<leftarrow> getu16 payload pos;
        let new_pos = pos + 2 + n + 1;
        Some (if new_pos > length payload then None
          else Some (take n (drop (pos + 2) payload), payload ! (pos + 2 + n), new_pos)) })"

subsection \<open>The broker\<close>

text \<open>
  Connections are numbered. A session belongs to one connection; the code finds it through the connection's
  \<open>priv_2\<close>, which is NULL until CONNECT, so a connection has a session exactly when one in the list is its own.
\<close>

definition MG_MQTT_MAX_SESSION_SUBSCRIPTIONS :: nat where "MG_MQTT_MAX_SESSION_SUBSCRIPTIONS = 512"

text \<open>\<open>sizeof (MG_MQTT_MAX_SESSION_SUBSCRIPTIONS)\<close>: the size of an int.\<close>

definition sizeof_max_subscriptions :: nat where "sizeof_max_subscriptions = 4"

record mqtt_session =
  ms_nc :: nat
  ms_subscriptions :: "(bytes \<times> byte) list"

record mqtt_broker =
  bk_sessions :: "mqtt_session list"
  bk_conns :: "nat \<Rightarrow> mqtt_conn"

definition bk_close :: "nat \<Rightarrow> mqtt_broker \<Rightarrow> mqtt_broker" where
  "bk_close nc b = b\<lparr>bk_conns := (bk_conns b)(nc := (bk_conns b nc)\<lparr>mq_close_immediately := True\<rparr>)\<rparr>"

definition bk_send :: "nat \<Rightarrow> (mqtt_conn \<Rightarrow> mqtt_conn option) \<Rightarrow> mqtt_broker \<Rightarrow> mqtt_broker option" where
  "bk_send nc f b = do { c \<leftarrow> f (bk_conns b nc); Some (b\<lparr>bk_conns := (bk_conns b)(nc := c)\<rparr>) }"

definition session_of :: "nat \<Rightarrow> mqtt_broker \<Rightarrow> mqtt_session option" where
  "session_of nc b = find (\<lambda>s. ms_nc s = nc) (bk_sessions b)"

definition mg_mqtt_add_session :: "mqtt_session \<Rightarrow> mqtt_broker \<Rightarrow> mqtt_broker" where
  "mg_mqtt_add_session s b = b\<lparr>bk_sessions := s # bk_sessions b\<rparr>"

definition mg_mqtt_close_session :: "mqtt_session \<Rightarrow> mqtt_broker \<Rightarrow> mqtt_broker" where
  "mg_mqtt_close_session s b = b\<lparr>bk_sessions := remove1 s (bk_sessions b)\<rparr>"

definition mg_mqtt_broker_handle_connect :: "int \<Rightarrow> nat \<Rightarrow> mqtt_broker \<Rightarrow> mqtt_broker option" where
  "mg_mqtt_broker_handle_connect now nc b =
     bk_send nc (mg_mqtt_connack now 0) (mg_mqtt_add_session \<lparr>ms_nc = nc, ms_subscriptions = []\<rparr> b)"

text \<open>
  The first pass counts the subscriptions and collects the qualities of service (\<open>Inl\<close> when there are too many),
  the second one stores them; its position is \<open>None\<close> for -1.
\<close>

lemma next_subscribe_pos:
  "mg_mqtt_next_subscribe_topic payload pos = Some (Some (t, q, p)) \<Longrightarrow> pos < p \<and> p \<le> length payload"
  by (auto simp: mg_mqtt_next_subscribe_topic_def split: if_splits)

function sub_scan :: "bytes \<Rightarrow> nat \<Rightarrow> nat \<Rightarrow> bytes \<Rightarrow> (unit + bytes) option" where
  "sub_scan payload pos have qoss =
     (case mg_mqtt_next_subscribe_topic payload pos of
        None \<Rightarrow> None
      | Some None \<Rightarrow> Some (Inr qoss)
      | Some (Some (_, qos, p)) \<Rightarrow>
          if length qoss \<ge> sizeof_max_subscriptions \<or> have + length qoss \<ge> MG_MQTT_MAX_SESSION_SUBSCRIPTIONS
          then Some (Inl ()) else sub_scan payload p have (qoss @ [qos]))"
  by pat_completeness auto
termination
  by (relation "measure (\<lambda>(payload, pos, _). length payload - pos)") (auto dest!: next_subscribe_pos)

function sub_fill :: "bytes \<Rightarrow> nat \<Rightarrow> (bytes \<times> byte) list \<Rightarrow> (nat option \<times> (bytes \<times> byte) list) option" where
  "sub_fill payload pos subs =
     (if pos < length payload then
        (case mg_mqtt_next_subscribe_topic payload pos of
           None \<Rightarrow> None
         | Some None \<Rightarrow> Some (None, subs)
         | Some (Some (topic, qos, p)) \<Rightarrow> sub_fill payload p (subs @ [(topic, qos)]))
      else Some (Some pos, subs))"
  by pat_completeness auto
termination
  by (relation "measure (\<lambda>(payload, pos, _). length payload - pos)") (auto dest!: next_subscribe_pos)

declare sub_scan.simps [simp del] sub_fill.simps [simp del]

text \<open>When nothing is subscribed to, the position is still the -1 of the first loop.\<close>

definition mg_mqtt_broker_handle_subscribe :: "int \<Rightarrow> nat \<Rightarrow> mqtt_session \<Rightarrow> mqtt_message \<Rightarrow> mqtt_broker \<Rightarrow> mqtt_broker option" where
  "mg_mqtt_broker_handle_subscribe now nc ss msg b = do {
     r \<leftarrow> sub_scan (mm_payload msg) 0 (length (ms_subscriptions ss)) [];
     (case r of Inl _ \<Rightarrow> Some (bk_close nc b)
      | Inr qoss \<Rightarrow> do {
          (pos, subs) \<leftarrow> (if length qoss > 0 then sub_fill (mm_payload msg) 0 (ms_subscriptions ss)
                          else Some (None, ms_subscriptions ss));
          let b = b\<lparr>bk_sessions := map (\<lambda>s. if s = ss then ss\<lparr>ms_subscriptions := subs\<rparr> else s) (bk_sessions b)\<rparr>;
          (if pos = Some (length (mm_payload msg)) then bk_send nc (mg_mqtt_suback now qoss (mm_message_id msg)) b
           else Some (bk_close nc b)) }) }"

text \<open>The topic goes through a format of C strings.\<close>

fun publish_sessions :: "int \<Rightarrow> mqtt_message \<Rightarrow> mqtt_session list \<Rightarrow> mqtt_broker \<Rightarrow> mqtt_broker option" where
  "publish_sessions now msg [] b = Some b"
| "publish_sessions now msg (s # ss) b = do {
     b \<leftarrow> (if \<exists>(t, _) \<in> set (ms_subscriptions s). mg_mqtt_vmatch_topic_expression t (mm_topic msg) then
             bk_send (ms_nc s) (mg_mqtt_publish now (takeWhile (\<lambda>c. c \<noteq> 0) (mm_topic msg)) 0 0 (mm_payload msg)) b
           else Some b);
     publish_sessions now msg ss b }"

definition mg_mqtt_broker_handle_publish :: "int \<Rightarrow> mqtt_message \<Rightarrow> mqtt_broker \<Rightarrow> mqtt_broker option" where
  "mg_mqtt_broker_handle_publish now msg b = publish_sessions now msg (bk_sessions b) b"

datatype broker_event = Ev_connect | Ev_subscribe mqtt_message | Ev_publish mqtt_message | Ev_close | Ev_other

definition mg_mqtt_broker :: "int \<Rightarrow> nat \<Rightarrow> broker_event \<Rightarrow> mqtt_broker \<Rightarrow> mqtt_broker option" where
  "mg_mqtt_broker now nc ev b =
     (case ev of
        Ev_connect \<Rightarrow> (if session_of nc b = None then mg_mqtt_broker_handle_connect now nc b else Some (bk_close nc b))
      | Ev_subscribe msg \<Rightarrow>
          (case session_of nc b of Some ss \<Rightarrow> mg_mqtt_broker_handle_subscribe now nc ss msg b | None \<Rightarrow> Some (bk_close nc b))
      | Ev_publish msg \<Rightarrow>
          (if session_of nc b \<noteq> None then mg_mqtt_broker_handle_publish now msg b else Some (bk_close nc b))
      | Ev_close \<Rightarrow> (case session_of nc b of Some ss \<Rightarrow> Some (mg_mqtt_close_session ss b) | None \<Rightarrow> Some b)
      | Ev_other \<Rightarrow> Some b)"

subsection \<open>Variable-length integers\<close>

lemma varint_byte: "(of_nat (n mod 128) OR 128) AND (127 :: byte) = of_nat (n mod 128)"
  "(of_nat (n mod 128) OR 128) AND (128 :: byte) = 128" "of_nat (n mod 128) AND (127 :: byte) = of_nat (n mod 128)"
  "of_nat (n mod 128) AND (128 :: byte) = 0" "unat (of_nat (n mod 128) :: byte) = n mod 128"
proof -
  have "\<forall>n \<in> set [0..<128]. (of_nat n OR 128) AND (127 :: byte) = of_nat n \<and> (of_nat n OR 128) AND (128 :: byte) = 128 \<and>
    of_nat n AND (127 :: byte) = of_nat n \<and> of_nat n AND (128 :: byte) = 0 \<and> unat (of_nat n :: byte) = n" by code_simp
  then show "(of_nat (n mod 128) OR 128) AND (127 :: byte) = of_nat (n mod 128)"
    "(of_nat (n mod 128) OR 128) AND (128 :: byte) = 128" "of_nat (n mod 128) AND (127 :: byte) = of_nat (n mod 128)"
    "of_nat (n mod 128) AND (128 :: byte) = 0" "unat (of_nat (n mod 128) :: byte) = n mod 128" by auto
qed

lemma varint_loop_varint:
  assumes "n < 2 ^ (31 - 7 * k)" "k \<le> 4"
  shows "\<exists>lc. mqtt_varint_loop (mqtt_varint n @ s) len k lc0 =
    Some (Inr (len + n * 2 ^ (7 * k), k + length (mqtt_varint n), lc)) \<and> lc AND 0x80 = 0"
  using assms
proof (induction n arbitrary: k len lc0 rule: mqtt_varint.induct)
  case (1 n)
  show ?case
  proof (cases "n div 128 = 0")
    case True
    then have n: "n < 128" "n mod 128 = n" by auto
    have "n * 2 ^ (7 * k) < 2 ^ (31 - 7 * k) * 2 ^ (7 * k)" using "1.prems"(1) by simp
    also have "\<dots> = 2 ^ 31" using "1.prems"(2) by (simp flip: power_add)
    finally have b: "n * 2 ^ (7 * k) < 2 ^ 31" .
    have e: "mqtt_varint n = [of_nat n]" using True n by (subst mqtt_varint.simps) simp
    show ?thesis unfolding e using b varint_byte [of n, unfolded n(2)] by simp
  next
    case False
    then have n: "128 \<le> n" by (simp add: div_eq_0_iff)
    have k: "k \<le> 3"
    proof (rule ccontr)
      assume "\<not> k \<le> 3"
      then have "k = 4" using "1.prems"(2) by simp
      then show False using "1.prems"(1) n by simp
    qed
    have kk: "7 * k \<le> 21" using k by simp
    have "n div 128 < 2 ^ (31 - 7 * Suc k)"
    proof -
      have "31 - 7 * k = (31 - 7 * Suc k) + 7" using kk by simp
      then have "(2 :: nat) ^ (31 - 7 * k) = 2 ^ (31 - 7 * Suc k) * 128" by (simp only: power_add) simp
      then show ?thesis using "1.prems"(1) by (simp add: less_mult_imp_div_less)
    qed
    moreover have "Suc k \<le> 4" using k by simp
    ultimately obtain lc where IH: "mqtt_varint_loop (mqtt_varint (n div 128) @ s) (len + n mod 128 * 2 ^ (7 * k)) (Suc k) (of_nat (n mod 128) OR 128) =
        Some (Inr (len + n mod 128 * 2 ^ (7 * k) + n div 128 * 2 ^ (7 * Suc k), Suc k + length (mqtt_varint (n div 128)), lc))"
        "lc AND 0x80 = 0" using "1.IH" [OF False] by blast
    have e: "mqtt_varint n = (of_nat (n mod 128) OR 128) # mqtt_varint (n div 128)" using False by (subst mqtt_varint.simps) simp
    have "(2 :: nat) ^ (7 * k) \<le> 2 ^ 21" using kk by (rule power_increasing) simp
    moreover have "n mod 128 \<le> 127" using mod_less_divisor [of 128 n] by linarith
    ultimately have "n mod 128 * 2 ^ (7 * k) \<le> 127 * 2 ^ 21" by (rule mult_le_mono [rotated])
    then have b: "n mod 128 * 2 ^ (7 * k) < 2 ^ 31" by simp
    have v: "n mod 128 * 2 ^ (7 * k) + n div 128 * 2 ^ (7 * Suc k) = n * 2 ^ (7 * k)"
    proof -
      have "n div 128 * 2 ^ (7 * Suc k) = (n div 128 * 128) * (2 :: nat) ^ (7 * k)" by (simp add: power_add)
      then have "n mod 128 * 2 ^ (7 * k) + n div 128 * 2 ^ (7 * Suc k) = (n div 128 * 128 + n mod 128) * 2 ^ (7 * k)"
        by (simp only: distrib_right add.commute)
      then show ?thesis by (simp only: div_mult_mod_eq)
    qed
    show ?thesis
      unfolding e using IH b k varint_byte [of n] v by (simp add: Let_def add.assoc)
  qed
qed


subsection \<open>A message at the front of the buffer\<close>

definition mqtt_frame :: "nat \<Rightarrow> byte \<Rightarrow> bytes \<Rightarrow> bytes" where
  "mqtt_frame cmd flags body = (push_bit 4 (of_nat cmd) OR flags) # mqtt_varint (length body) @ body"

lemma mqtt_varint_pos: "0 < length (mqtt_varint n)"
  by (subst mqtt_varint.simps) simp

lemma mqtt_header_bits:
  assumes "cmd < 16" "flags < 16"
  shows "unat (drop_bit 4 (push_bit 4 (of_nat cmd) OR flags :: byte)) = cmd" "MG_MQTT_GET_QOS (push_bit 4 (of_nat cmd) OR flags) = MG_MQTT_GET_QOS flags"
proof -
  have "\<forall>c \<in> set [0..<16]. \<forall>f \<in> set [0..<16]. unat (drop_bit 4 (push_bit 4 (of_nat c) OR of_nat f :: byte)) = c \<and>
    MG_MQTT_GET_QOS (push_bit 4 (of_nat c) OR of_nat f) = MG_MQTT_GET_QOS (of_nat f)" by code_simp
  moreover obtain n where n: "flags = of_nat n" "n \<in> set [0..<16]"
  proof
    show "flags = of_nat (unat flags)" by simp
    show "unat flags \<in> set [0..<16]" using assms(2) by (simp add: word_less_nat_alt)
  qed
  moreover have "cmd \<in> set [0..<16]" using assms(1) by simp
  ultimately show "unat (drop_bit 4 (push_bit 4 (of_nat cmd) OR flags :: byte)) = cmd"
    "MG_MQTT_GET_QOS (push_bit 4 (of_nat cmd) OR flags) = MG_MQTT_GET_QOS flags"
    unfolding n(1) by blast+
qed

lemma parse_mqtt_frame:
  assumes "cmd < 16" "flags < 16" "length body < 2 ^ 31"
    and "mm' = mm\<lparr>mm_cmd := cmd, mm_qos := MG_MQTT_GET_QOS flags\<rparr>"
    and "io = mqtt_frame cmd flags body @ rest" "p = 1 + length (mqtt_varint (length body))" "e = p + length body"
  shows "parse_mqtt io mm = (case parse_body io p e mm' of None \<Rightarrow> None | Some None \<Rightarrow> Some Mqtt_malformed
    | Some (Some m) \<Rightarrow> Some (Mqtt_message e (m\<lparr>mm_len := e\<rparr>)))"
proof -
  obtain lc where v: "mqtt_varint_loop (drop 1 io) 0 0 0 = Some (Inr (length body, length (mqtt_varint (length body)), lc))" "lc AND 0x80 = 0"
    using varint_loop_varint [of "length body" 0 "body @ rest" 0 0] assms(3) by (auto simp: assms(5) mqtt_frame_def)
  have l: "\<not> length io < 2" "\<not> length io - p < length body"
    using mqtt_varint_pos [of "length body"] by (simp_all add: assms(5,6) mqtt_frame_def)
  have h: "io ! 0 = push_bit 4 (of_nat cmd) OR flags" by (simp add: assms(5) mqtt_frame_def)
  show ?thesis
    unfolding parse_mqtt_def Let_def v(1) h mqtt_header_bits [OF assms(1,2)] assms(4) using v(2) l assms(6,7)
    by (simp split: option.split)
qed


lemma getu16_append [simp]: "getu16 (pre @ to_be 2 v @ post) (length pre) = Some (v mod 2 ^ 16)"
proof -
  obtain a b where ab: "to_be 2 v = [a, b]" by (simp add: numeral_2_eq_2)
  moreover have "be [a, b] = v mod 2 ^ 16" unfolding ab [symmetric] by simp
  ultimately show ?thesis by (simp add: getu16_def nth_append)
qed

lemma mqtt_string_eq: "length s < 2 ^ 16 \<Longrightarrow> mqtt_string s = to_be 2 (length s) @ s"
  by (simp add: mqtt_string_def)

lemma scanto_string:
  assumes "length s < 2 ^ 16"
  shows "scanto (pre @ mqtt_string s @ post) (length pre) = Some (s, length pre + 2 + length s)"
  using assms by (simp add: scanto_def mqtt_string_eq)

text \<open>The same fact for a buffer and a position that are known only by equations.\<close>

lemma scanto_at:
  assumes "buf = pre @ mqtt_string s @ post" "p = length pre" "length s < 2 ^ 16"
  shows "scanto buf p = Some (s, p + 2 + length s)"
  using scanto_string [OF assms(3)] assms by simp

lemma getu16_at: "buf = pre @ to_be 2 v @ post \<Longrightarrow> p = length pre \<Longrightarrow> getu16 buf p = Some (v mod 2 ^ 16)"
  using getu16_append by blast

lemma length_mqtt_varint:
  assumes "n < 128 ^ k" "0 < k"
  shows "length (mqtt_varint n) \<le> k"
  using assms
proof (induction n arbitrary: k rule: mqtt_varint.induct)
  case (1 n)
  show ?case
  proof (cases "n div 128 = 0")
    case True
    then show ?thesis using "1.prems" by (subst mqtt_varint.simps) simp
  next
    case False
    then have n: "128 \<le> n" by (simp add: div_eq_0_iff)
    then obtain j where k: "k = Suc j" "0 < j" using "1.prems" by (cases k; cases "k - 1") auto
    have "n div 128 < 128 ^ j" using "1.prems"(1) k(1) by (simp add: less_mult_imp_div_less mult.commute)
    then show ?thesis using "1.IH" [OF False, of j] k False by (subst mqtt_varint.simps) simp
  qed
qed

lemma mg_send_mqtt_header_Some:
  assumes "n < 2 ^ 31"
  shows "mg_send_mqtt_header now cmd flags n nc =
    Some ((mq_emit ((push_bit 4 (of_nat cmd) OR flags) # mqtt_varint n) nc)\<lparr>mq_last_control_time := now\<rparr>)"
  using length_mqtt_varint [of n 8] assms by (simp add: mg_send_mqtt_header_def)

lemma mq_emit_simps [simp]:
  "mq_send (mq_emit d nc) = mq_send nc @ d" "mq_emit d (mq_emit c nc) = mq_emit (c @ d) nc"
  "mq_emit d (nc\<lparr>mq_last_control_time := t\<rparr>) = (mq_emit d nc)\<lparr>mq_last_control_time := t\<rparr>"
  by (simp_all add: mq_emit_def)

subsection \<open>PUBLISH\<close>

definition publish_body :: "bool \<Rightarrow> bytes \<Rightarrow> nat \<Rightarrow> bytes \<Rightarrow> bytes" where
  "publish_body qos topic message_id data = mqtt_string topic @ (if qos then to_be 2 message_id else []) @ data"

lemma mg_mqtt_publish_frame:
  assumes "length topic < 2 ^ 16" "length data < 2 ^ 30"
  shows "mg_mqtt_publish now topic message_id flags data nc =
    Some ((mq_emit (mqtt_frame MG_MQTT_CMD_PUBLISH flags (publish_body (MG_MQTT_GET_QOS flags > 0) topic message_id data)) nc)
      \<lparr>mq_last_control_time := now\<rparr>)"
proof -
  have "2 + length topic + length data + 2 < 2 ^ 31" using assms by simp
  then show ?thesis using assms
    by (auto simp: mg_mqtt_publish_def mqtt_frame_def publish_body_def mqtt_string_eq mg_send_mqtt_header_Some Let_def add_ac)
qed

lemma parse_publish_body:
  assumes "length topic < 2 ^ 16" "message_id < 2 ^ 16" "buf = pre @ publish_body (mm_qos mm > 0) topic message_id data @ post"
    "p = length pre" "e = p + length (publish_body (mm_qos mm > 0) topic message_id data)"
  shows "parse_publish buf p e mm = Some (Some (mm\<lparr>mm_topic := topic, mm_payload := data,
    mm_message_id := (if mm_qos mm > 0 then message_id else mm_message_id mm)\<rparr>))"
proof -
  have s: "scanto buf p = Some (topic, p + 2 + length topic)"
    using scanto_at [OF _ assms(4,1)] assms(3) by (simp add: publish_body_def)
  have l: "length (mqtt_string topic) = 2 + length topic" using assms(1) by (simp add: mqtt_string_eq)
  have g: "getu16 buf (p + 2 + length topic) = Some message_id" if "mm_qos mm > 0"
    using getu16_at [of buf "pre @ mqtt_string topic" message_id "data @ post" "p + 2 + length topic"] that assms l
    by (simp add: publish_body_def)
  show ?thesis
  proof (cases "mm_qos mm > 0")
    case True
    then show ?thesis using s g assms l by (simp add: parse_publish_def publish_body_def)
  next
    case False
    then show ?thesis using s assms l by (simp add: parse_publish_def publish_body_def)
  qed
qed

lemma parse_publish_frame:
  fixes flags :: byte and topic data :: bytes and message_id :: nat
  defines "q \<equiv> MG_MQTT_GET_QOS flags > 0"
  defines "w \<equiv> mqtt_frame MG_MQTT_CMD_PUBLISH flags (publish_body q topic message_id data)"
  assumes "length topic < 2 ^ 16" "message_id < 2 ^ 16" "length data < 2 ^ 30" "flags < 16"
  shows "\<exists>m. parse_mqtt (w @ rest) mm = Some (Mqtt_message (length w) m) \<and> mm_cmd m = MG_MQTT_CMD_PUBLISH \<and>
    mm_topic m = topic \<and> mm_payload m = data \<and> mm_qos m = MG_MQTT_GET_QOS flags \<and> (q \<longrightarrow> mm_message_id m = message_id)"
proof -
  let ?b = "publish_body q topic message_id data"
  let ?m = "mm\<lparr>mm_cmd := MG_MQTT_CMD_PUBLISH, mm_qos := MG_MQTT_GET_QOS flags\<rparr>"
  let ?p = "1 + length (mqtt_varint (length ?b))"
  have l: "length ?b < 2 ^ 31" using assms(3,5) by (simp add: publish_body_def mqtt_string_eq)
  have w: "length w = ?p + length ?b" by (simp add: w_def mqtt_frame_def)
  have c: "MG_MQTT_CMD_PUBLISH < 16" by (simp add: mqtt_cmds)
  have "parse_body (w @ rest) ?p (?p + length ?b) ?m = parse_publish (w @ rest) ?p (?p + length ?b) ?m"
    by (simp add: parse_body_def mqtt_cmds)
  also have "\<dots> = Some (Some (?m\<lparr>mm_topic := topic, mm_payload := data,
      mm_message_id := (if mm_qos ?m > 0 then message_id else mm_message_id ?m)\<rparr>))"
    by (rule parse_publish_body [OF assms(3,4), where post = rest and
          pre = "(push_bit 4 (of_nat MG_MQTT_CMD_PUBLISH) OR flags) # mqtt_varint (length ?b)"])
      (simp_all add: w_def q_def mqtt_frame_def)
  finally show ?thesis
    using parse_mqtt_frame [OF c assms(6) l refl refl refl refl, where rest = rest and mm = mm]
    unfolding w w_def [symmetric] by (simp add: q_def)
qed

text \<open>C12: what mg_mqtt_publish sends, parse_mqtt reads back: whatever follows it in the buffer, the message's length, topic, quality of service, payload and (when it has one) identifier are the ones sent.\<close>
theorem mqtt_publish_roundtrip:
  assumes "length topic < 2 ^ 16" "message_id < 2 ^ 16" "length data < 2 ^ 30" "flags < 16"
  shows "\<exists>wire nc' m. mg_mqtt_publish now topic message_id flags data nc = Some nc' \<and> mq_send nc' = mq_send nc @ wire \<and>
    parse_mqtt (wire @ rest) mm = Some (Mqtt_message (length wire) m) \<and> mm_cmd m = MG_MQTT_CMD_PUBLISH \<and>
    mm_topic m = topic \<and> mm_payload m = data \<and> mm_qos m = MG_MQTT_GET_QOS flags \<and>
    (MG_MQTT_GET_QOS flags > 0 \<longrightarrow> mm_message_id m = message_id)"
  using parse_publish_frame [OF assms, of rest mm] mg_mqtt_publish_frame [OF assms(1,3), of now message_id flags nc]
  by auto

definition fresh_conn :: "bytes \<Rightarrow> mqtt_conn" where
  "fresh_conn recv = \<lparr>mq_recv = recv, mq_send = [], mq_close_immediately = False, mq_recv_mbuf_limit = 0,
    mq_keep_alive = 0, mq_last_control_time = 0\<rparr>"

lemma mqtt_publish_roundtrip_witness:
  "\<exists>wire nc' m. mg_mqtt_publish 1 [97, 47, 98] 7 2 [104, 105] (fresh_conn []) = Some nc' \<and> mq_send nc' = wire \<and>
    parse_mqtt (wire @ [0, 1]) no_mqtt_message = Some (Mqtt_message (length wire) m) \<and>
    mm_topic m = [97, 47, 98] \<and> mm_message_id m = 7"
proof -
  have "MG_MQTT_GET_QOS 2 > 0" by code_simp
  then show ?thesis
    using mqtt_publish_roundtrip [of "[97, 47, 98]" 7 "[104, 105]" 2 1 "fresh_conn []" "[0, 1]" no_mqtt_message]
    by (auto simp: fresh_conn_def)
qed

subsection \<open>CONNECT\<close>

definition optstr :: "bytes option \<Rightarrow> bytes" where
  "optstr s = (case s of None \<Rightarrow> [] | Some s \<Rightarrow> mqtt_string s)"

abbreviation short :: "bytes option \<Rightarrow> bool" where
  "short s \<equiv> (\<forall>x. s = Some x \<longrightarrow> length x < 2 ^ 16)"

definition connect_head :: "byte \<Rightarrow> nat \<Rightarrow> bytes" where
  "connect_head flags keep_alive = [4, flags] @ to_be 2 keep_alive"

definition connect_body :: "byte \<Rightarrow> nat \<Rightarrow> bytes \<Rightarrow> bytes option \<Rightarrow> bytes option \<Rightarrow> bytes option \<Rightarrow> bytes option \<Rightarrow> bytes" where
  "connect_body flags keep_alive client_id wt wm user pass =
     mqtt_string (cstr ''MQTT'') @ connect_head flags keep_alive @ mqtt_string client_id @ optstr wt @ optstr wm @
     optstr user @ optstr pass"

lemma length_optstr: "short s \<Longrightarrow> length (optstr s) = (case s of None \<Rightarrow> 0 | Some s \<Rightarrow> 2 + length s)"
  by (cases s) (simp_all add: optstr_def mqtt_string_eq)

lemma opt_field_at:
  assumes "buf = pre @ optstr s @ post" "p = length pre" "p + length (optstr s) \<le> e" "short s" "present = (s \<noteq> None)"
  shows "opt_field present buf e p old = Some (Some (case s of None \<Rightarrow> old | Some x \<Rightarrow> x, p + length (optstr s)))"
proof (cases s)
  case (Some x)
  moreover have "scanto buf p = Some (x, p + 2 + length x)"
    using scanto_at [OF _ assms(2)] assms(1,4) Some by (simp add: optstr_def)
  ultimately show ?thesis using assms length_optstr [OF assms(4)] by (simp add: opt_field_def)
qed (use assms in \<open>simp_all add: opt_field_def optstr_def\<close>)

lemma parse_connect_body:
  assumes buf: "buf = pre @ connect_body flags keep client_id wt wm user pass @ post" "p = length pre"
      "e = p + length (connect_body flags keep client_id wt wm user pass)"
    and short: "length client_id < 2 ^ 16" "keep < 2 ^ 16" "short wt" "short wm" "short user" "short pass"
    and flags: "(flags AND MG_MQTT_HAS_WILL \<noteq> 0) = (wt \<noteq> None)" "(wt \<noteq> None) = (wm \<noteq> None)"
      "(flags AND MG_MQTT_HAS_USER_NAME \<noteq> 0) = (user \<noteq> None)" "(flags AND MG_MQTT_HAS_PASSWORD \<noteq> 0) = (pass \<noteq> None)"
  shows "parse_connect buf p e mm = Some (Some (mm\<lparr>mm_protocol_name := cstr ''MQTT'', mm_protocol_version := 4,
    mm_connect_flags := flags, mm_keep_alive_timer := keep, mm_client_id := client_id,
    mm_will_topic := (case wt of None \<Rightarrow> mm_will_topic mm | Some s \<Rightarrow> s),
    mm_will_message := (case wm of None \<Rightarrow> mm_will_message mm | Some s \<Rightarrow> s),
    mm_user_name := (case user of None \<Rightarrow> mm_user_name mm | Some s \<Rightarrow> s),
    mm_password := (case pass of None \<Rightarrow> mm_password mm | Some s \<Rightarrow> s)\<rparr>))"
proof -
  let ?h = "connect_head flags keep" and ?c = "mqtt_string client_id"
  let ?a = "pre @ mqtt_string (cstr ''MQTT'')"
  let ?b = "?a @ ?h" 
  have lh: "length ?h = 4" by (simp add: connect_head_def)
  have la: "length ?a = p + 6" by (simp add: buf(2) mqtt_string_eq)
  have lm: "length (mqtt_string (cstr ''MQTT'')) = 6" by (simp add: mqtt_string_eq)
  have lc: "length ?c = 2 + length client_id" using short(1) by (simp add: mqtt_string_eq)
  have e: "e = p + 6 + 4 + (2 + length client_id) + length (optstr wt) + length (optstr wm) + length (optstr user) + length (optstr pass)"
    using lh la lc by (simp add: buf(3) connect_body_def mqtt_string_eq)
  have f: "buf = ?a @ ?h @ ?c @ optstr wt @ optstr wm @ optstr user @ optstr pass @ post"
    by (simp add: buf(1) connect_body_def)
  have s1: "scanto buf p = Some (cstr ''MQTT'', p + 6)"
    using scanto_at [of buf pre "cstr ''MQTT''" _ p] by (simp add: f buf(2))
  have h: "buf ! (p + 6) = 4" "buf ! (p + 6 + 1) = flags"
    using la lm by (simp_all add: f nth_append connect_head_def buf(2) del: cstr_Cons)
  have k: "getu16 buf (p + 6 + 2) = Some keep"
    using getu16_at [of buf "?a @ [4, flags]" keep _ "p + 6 + 2"] la short(2) by (simp add: f connect_head_def)
  have s2: "scanto buf (p + 6 + 4) = Some (client_id, p + 6 + 4 + 2 + length client_id)"
    by (rule scanto_at [where pre = ?b]) (use la lh short in \<open>simp_all add: f\<close>)
  let ?p1 = "p + 6 + 4 + 2 + length client_id"
  have o1: "opt_field (flags AND MG_MQTT_HAS_WILL \<noteq> 0) buf e ?p1 old = Some (Some (case wt of None \<Rightarrow> old | Some x \<Rightarrow> x, ?p1 + length (optstr wt)))" for old
    by (rule opt_field_at [where pre = "?b @ ?c"]) (use la lh lc short flags e in \<open>simp_all add: f\<close>)
  let ?p2 = "?p1 + length (optstr wt)"
  have o2: "opt_field (flags AND MG_MQTT_HAS_WILL \<noteq> 0) buf e ?p2 old = Some (Some (case wm of None \<Rightarrow> old | Some x \<Rightarrow> x, ?p2 + length (optstr wm)))" for old
    by (rule opt_field_at [where pre = "?b @ ?c @ optstr wt"]) (use la lh lc short flags e in \<open>simp_all add: f\<close>)
  let ?p3 = "?p2 + length (optstr wm)"
  have o3: "opt_field (flags AND MG_MQTT_HAS_USER_NAME \<noteq> 0) buf e ?p3 old = Some (Some (case user of None \<Rightarrow> old | Some x \<Rightarrow> x, ?p3 + length (optstr user)))" for old
    by (rule opt_field_at [where pre = "?b @ ?c @ optstr wt @ optstr wm"]) (use la lh lc short flags e in \<open>simp_all add: f\<close>)
  let ?p4 = "?p3 + length (optstr user)"
  have o4: "opt_field (flags AND MG_MQTT_HAS_PASSWORD \<noteq> 0) buf e ?p4 old = Some (Some (case pass of None \<Rightarrow> old | Some x \<Rightarrow> x, ?p4 + length (optstr pass)))" for old
    by (rule opt_field_at [where pre = "?b @ ?c @ optstr wt @ optstr wm @ optstr user"]) (use la lh lc short flags e in \<open>simp_all add: f\<close>)
  have b: "\<not> p + 6 + 4 > e" "\<not> p + 6 + 4 \<ge> e" "\<not> ?p1 > e" "?p4 + length (optstr pass) = e" using e by linarith+
  show ?thesis
    by (simp only: parse_connect_def s1 h k s2 o1 o2 o3 o4 b Let_def bind.bind_lunit prod.case option.case if_False
        not_True_eq_False simp_thms)
qed

lemma mqtt_flag_bits:
  "flags AND MG_MQTT_HAS_WILL \<noteq> 0 \<longleftrightarrow> bit flags 2" "flags AND MG_MQTT_HAS_PASSWORD \<noteq> 0 \<longleftrightarrow> bit flags 6"
  "flags AND MG_MQTT_HAS_USER_NAME \<noteq> 0 \<longleftrightarrow> bit flags 7"
  using and_exp_eq_0_iff_not_bit [of flags 2] and_exp_eq_0_iff_not_bit [of flags 6] and_exp_eq_0_iff_not_bit [of flags 7]
  by (simp_all add: mqtt_flags)

lemma handshake_flags_bits:
  assumes "mo_flags opts AND MG_MQTT_HAS_WILL = 0" "mo_flags opts AND MG_MQTT_HAS_PASSWORD = 0"
    "mo_flags opts AND MG_MQTT_HAS_USER_NAME = 0"
  shows "handshake_flags opts AND MG_MQTT_HAS_WILL \<noteq> 0 \<longleftrightarrow> mo_will_topic opts \<noteq> None \<and> mo_will_message opts \<noteq> None"
    "handshake_flags opts AND MG_MQTT_HAS_PASSWORD \<noteq> 0 \<longleftrightarrow> mo_password opts \<noteq> None"
    "handshake_flags opts AND MG_MQTT_HAS_USER_NAME \<noteq> 0 \<longleftrightarrow> mo_user_name opts \<noteq> None"
proof -
  have "\<not> bit (mo_flags opts) 2" "\<not> bit (mo_flags opts) 6" "\<not> bit (mo_flags opts) 7"
    using assms mqtt_flag_bits [of "mo_flags opts"] by blast+
  then show "handshake_flags opts AND MG_MQTT_HAS_WILL \<noteq> 0 \<longleftrightarrow> mo_will_topic opts \<noteq> None \<and> mo_will_message opts \<noteq> None"
    "handshake_flags opts AND MG_MQTT_HAS_PASSWORD \<noteq> 0 \<longleftrightarrow> mo_password opts \<noteq> None"
    "handshake_flags opts AND MG_MQTT_HAS_USER_NAME \<noteq> 0 \<longleftrightarrow> mo_user_name opts \<noteq> None"
    unfolding mqtt_flag_bits by (simp_all add: handshake_flags_def Let_def bit_or_iff mqtt_flags bit_numeral_rec)
qed
abbreviation will_of :: "mqtt_opts \<Rightarrow> (mqtt_opts \<Rightarrow> bytes option) \<Rightarrow> bytes option" where
  "will_of opts sel \<equiv> (if mo_will_topic opts \<noteq> None \<and> mo_will_message opts \<noteq> None then sel opts else None)"

abbreviation keep_alive_of :: "mqtt_opts \<Rightarrow> nat" where
  "keep_alive_of opts \<equiv> (if mo_keep_alive opts = 0 then 60 else mo_keep_alive opts)"

abbreviation handshake_body :: "bytes \<Rightarrow> mqtt_opts \<Rightarrow> bytes" where
  "handshake_body client_id opts \<equiv> connect_body (handshake_flags opts) (keep_alive_of opts) client_id
     (will_of opts mo_will_topic) (will_of opts mo_will_message) (mo_user_name opts) (mo_password opts)"

definition opts_ok :: "mqtt_opts \<Rightarrow> bool" where
  "opts_ok opts \<longleftrightarrow> mo_flags opts AND MG_MQTT_HAS_WILL = 0 \<and> mo_flags opts AND MG_MQTT_HAS_PASSWORD = 0 \<and>
     mo_flags opts AND MG_MQTT_HAS_USER_NAME = 0 \<and> mo_keep_alive opts < 2 ^ 16 \<and>
     list_all (\<lambda>s. length (case s of None \<Rightarrow> [] | Some x \<Rightarrow> x) < 2 ^ 16)
       [mo_will_topic opts, mo_will_message opts, mo_user_name opts, mo_password opts]"

lemma opts_ok_short: "opts_ok opts \<Longrightarrow> short (mo_user_name opts) \<and> short (mo_password opts) \<and>
    short (mo_will_topic opts) \<and> short (mo_will_message opts)"
  by (auto simp: opts_ok_def)

lemma handshake_body_bound:
  assumes ok: "opts_ok opts" and id: "length client_id < 2 ^ 16"
  shows "length (handshake_body client_id opts) < 2 ^ 31"
proof -
  have s: "short (mo_user_name opts)" "short (mo_password opts)" "short (will_of opts mo_will_topic)"
    "short (will_of opts mo_will_message)" using opts_ok_short [OF ok] by auto
  have le: "length (optstr x) \<le> 2 ^ 17" if "short x" for x using that by (cases x) (auto simp: optstr_def mqtt_string_eq)
  show ?thesis
    using id le [OF s(1)] le [OF s(2)] le [OF s(3)] le [OF s(4)]
    by (simp add: connect_body_def connect_head_def mqtt_string_eq del: cstr_Cons)
qed

lemma mg_send_mqtt_handshake_frame:
  assumes ok: "opts_ok opts" and id: "length client_id < 2 ^ 16"
  shows "\<exists>nc'. mg_send_mqtt_handshake_opt now (Some client_id) opts nc = Some nc' \<and>
    mq_send nc' = mq_send nc @ mqtt_frame MG_MQTT_CMD_CONNECT 0 (handshake_body client_id opts)"
proof -
  let ?both = "mo_will_topic opts \<noteq> None \<and> mo_will_message opts \<noteq> None"
  note bits = handshake_flags_bits [of opts]
  have b: "handshake_flags opts AND MG_MQTT_HAS_WILL \<noteq> 0 \<longleftrightarrow> ?both"
    "handshake_flags opts AND MG_MQTT_HAS_PASSWORD \<noteq> 0 \<longleftrightarrow> mo_password opts \<noteq> None"
    "handshake_flags opts AND MG_MQTT_HAS_USER_NAME \<noteq> 0 \<longleftrightarrow> mo_user_name opts \<noteq> None"
    using bits ok unfolding opts_ok_def by blast+
  have s: "short (mo_user_name opts)" "short (mo_password opts)" "short (will_of opts mo_will_topic)"
    "short (will_of opts mo_will_message)" using opts_ok_short [OF ok] by auto
  note n = handshake_body_bound [OF ok id]
  have g: "flag_string (mo_user_name opts \<noteq> None) (mo_user_name opts) = Some (case mo_user_name opts of None \<Rightarrow> [] | Some x \<Rightarrow> x)"
    "flag_string (mo_password opts \<noteq> None) (mo_password opts) = Some (case mo_password opts of None \<Rightarrow> [] | Some x \<Rightarrow> x)"
    by (auto simp: flag_string_def split: option.split)
  let ?id = "case Some client_id of None \<Rightarrow> [] | Some c \<Rightarrow> c"
  let ?wt = "if ?both then the (mo_will_topic opts) else []" and ?wm = "if ?both then the (mo_will_message opts) else []"
  let ?u = "case mo_user_name opts of None \<Rightarrow> [] | Some x \<Rightarrow> x" and ?p = "case mo_password opts of None \<Rightarrow> [] | Some x \<Rightarrow> x"
  have fl: "field_len (y \<noteq> None) (case y of None \<Rightarrow> [] | Some x \<Rightarrow> x) = length (optstr y)" if "short y" for y
    using that by (cases y) (simp_all add: field_len_def optstr_def mqtt_string_eq)
  have fw: "field_len ?both ?wt + (if ?both then 2 + length ?wm mod 2 ^ 16 else 0) =
      length (optstr (will_of opts mo_will_topic)) + length (optstr (will_of opts mo_will_message))"
    using s(3,4) by (auto simp: field_len_def optstr_def mqtt_string_eq)
  have tl: "7 + 1 + 2 + 2 + length ?id mod 2 ^ 16 + field_len ?both ?wt + (if ?both then 2 + length ?wm mod 2 ^ 16 else 0)
      + field_len (mo_user_name opts \<noteq> None) ?u + field_len (mo_password opts \<noteq> None) ?p = length (handshake_body client_id opts)"
    using fw id unfolding fl [OF s(1)] fl [OF s(2)] by (simp add: connect_body_def connect_head_def mqtt_string_eq del: cstr_Cons)
  have e: "(if y \<noteq> None then mq_emit (mqtt_string (case y of None \<Rightarrow> [] | Some x \<Rightarrow> x)) c else c) = mq_emit (optstr y) c" for y c
    by (cases y) (simp_all add: optstr_def mq_emit_def)
  have ew: "(if ?both then mq_emit (mqtt_string ?wm) (mq_emit (mqtt_string ?wt) c) else c) =
      mq_emit (optstr (will_of opts mo_will_message)) (mq_emit (optstr (will_of opts mo_will_topic)) c)" for c
    by (auto simp: optstr_def mq_emit_def)
  show ?thesis
    unfolding mg_send_mqtt_handshake_opt_def Let_def b g bind.bind_lunit tl mg_send_mqtt_header_Some [OF n] e ew
    by (simp add: connect_body_def connect_head_def mqtt_frame_def mqtt_string_eq del: cstr_Cons)
      (simp add: mqtt_cmds numeral_2_eq_2)
qed

text \<open>C29: the CONNECT message that mg_send_mqtt_handshake_opt sends is read back by parse_mqtt with the client's identifier, keep-alive time, will, user name and password; a field that was not given keeps its old value.\<close>
theorem mqtt_handshake_roundtrip:
  assumes "opts_ok opts" "length client_id < 2 ^ 16"
  shows "\<exists>wire nc' m. mg_send_mqtt_handshake_opt now (Some client_id) opts nc = Some nc' \<and> mq_send nc' = mq_send nc @ wire \<and>
    parse_mqtt (wire @ rest) mm = Some (Mqtt_message (length wire) m) \<and> mm_cmd m = MG_MQTT_CMD_CONNECT \<and>
    mm_protocol_name m = cstr ''MQTT'' \<and> mm_protocol_version m = 4 \<and> mm_client_id m = client_id \<and>
    mm_keep_alive_timer m = (if mo_keep_alive opts = 0 then 60 else mo_keep_alive opts) \<and>
    (mo_will_topic opts \<noteq> None \<and> mo_will_message opts \<noteq> None \<longrightarrow>
       Some (mm_will_topic m) = mo_will_topic opts \<and> Some (mm_will_message m) = mo_will_message opts) \<and>
    mm_user_name m = (case mo_user_name opts of None \<Rightarrow> mm_user_name mm | Some u \<Rightarrow> u) \<and>
    mm_password m = (case mo_password opts of None \<Rightarrow> mm_password mm | Some u \<Rightarrow> u)"
proof -
  let ?b = "handshake_body client_id opts"
  let ?w = "mqtt_frame MG_MQTT_CMD_CONNECT 0 ?b"
  let ?m = "mm\<lparr>mm_cmd := MG_MQTT_CMD_CONNECT, mm_qos := MG_MQTT_GET_QOS 0\<rparr>"
  let ?p = "1 + length (mqtt_varint (length ?b))"
  obtain nc' where nc': "mg_send_mqtt_handshake_opt now (Some client_id) opts nc = Some nc'" "mq_send nc' = mq_send nc @ ?w"
    using mg_send_mqtt_handshake_frame [OF assms] by blast
  have s: "short (mo_user_name opts)" "short (mo_password opts)" "short (will_of opts mo_will_topic)"
    "short (will_of opts mo_will_message)" "keep_alive_of opts < 2 ^ 16"
    using opts_ok_short [OF assms(1)] assms(1) by (auto simp: opts_ok_def)
  have b: "handshake_flags opts AND MG_MQTT_HAS_WILL \<noteq> 0 \<longleftrightarrow> mo_will_topic opts \<noteq> None \<and> mo_will_message opts \<noteq> None"
    "handshake_flags opts AND MG_MQTT_HAS_PASSWORD \<noteq> 0 \<longleftrightarrow> mo_password opts \<noteq> None"
    "handshake_flags opts AND MG_MQTT_HAS_USER_NAME \<noteq> 0 \<longleftrightarrow> mo_user_name opts \<noteq> None"
    using handshake_flags_bits [of opts] assms(1) unfolding opts_ok_def by blast+
  define m where "m = ?m\<lparr>mm_protocol_name := cstr ''MQTT'', mm_protocol_version := 4,
    mm_connect_flags := handshake_flags opts, mm_keep_alive_timer := keep_alive_of opts, mm_client_id := client_id,
    mm_will_topic := (case will_of opts mo_will_topic of None \<Rightarrow> mm_will_topic ?m | Some s \<Rightarrow> s),
    mm_will_message := (case will_of opts mo_will_message of None \<Rightarrow> mm_will_message ?m | Some s \<Rightarrow> s),
    mm_user_name := (case mo_user_name opts of None \<Rightarrow> mm_user_name ?m | Some s \<Rightarrow> s),
    mm_password := (case mo_password opts of None \<Rightarrow> mm_password ?m | Some s \<Rightarrow> s)\<rparr>"
  have "parse_connect (?w @ rest) ?p (?p + length ?b) ?m = Some (Some m)" unfolding m_def
    by (rule parse_connect_body [where pre = "(push_bit 4 (of_nat MG_MQTT_CMD_CONNECT) OR 0) # mqtt_varint (length ?b)" and post = rest])
      (use s b assms(2) in \<open>simp_all add: mqtt_frame_def\<close>)
  then have pb: "parse_body (?w @ rest) ?p (?p + length ?b) ?m = Some (Some m)"
    by (simp add: parse_body_def)
  have c: "MG_MQTT_CMD_CONNECT < 16" "(0 :: byte) < 16" by (simp_all add: mqtt_cmds)
  have "parse_mqtt (?w @ rest) mm = Some (Mqtt_message (?p + length ?b) (m\<lparr>mm_len := ?p + length ?b\<rparr>))"
    unfolding parse_mqtt_frame [OF c handshake_body_bound [OF assms] refl refl refl refl] pb by simp
  moreover have "length ?w = ?p + length ?b" by (simp add: mqtt_frame_def)
  ultimately have pm: "parse_mqtt (?w @ rest) mm = Some (Mqtt_message (length ?w) (m\<lparr>mm_len := length ?w\<rparr>))" by simp
  show ?thesis
    by (intro exI conjI, rule nc'(1), rule nc'(2), rule pm) (auto simp: m_def split: option.split)
qed

lemma mqtt_handshake_roundtrip_witness:
  "opts_ok (no_mqtt_opts\<lparr>mo_user_name := Some [117]\<rparr>) \<and> (\<exists>wire nc' m.
    mg_send_mqtt_handshake_opt 1 (Some [99]) (no_mqtt_opts\<lparr>mo_user_name := Some [117]\<rparr>) (fresh_conn []) = Some nc' \<and>
    mq_send nc' = wire \<and> parse_mqtt wire no_mqtt_message = Some (Mqtt_message (length wire) m) \<and>
    mm_client_id m = [99] \<and> mm_user_name m = [117] \<and> mm_keep_alive_timer m = 60)"
proof -
  have ok: "opts_ok (no_mqtt_opts\<lparr>mo_user_name := Some [117]\<rparr>)" by (simp add: opts_ok_def no_mqtt_opts_def)
  show ?thesis
    using ok mqtt_handshake_roundtrip [OF ok, of "[99]" 1 "fresh_conn []" "[]" no_mqtt_message]
    by (auto simp: fresh_conn_def no_mqtt_opts_def)
qed


subsection \<open>Partial messages\<close>



subsection \<open>The receive loop\<close>




















subsection \<open>The broker\<close>

definition broker_wf :: "mqtt_broker \<Rightarrow> bool" where
  "broker_wf b \<longleftrightarrow> distinct (map ms_nc (bk_sessions b))"

lemma session_of_Some: "session_of nc b = Some ss \<Longrightarrow> ss \<in> set (bk_sessions b) \<and> ms_nc ss = nc"
  by (auto simp: session_of_def find_Some_iff)

lemma session_of_None: "session_of nc b = None \<longleftrightarrow> nc \<notin> ms_nc ` set (bk_sessions b)"
  by (auto simp: session_of_def find_None_iff)

lemma bk_close_sessions [simp]: "bk_sessions (bk_close nc b) = bk_sessions b"
  by (simp add: bk_close_def)

lemma bk_send_sessions: "bk_send nc f b = Some b' \<Longrightarrow> bk_sessions b' = bk_sessions b"
  by (auto simp: bk_send_def)

lemma publish_sessions_sessions: "publish_sessions now msg ss b = Some b' \<Longrightarrow> bk_sessions b' = bk_sessions b"
  by (induction ss arbitrary: b) (auto split: if_splits dest!: bk_send_sessions)

lemma map_session_nc: "map ms_nc (map (\<lambda>s. if s = ss then ss\<lparr>ms_subscriptions := x\<rparr> else s) l) = map ms_nc l"
  by auto

lemma subscribe_ncs:
  assumes "mg_mqtt_broker_handle_subscribe now nc ss msg b = Some b'"
  shows "map ms_nc (bk_sessions b') = map ms_nc (bk_sessions b)"
proof -
  obtain r where r: "sub_scan (mm_payload msg) 0 (length (ms_subscriptions ss)) [] = Some r"
    using assms by (auto simp: mg_mqtt_broker_handle_subscribe_def)
  show ?thesis
  proof (cases r)
    case (Inl u)
    then show ?thesis using assms r by (auto simp: mg_mqtt_broker_handle_subscribe_def)
  next
    case (Inr qoss)
    obtain pos subs where ps: "(if length qoss > 0 then sub_fill (mm_payload msg) 0 (ms_subscriptions ss)
        else Some (None, ms_subscriptions ss)) = Some (pos, subs)"
      using assms r Inr by (auto simp: mg_mqtt_broker_handle_subscribe_def)
    then show ?thesis using assms r Inr
      by (auto simp: mg_mqtt_broker_handle_subscribe_def Let_def split: if_splits dest!: bk_send_sessions)
  qed
qed

definition session_matches :: "mqtt_message \<Rightarrow> mqtt_session \<Rightarrow> bool" where
  "session_matches msg s \<longleftrightarrow> (\<exists>(t, _) \<in> set (ms_subscriptions s). mg_mqtt_vmatch_topic_expression t (mm_topic msg))"

definition forwarded :: "mqtt_message \<Rightarrow> bytes" where
  "forwarded msg = mqtt_frame MG_MQTT_CMD_PUBLISH 0 (publish_body False (takeWhile (\<lambda>c. c \<noteq> 0) (mm_topic msg)) 0 (mm_payload msg))"

lemma publish_sessions_spec:
  assumes "distinct (map ms_nc ss)" "length (mm_topic msg) < 2 ^ 16" "length (mm_payload msg) < 2 ^ 30"
  shows "\<exists>b'. publish_sessions now msg ss b = Some b' \<and>
    (\<forall>c. mq_send (bk_conns b' c) = mq_send (bk_conns b c) @
      (if \<exists>s \<in> set ss. ms_nc s = c \<and> session_matches msg s then forwarded msg else []))"
  using assms(1)
proof (induction ss arbitrary: b)
  case (Cons s ss)
  let ?t = "takeWhile (\<lambda>c. c \<noteq> 0) (mm_topic msg)"
  have t: "length ?t < 2 ^ 16" using assms(2) length_takeWhile_le [of _ "mm_topic msg"] by (rule le_less_trans [rotated])
  have q: "\<not> MG_MQTT_GET_QOS 0 > 0" by (simp add: MG_MQTT_GET_QOS_def)
  show ?case
  proof (cases "session_matches msg s")
    case False
    then show ?thesis using Cons by (auto simp: session_matches_def)
  next
    case True
    obtain b1 where b1: "bk_send (ms_nc s) (mg_mqtt_publish now ?t 0 0 (mm_payload msg)) b = Some b1"
      "\<And>c. mq_send (bk_conns b1 c) = mq_send (bk_conns b c) @ (if c = ms_nc s then forwarded msg else [])"
      using mg_mqtt_publish_frame [OF t assms(3)] q by (auto simp: bk_send_def forwarded_def)
    obtain b' where "publish_sessions now msg ss b1 = Some b'" "\<And>c. mq_send (bk_conns b' c) = mq_send (bk_conns b1 c) @
      (if \<exists>s \<in> set ss. ms_nc s = c \<and> session_matches msg s then forwarded msg else [])"
      using Cons.IH [of b1] Cons.prems by auto
    moreover have "ms_nc s' \<noteq> ms_nc s" if "s' \<in> set ss" for s' using that Cons.prems by (auto simp: image_iff)
    ultimately show ?thesis using b1 True by (auto simp: session_matches_def)
  qed
qed simp

text \<open>C16: a publication from a client that has a session is forwarded exactly once, at quality of service 0 and with the same payload, to every session one of whose subscriptions matches its topic, and nothing is sent to any other connection.\<close>
theorem broker_publish_delivery:
  assumes "broker_wf b" "session_of nc b \<noteq> None" "length (mm_topic msg) < 2 ^ 16" "length (mm_payload msg) < 2 ^ 30"
  shows "\<exists>b'. mg_mqtt_broker now nc (Ev_publish msg) b = Some b' \<and> bk_sessions b' = bk_sessions b \<and>
    (\<forall>c. mq_send (bk_conns b' c) = mq_send (bk_conns b c) @
      (if \<exists>s \<in> set (bk_sessions b). ms_nc s = c \<and> session_matches msg s then forwarded msg else []))"
  using publish_sessions_spec [OF assms(1) [unfolded broker_wf_def] assms(3,4), of now b] assms(2)
  by (auto simp: mg_mqtt_broker_def mg_mqtt_broker_handle_publish_def publish_sessions_sessions)

lemma broker_publish_delivery_witness:
  "\<exists>b'. mg_mqtt_broker 1 1 (Ev_publish (no_mqtt_message\<lparr>mm_topic := [97], mm_payload := [5]\<rparr>))
    \<lparr>bk_sessions = [\<lparr>ms_nc = 1, ms_subscriptions = []\<rparr>, \<lparr>ms_nc = 2, ms_subscriptions = [([97], 0)]\<rparr>], bk_conns = \<lambda>_. fresh_conn []\<rparr>
    = Some b' \<and> mq_send (bk_conns b' 1) = [] \<and> mq_send (bk_conns b' 2) = [48, 4, 0, 1, 97, 5]"
proof -
  let ?m = "no_mqtt_message\<lparr>mm_topic := [97], mm_payload := [5]\<rparr>"
  let ?b = "\<lparr>bk_sessions = [\<lparr>ms_nc = 1, ms_subscriptions = []\<rparr>, \<lparr>ms_nc = 2, ms_subscriptions = [([97], 0)]\<rparr>], bk_conns = \<lambda>_. fresh_conn []\<rparr>"
  have w: "broker_wf ?b" "session_of 1 ?b \<noteq> None" by (simp_all add: broker_wf_def session_of_def)
  have m: "session_matches ?m \<lparr>ms_nc = 2, ms_subscriptions = [([97], 0)]\<rparr>" "\<not> session_matches ?m \<lparr>ms_nc = 1, ms_subscriptions = []\<rparr>"
    by (simp_all add: session_matches_def mg_mqtt_vmatch_topic_expression_def mg_mqtt_match_topic_expression_def)
  have v: "mqtt_varint (Suc (Suc (Suc (Suc 0)))) = [4]" by (subst mqtt_varint.simps) simp
  have "to_be 2 1 = [0, 1]" by (simp add: numeral_2_eq_2)
  then have s: "mqtt_string [97] = [0, 1, 97]" by (simp add: mqtt_string_def)
  have f: "forwarded ?m = [48, 4, 0, 1, 97, 5]"
    by (simp add: forwarded_def mqtt_frame_def publish_body_def s v mqtt_cmds)
  show ?thesis
    using broker_publish_delivery [OF w, of ?m 1] m f by (auto simp: fresh_conn_def no_mqtt_message_def)
qed

subsection \<open>Subscriptions\<close>

definition sub_payload :: "(bytes \<times> byte) list \<Rightarrow> bytes" where
  "sub_payload ts = concat (map (\<lambda>(t, q). mqtt_string t @ [q]) ts)"

abbreviation topics_ok :: "(bytes \<times> byte) list \<Rightarrow> bool" where
  "topics_ok ts \<equiv> \<forall>(t, _) \<in> set ts. length t < 2 ^ 16"

lemma sub_payload_simps [simp]: "sub_payload [] = []" "sub_payload ((t, q) # ts) = mqtt_string t @ q # sub_payload ts"
  by (simp_all add: sub_payload_def)

lemma next_subscribe_topic_at:
  assumes "payload = pre @ mqtt_string t @ q # post" "pos = length pre" "length t < 2 ^ 16"
  shows "mg_mqtt_next_subscribe_topic payload pos = Some (Some (t, q, length (pre @ mqtt_string t @ [q])))"
proof -
  have "getu16 payload pos = Some (length t)"
    using getu16_at [of payload pre "length t" "t @ q # post" pos] assms by (simp add: mqtt_string_eq)
  then show ?thesis using assms by (simp add: mg_mqtt_next_subscribe_topic_def mqtt_string_eq nth_append)
qed

lemma next_subscribe_topic_end: "mg_mqtt_next_subscribe_topic payload (length payload) = Some None"
  by (simp add: mg_mqtt_next_subscribe_topic_def)

lemma sub_scan_payload:
  assumes "topics_ok ts" "payload = pre @ sub_payload ts" "pos = length pre"
    "length qoss \<le> sizeof_max_subscriptions" "n + length qoss \<le> MG_MQTT_MAX_SESSION_SUBSCRIPTIONS"
  shows "sub_scan payload pos n qoss =
    Some (if length qoss + length ts \<le> sizeof_max_subscriptions \<and> n + length qoss + length ts \<le> MG_MQTT_MAX_SESSION_SUBSCRIPTIONS
      then Inr (qoss @ map snd ts) else Inl ())"
  using assms
proof (induction ts arbitrary: pre pos qoss)
  case Nil
  then show ?case by (subst sub_scan.simps) (simp add: next_subscribe_topic_end)
next
  case (Cons x ts)
  obtain t q where x: "x = (t, q)" by (cases x)
  have nx: "mg_mqtt_next_subscribe_topic payload pos = Some (Some (t, q, length (pre @ mqtt_string t @ [q])))"
    by (rule next_subscribe_topic_at) (use Cons.prems x in auto)
  show ?case
  proof (cases "length qoss < sizeof_max_subscriptions \<and> n + length qoss < MG_MQTT_MAX_SESSION_SUBSCRIPTIONS")
    case True
    have "sub_scan payload (length (pre @ mqtt_string t @ [q])) n (qoss @ [q]) =
      Some (if length (qoss @ [q]) + length ts \<le> sizeof_max_subscriptions \<and>
          n + length (qoss @ [q]) + length ts \<le> MG_MQTT_MAX_SESSION_SUBSCRIPTIONS
        then Inr ((qoss @ [q]) @ map snd ts) else Inl ())"
      by (rule Cons.IH) (use Cons.prems x True in auto)
    then show ?thesis using True nx x by (subst sub_scan.simps) simp
  next
    case False
    then show ?thesis using nx by (subst sub_scan.simps) auto
  qed
qed

lemma sub_fill_payload:
  assumes "topics_ok ts" "payload = pre @ sub_payload ts" "pos = length pre"
  shows "sub_fill payload pos subs = Some (Some (length payload), subs @ ts)"
  using assms
proof (induction ts arbitrary: pre pos subs)
  case Nil
  then show ?case by (subst sub_fill.simps) simp
next
  case (Cons x ts)
  obtain t q where x: "x = (t, q)" by (cases x)
  have nx: "mg_mqtt_next_subscribe_topic payload pos = Some (Some (t, q, length (pre @ mqtt_string t @ [q])))"
    by (rule next_subscribe_topic_at) (use Cons.prems x in auto)
  have "sub_fill payload (length (pre @ mqtt_string t @ [q])) (subs @ [(t, q)]) = Some (Some (length payload), (subs @ [(t, q)]) @ ts)"
    by (rule Cons.IH) (use Cons.prems x in auto)
  moreover have "pos < length payload" using Cons.prems x by simp
  ultimately show ?case using nx x by (subst sub_fill.simps) simp
qed

lemma fold_emit: "fold (\<lambda>q. mq_emit [q]) qs nc = mq_emit qs nc"
  by (induction qs arbitrary: nc) (simp_all add: mq_emit_def)

lemma mg_mqtt_suback_frame:
  assumes "length qoss < 2 ^ 30"
  shows "mg_mqtt_suback now qoss message_id nc =
    Some ((mq_emit (mqtt_frame MG_MQTT_CMD_SUBACK (MG_MQTT_QOS 1) (to_be 2 message_id @ qoss)) nc)\<lparr>mq_last_control_time := now\<rparr>)"
  using assms by (simp add: mg_mqtt_suback_def mg_send_mqtt_header_Some fold_emit mqtt_frame_def Let_def)

text \<open>C17: a SUBSCRIBE for at least one topic, from a client with a session: up to four topics (the size of an int, not the 512 of the session's limit) are appended in order to the session's subscriptions and acknowledged with their qualities of service; with more, or when the session would exceed 512, nothing is stored and the connection is closed.\<close>
theorem broker_subscribe_spec:
  assumes "session_of nc b = Some ss" "topics_ok ts" "ts \<noteq> []" "mm_payload msg = sub_payload ts"
    "length (ms_subscriptions ss) \<le> 512"
  shows "mg_mqtt_broker now nc (Ev_subscribe msg) b = Some
    (if length ts \<le> 4 \<and> length (ms_subscriptions ss) + length ts \<le> 512
     then b\<lparr>bk_sessions := map (\<lambda>s. if s = ss then ss\<lparr>ms_subscriptions := ms_subscriptions ss @ ts\<rparr> else s) (bk_sessions b),
            bk_conns := (bk_conns b)(nc := (mq_emit (mqtt_frame MG_MQTT_CMD_SUBACK (MG_MQTT_QOS 1)
              (to_be 2 (mm_message_id msg) @ map snd ts)) (bk_conns b nc))\<lparr>mq_last_control_time := now\<rparr>)\<rparr>
     else bk_close nc b)"
proof -
  have s: "sub_scan (mm_payload msg) 0 (length (ms_subscriptions ss)) [] =
      Some (if length ts \<le> 4 \<and> length (ms_subscriptions ss) + length ts \<le> 512 then Inr (map snd ts) else Inl ())"
    using sub_scan_payload [of ts "mm_payload msg" "[]" 0 "[]" "length (ms_subscriptions ss)"] assms
    by (simp add: sizeof_max_subscriptions_def MG_MQTT_MAX_SESSION_SUBSCRIPTIONS_def)
  have f: "sub_fill (mm_payload msg) 0 (ms_subscriptions ss) = Some (Some (length (mm_payload msg)), ms_subscriptions ss @ ts)"
    using sub_fill_payload [of ts "mm_payload msg" "[]"] assms by simp
  show ?thesis
    using assms(1,3) s f
    by (simp add: mg_mqtt_broker_def mg_mqtt_broker_handle_subscribe_def mg_mqtt_suback_frame bk_send_def)
qed

lemma broker_subscribe_spec_witness:
  "mg_mqtt_broker 1 1 (Ev_subscribe (no_mqtt_message\<lparr>mm_payload := sub_payload (replicate 5 ([97], 1))\<rparr>))
    \<lparr>bk_sessions = [\<lparr>ms_nc = 1, ms_subscriptions = []\<rparr>], bk_conns = \<lambda>_. fresh_conn []\<rparr> =
    Some (bk_close 1 \<lparr>bk_sessions = [\<lparr>ms_nc = 1, ms_subscriptions = []\<rparr>], bk_conns = \<lambda>_. fresh_conn []\<rparr>)"
  using broker_subscribe_spec [of 1 "\<lparr>bk_sessions = [\<lparr>ms_nc = 1, ms_subscriptions = []\<rparr>], bk_conns = \<lambda>_. fresh_conn []\<rparr>"
      "\<lparr>ms_nc = 1, ms_subscriptions = []\<rparr>" "replicate 5 ([97], 1)"
      "no_mqtt_message\<lparr>mm_payload := sub_payload (replicate 5 ([97], 1))\<rparr>" 1]
  by (simp add: session_of_def no_mqtt_message_def)


subsection \<open>Reachable brokers\<close>

text \<open>What a broker can become: any event of any client, and changes of connections that are not the broker's doing.\<close>

inductive broker_reachable :: "mqtt_broker \<Rightarrow> bool" where
  start: "bk_sessions b = [] \<Longrightarrow> broker_reachable b"
| event: "broker_reachable b \<Longrightarrow> mg_mqtt_broker now nc ev b = Some b' \<Longrightarrow> broker_reachable b'"
| other: "broker_reachable b \<Longrightarrow> broker_reachable (b\<lparr>bk_conns := conns\<rparr>)"

lemma sub_scan_bounds:
  assumes "sub_scan payload pos n qoss = Some (Inr qs)" "n + length qoss \<le> MG_MQTT_MAX_SESSION_SUBSCRIPTIONS"
  shows "n + length qs \<le> MG_MQTT_MAX_SESSION_SUBSCRIPTIONS \<and>
    (\<forall>p subs subs'. sub_fill payload pos subs = Some (p, subs') \<longrightarrow> length subs' + length qoss = length subs + length qs)"
  using assms
proof (induction payload pos n qoss rule: sub_scan.induct)
  case (1 payload pos n qoss)
  show ?case
  proof (cases "mg_mqtt_next_subscribe_topic payload pos")
    case None
    then show ?thesis using "1.prems" by (subst (asm) sub_scan.simps) simp
  next
    case (Some r)
    show ?thesis
    proof (cases r)
      case None
      then have "qs = qoss" using "1.prems" Some by (subst (asm) sub_scan.simps) simp
      moreover have "subs' = subs" if "sub_fill payload pos subs = Some (p, subs')" for p subs subs'
        using that Some None by (subst (asm) sub_fill.simps) (simp split: if_splits)
      ultimately show ?thesis using "1.prems"(2) by auto
    next
      case (Some x)
      obtain t q p where x: "x = (t, q, p)" by (cases x)
      note nx = \<open>mg_mqtt_next_subscribe_topic payload pos = Some r\<close> [unfolded Some x]
      have b: "\<not> (length qoss \<ge> sizeof_max_subscriptions \<or> n + length qoss \<ge> MG_MQTT_MAX_SESSION_SUBSCRIPTIONS)"
        using "1.prems"(1) nx by (subst (asm) sub_scan.simps) (auto split: if_splits)
      have s: "sub_scan payload p n (qoss @ [q]) = Some (Inr qs)"
        using "1.prems"(1) nx b by (subst (asm) sub_scan.simps) simp
      have IH: "n + length qs \<le> MG_MQTT_MAX_SESSION_SUBSCRIPTIONS \<and> (\<forall>p' subs subs'. sub_fill payload p subs = Some (p', subs') \<longrightarrow>
          length subs' + length (qoss @ [q]) = length subs + length qs)"
        by (rule "1.IH" [OF nx refl refl refl b s]) (use b in simp)
      have "pos < length payload" using next_subscribe_pos [OF nx] by simp
      then have fill: "sub_fill payload pos subs = sub_fill payload p (subs @ [(t, q)])" for subs
        using nx by (subst sub_fill.simps) simp
      show ?thesis
      proof (intro conjI allI impI)
        show "n + length qs \<le> MG_MQTT_MAX_SESSION_SUBSCRIPTIONS" using IH by blast
        fix p' subs subs' assume "sub_fill payload pos subs = Some (p', subs')"
        then have "length subs' + length (qoss @ [q]) = length (subs @ [(t, q)]) + length qs" using IH unfolding fill by blast
        then show "length subs' + length qoss = length subs + length qs" by simp
      qed
    qed
  qed
qed

definition broker_inv :: "mqtt_broker \<Rightarrow> bool" where
  "broker_inv b \<longleftrightarrow> broker_wf b \<and> (\<forall>s \<in> set (bk_sessions b). length (ms_subscriptions s) \<le> MG_MQTT_MAX_SESSION_SUBSCRIPTIONS)"

lemma broker_inv_session: "broker_inv b \<Longrightarrow> session_of nc b = Some ss \<Longrightarrow> length (ms_subscriptions ss) \<le> MG_MQTT_MAX_SESSION_SUBSCRIPTIONS"
  using session_of_Some by (auto simp: broker_inv_def)

lemma subscribe_inv:
  assumes inv: "broker_inv b" and ss: "length (ms_subscriptions ss) \<le> MG_MQTT_MAX_SESSION_SUBSCRIPTIONS"
    and sub: "mg_mqtt_broker_handle_subscribe now nc ss msg b = Some b'"
  shows "broker_inv b'"
proof -
  have wf: "broker_wf b'" using inv subscribe_ncs [OF sub] by (simp add: broker_inv_def broker_wf_def)
  obtain r where r: "sub_scan (mm_payload msg) 0 (length (ms_subscriptions ss)) [] = Some r"
    using sub by (auto simp: mg_mqtt_broker_handle_subscribe_def)
  show ?thesis
  proof (cases r)
    case (Inl u)
    then show ?thesis using sub r inv by (auto simp: mg_mqtt_broker_handle_subscribe_def broker_inv_def broker_wf_def)
  next
    case (Inr qoss)
    obtain pos subs where ps: "(if length qoss > 0 then sub_fill (mm_payload msg) 0 (ms_subscriptions ss)
        else Some (None, ms_subscriptions ss)) = Some (pos, subs)"
      using sub r Inr by (auto simp: mg_mqtt_broker_handle_subscribe_def)
    have "length subs \<le> MG_MQTT_MAX_SESSION_SUBSCRIPTIONS"
      using ps sub_scan_bounds [OF r [unfolded Inr]] ss by (auto split: if_splits)
    moreover have "bk_sessions b' = map (\<lambda>s. if s = ss then ss\<lparr>ms_subscriptions := subs\<rparr> else s) (bk_sessions b)"
      using sub r Inr ps by (auto simp: mg_mqtt_broker_handle_subscribe_def Let_def split: if_splits dest!: bk_send_sessions)
    ultimately show ?thesis using wf inv by (auto simp: broker_inv_def)
  qed
qed

lemma broker_event_inv:
  assumes inv: "broker_inv b" and ev: "mg_mqtt_broker now nc ev b = Some b'"
  shows "broker_inv b'"
proof (cases ev)
  case Ev_connect
  then show ?thesis using assms
    by (auto simp: mg_mqtt_broker_def broker_inv_def broker_wf_def mg_mqtt_broker_handle_connect_def mg_mqtt_add_session_def
        session_of_None split: if_splits dest!: bk_send_sessions)
next
  case (Ev_subscribe msg)
  show ?thesis
  proof (cases "session_of nc b")
    case None
    then show ?thesis using Ev_subscribe assms by (auto simp: mg_mqtt_broker_def broker_inv_def broker_wf_def)
  next
    case (Some ss)
    then show ?thesis using Ev_subscribe ev subscribe_inv [OF inv broker_inv_session [OF inv Some]] by (simp add: mg_mqtt_broker_def)
  qed
next
  case (Ev_publish msg)
  then have "bk_sessions b' = bk_sessions b" using ev
    by (auto simp: mg_mqtt_broker_def mg_mqtt_broker_handle_publish_def dest!: publish_sessions_sessions split: if_splits)
  then show ?thesis using inv by (simp add: broker_inv_def broker_wf_def)
next
  case Ev_close
  have "distinct (map ms_nc (remove1 s l))" if "distinct (map ms_nc l)" for s and l :: "mqtt_session list"
    using that by (induction l) (auto dest: set_remove1_subset [THEN subsetD])
  then show ?thesis using Ev_close assms
    by (auto simp: mg_mqtt_broker_def broker_inv_def broker_wf_def mg_mqtt_close_session_def split: option.splits
        dest: set_remove1_subset [THEN subsetD])
qed (use assms in \<open>simp add: mg_mqtt_broker_def\<close>)

text \<open>C40: in every broker that can be reached from an empty one, whatever its clients send and in whatever order, no connection has two sessions and no session more than 512 subscriptions.\<close>
theorem broker_reachable_inv:
  assumes "broker_reachable b"
  shows "distinct (map ms_nc (bk_sessions b)) \<and>
    (\<forall>s \<in> set (bk_sessions b). length (ms_subscriptions s) \<le> MG_MQTT_MAX_SESSION_SUBSCRIPTIONS)"
proof -
  from assms have "broker_inv b"
  proof (induction rule: broker_reachable.induct)
    case (event b now nc ev b')
    then show ?case using broker_event_inv by blast
  qed (auto simp: broker_inv_def broker_wf_def)
  then show ?thesis by (simp add: broker_inv_def broker_wf_def)
qed

lemma broker_reachable_inv_witness:
  "\<exists>b. broker_reachable b \<and> map ms_nc (bk_sessions b) = [1] \<and> distinct (map ms_nc (bk_sessions b))"
proof -
  let ?b = "\<lparr>bk_sessions = [], bk_conns = \<lambda>_. fresh_conn []\<rparr>"
  obtain b where b: "mg_mqtt_broker 1 1 Ev_connect ?b = Some b" "map ms_nc (bk_sessions b) = [1]"
    by (auto simp: mg_mqtt_broker_def session_of_def mg_mqtt_broker_handle_connect_def mg_mqtt_add_session_def bk_send_def
        mg_mqtt_connack_def mg_send_mqtt_header_Some)
  have r: "broker_reachable b" by (rule broker_reachable.event [OF broker_reachable.start b(1)]) simp
  show ?thesis using r b(2) broker_reachable_inv [OF r] by (intro exI [of _ b]) simp
qed

end
