(* ===== verification/MgDns.thy ===== *)
theory MgDns
  imports MgStr
begin

text \<open>
  DNS (mongoose/src/mg_dns.c, mg_dns_server.c and mg_resolv.c of 3rdLib/mongoose/mongoose.c): the parser, the name
  compression, the encoders, the server's replies and the resolver's event handler. A pointer into a packet is its
  position in it, an mbuf the list of its bytes. An outer \<open>None\<close> is undefined behaviour: a read outside the
  packet or of bytes that were never written, or a loop that does not return. A message's identifier is never byte
  swapped and is kept as its two bytes, of which the low one comes first. Allocation succeeds.
\<close>

subsection \<open>Messages\<close>

definition MG_DNS_A_RECORD :: nat where "MG_DNS_A_RECORD = 0x01"
definition MG_DNS_CNAME_RECORD :: nat where "MG_DNS_CNAME_RECORD = 0x05"
definition MG_MAX_DNS_QUESTIONS :: nat where "MG_MAX_DNS_QUESTIONS = 32"
definition MG_MAX_DNS_ANSWERS :: nat where "MG_MAX_DNS_ANSWERS = 32"

datatype dns_kind = MG_DNS_INVALID_RECORD | MG_DNS_QUESTION | MG_DNS_ANSWER

record dns_rr =
  rr_name :: "nat \<times> nat"
  rr_rtype :: nat
  rr_rclass :: nat
  rr_ttl :: nat
  rr_kind :: dns_kind
  rr_rdata :: "nat \<times> nat"

record dns_message =
  dm_pkt :: bytes
  dm_flags :: nat
  dm_transaction_id :: bytes
  dm_questions :: "dns_rr list"
  dm_answers :: "dns_rr list"

definition no_rr :: dns_rr where
  "no_rr = \<lparr>rr_name = (0, 0), rr_rtype = 0, rr_rclass = 0, rr_ttl = 0, rr_kind = MG_DNS_INVALID_RECORD, rr_rdata = (0, 0)\<rparr>"

definition no_dns_message :: dns_message where
  "no_dns_message = \<lparr>dm_pkt = [], dm_flags = 0, dm_transaction_id = [0, 0], dm_questions = [], dm_answers = []\<rparr>"

text \<open>The bytes from \<open>p\<close> to \<open>p + n\<close>, all of which must be in the buffer.\<close>

definition rd :: "bytes \<Rightarrow> nat \<Rightarrow> nat \<Rightarrow> bytes option" where
  "rd buf p n = (if p + n \<le> length buf then Some (take n (drop p buf)) else None)"

definition rd1 :: "bytes \<Rightarrow> nat \<Rightarrow> byte option" where
  "rd1 buf p = (if p < length buf then Some (buf ! p) else None)"

lemma rd1_Some [simp]: "rd1 buf p = Some c \<longleftrightarrow> p < length buf \<and> c = buf ! p"
  by (auto simp: rd1_def)

text \<open>The next record of the type asked for: its index, after the previous one's.\<close>

definition mg_dns_next_record :: "dns_message \<Rightarrow> nat \<Rightarrow> nat option \<Rightarrow> nat option" where
  "mg_dns_next_record msg query prev =
     find (\<lambda>i. rr_rtype (dm_answers msg ! i) = query)
       [(case prev of None \<Rightarrow> 0 | Some i \<Rightarrow> Suc i) ..< length (dm_answers msg)]"

subsection \<open>Parsing\<close>

text \<open>The position of the zero byte behind the labels, of the second byte of a pointer, or behind the packet.\<close>

function skip_name :: "bytes \<Rightarrow> nat \<Rightarrow> nat option" where
  "skip_name buf p =
     (if p < length buf then do {
        c \<leftarrow> rd1 buf p;
        if c = 0 then Some p
        else if c AND 0xc0 \<noteq> 0 then Some (p + 1)
        else skip_name buf (p + unat c + 1) }
      else Some p)"
  by pat_completeness auto
termination by (relation "measure (\<lambda>(buf, p). length buf - p)") auto

declare skip_name.simps [simp del]

text \<open>The record and the position behind it; \<open>Some None\<close> is the NULL of a malformed record.\<close>

definition mg_parse_dns_resource_record :: "bytes \<Rightarrow> nat \<Rightarrow> bool \<Rightarrow> (dns_rr \<times> nat) option option" where
  "mg_parse_dns_resource_record buf p reply =
     do {
      q \<leftarrow> skip_name buf p;
      if q + 5 > length buf then Some None
      else do {
        rtype \<leftarrow> rd buf (q + 1) 2;
        rclass \<leftarrow> rd buf (q + 3) 2;
        let rr = no_rr\<lparr>rr_name := (p, q - p + 1), rr_rtype := be rtype, rr_rclass := be rclass\<rparr>;
        let q = q + 5;
        (if reply then
           (if q + 6 \<ge> length buf then Some None
            else do {
              ttl \<leftarrow> rd buf q 4;
              data_len \<leftarrow> rd buf (q + 4) 2;
              Some (Some (rr\<lparr>rr_kind := MG_DNS_ANSWER, rr_ttl := be ttl, rr_rdata := (q + 6, be data_len)\<rparr>,
                q + 6 + be data_len)) })
         else Some (Some (rr\<lparr>rr_kind := MG_DNS_QUESTION\<rparr>, q))) } }"

fun parse_records :: "nat \<Rightarrow> bytes \<Rightarrow> nat \<Rightarrow> bool \<Rightarrow> (dns_rr list \<times> nat) option option" where
  "parse_records 0 buf p reply = Some (Some ([], p))"
| "parse_records (Suc n) buf p reply = do {
     r \<leftarrow> mg_parse_dns_resource_record buf p reply;
     (case r of None \<Rightarrow> Some None
      | Some (rr, p) \<Rightarrow> do {
          rs \<leftarrow> parse_records n buf p reply;
          Some (map_option (\<lambda>(rrs, p). (rr # rrs, p)) rs) }) }"

definition mg_parse_dns :: "bytes \<Rightarrow> dns_message option option" where
  "mg_parse_dns buf =
     (if length buf < 12 then Some None
      else do {
        tid \<leftarrow> rd buf 0 2;
        flags \<leftarrow> rd buf 2 2;
        nq \<leftarrow> rd buf 4 2;
        na \<leftarrow> rd buf 6 2;
        qs \<leftarrow> parse_records (min (be nq) MG_MAX_DNS_QUESTIONS) buf 12 False;
        (case qs of None \<Rightarrow> Some None
         | Some (questions, p) \<Rightarrow> do {
             as \<leftarrow> parse_records (min (be na) MG_MAX_DNS_ANSWERS) buf p True;
             Some (map_option (\<lambda>(answers, _). \<lparr>dm_pkt = buf, dm_flags = be flags, dm_transaction_id = tid,
               dm_questions = questions, dm_answers = answers\<rparr>) as) }) })"

subsection \<open>Compressed names\<close>

text \<open>The bytes written to the destination, and the value returned.\<close>

function uncompress_loop :: "bytes \<Rightarrow> nat \<Rightarrow> nat \<Rightarrow> nat \<Rightarrow> bytes \<Rightarrow> (bytes \<times> nat) option" where
  "uncompress_loop pkt dst_len p num_ptrs dst = do {
     c \<leftarrow> rd1 pkt p;
     if c = 0 then
       Some (if dst \<noteq> [] then (butlast dst @ [0], length dst - 1) else (dst, 0))
     else if p + 1 \<ge> length pkt then Some (dst, 0)
     else if c AND 0xc0 = 0xc0 then do {
       lo \<leftarrow> rd1 pkt (p + 1);
       let off = unat (c AND 0x3f) * 256 + unat lo;
       if off \<ge> length pkt then Some (dst, 0)
       else if num_ptrs \<ge> 15 then Some (dst, 0)
       else uncompress_loop pkt dst_len off (Suc num_ptrs) dst }
     else if unat c > 63 then Some (dst, 0)
     else
       (let leeway = dst_len - length dst; n = min (unat c) leeway in
        if p + 1 + n \<ge> length pkt then Some (dst, 0)
        else do {
          chunk \<leftarrow> rd pkt (p + 1) n;
          let dst = dst @ chunk;
          if leeway - n = 0 then Some (dst, length dst)
          else uncompress_loop pkt dst_len (p + 1 + n) num_ptrs (dst @ [46]) }) }"
  by pat_completeness auto
termination
  by (relation "measures [\<lambda>(pkt, _, _, num_ptrs, _). 15 - num_ptrs, \<lambda>(pkt, _, p, _, _). length pkt - p]") auto

declare uncompress_loop.simps [simp del]

definition mg_dns_uncompress_name :: "dns_message \<Rightarrow> nat \<times> nat \<Rightarrow> nat \<Rightarrow> (bytes \<times> nat) option" where
  "mg_dns_uncompress_name msg name dst_len =
     (if fst name \<ge> length (dm_pkt msg) then Some ([], 0) else uncompress_loop (dm_pkt msg) dst_len (fst name) 0 [])"

text \<open>What is written to \<open>data\<close>, or the error code. IPv6 is not enabled.\<close>

definition mg_dns_parse_record_data :: "dns_message \<Rightarrow> dns_rr \<Rightarrow> nat \<Rightarrow> (unit + bytes) option" where
  "mg_dns_parse_record_data msg rr data_len =
     (if rr_rtype rr = MG_DNS_A_RECORD then
        (if data_len < 4 then Some (Inl ())
         else if fst (rr_rdata rr) + data_len > length (dm_pkt msg) then Some (Inl ())
         else map_option Inr (rd (dm_pkt msg) (fst (rr_rdata rr)) data_len))
      else if rr_rtype rr = MG_DNS_CNAME_RECORD then
        map_option (\<lambda>r. Inr (fst r)) (mg_dns_uncompress_name msg (rr_rdata rr) data_len)
      else Some (Inl ()))"

subsection \<open>Encoding\<close>

definition insert_at :: "nat \<Rightarrow> bytes \<Rightarrow> bytes \<Rightarrow> bytes" where
  "insert_at pos d io = take pos io @ d @ drop pos io"

definition dns_header :: "dns_message \<Rightarrow> bytes" where
  "dns_header msg = dm_transaction_id msg @ to_be 2 (dm_flags msg) @ to_be 2 (length (dm_questions msg))
     @ to_be 2 (length (dm_answers msg)) @ [0, 0, 0, 0]"

definition mg_dns_insert_header :: "bytes \<Rightarrow> nat \<Rightarrow> dns_message \<Rightarrow> bytes" where
  "mg_dns_insert_header io pos msg = insert_at pos (dns_header msg) io"

definition mg_dns_copy_questions :: "bytes \<Rightarrow> dns_message \<Rightarrow> bytes option" where
  "mg_dns_copy_questions io msg =
     (if dm_questions msg = [] then Some io
      else do {
        let last_q = last (dm_questions msg);
        d \<leftarrow> rd (dm_pkt msg) 12 (fst (rr_name last_q) + snd (rr_name last_q) + 4 - 12);
        Some (io @ d) })"

text \<open>
  The name is a C string (without its terminating zero); \<open>len\<close> is a size_t and need not be its length. The result is
  the buffer, with what was appended before an error, and whether there was none.
\<close>

partial_function (option) encode_name_loop :: "bytes \<Rightarrow> bytes \<Rightarrow> u64 \<Rightarrow> (bytes \<times> bool) option" where
  "encode_name_loop io name len =
     (let n = (case mg_strchr name 46 of Some i \<Rightarrow> i | None \<Rightarrow> unat len) in
      if n > 127 then Some (io, False)
      else if n > length name then None
      else
        (let io = io @ of_nat n # take n name in
         if n = length name then Some (io @ [0], True)
         else if name ! n = 46 then encode_name_loop io (drop (Suc n) name) (len - of_nat (Suc n))
         else encode_name_loop io (drop n name) (len - of_nat n)))"

definition mg_dns_encode_name :: "bytes \<Rightarrow> bytes \<Rightarrow> u64 \<Rightarrow> (bytes \<times> nat option) option" where
  "mg_dns_encode_name io name len = do {
     (io', ok) \<leftarrow> encode_name_loop io name len;
     Some (io', if ok then Some (length io' - length io) else None) }"

definition mg_dns_encode_record :: "bytes \<Rightarrow> dns_rr \<Rightarrow> bytes \<Rightarrow> u64 \<Rightarrow> bytes \<Rightarrow> (bytes \<times> nat option) option" where
  "mg_dns_encode_record io0 rr name nlen rdata =
     (if rr_kind rr = MG_DNS_INVALID_RECORD then Some (io0, None)
      else do {
        (io, r) \<leftarrow> mg_dns_encode_name io0 name nlen;
        (case r of None \<Rightarrow> Some (io, None)
         | Some _ \<Rightarrow> do {
             let io = io @ to_be 2 (rr_rtype rr);
             let io = io @ to_be 2 (rr_rclass rr);
             (if rr_kind rr = MG_DNS_ANSWER then do {
                let io = io @ to_be 4 (rr_ttl rr);
                (if rr_rtype rr = MG_DNS_CNAME_RECORD then do {
                   let off = length io;
                   let io = io @ to_be 2 (rr_rclass rr);
                   (io, r) \<leftarrow> mg_dns_encode_name io rdata (of_nat (length rdata));
                   (case r of None \<Rightarrow> Some (io, None)
                    | Some clen \<Rightarrow> do {
                        let io = io[off := of_nat (clen div 256 mod 256), Suc off := of_nat (clen mod 256)];
                        Some (io, Some (length io - length io0)) }) }
                 else do {
                   let io = io @ to_be 2 (length rdata);
                   let io = io @ rdata;
                   Some (io, Some (length io - length io0)) }) }
              else Some (io, Some (length io - length io0))) }) })"

text \<open>The packet for a query, or nothing when the name cannot be encoded. The identifier is the static counter.\<close>

definition host16 :: "nat \<Rightarrow> bytes" where
  "host16 n = [of_nat (n mod 256), of_nat (n div 256 mod 256)]"

definition mg_send_dns_query :: "bool \<Rightarrow> bytes \<Rightarrow> nat \<Rightarrow> nat \<Rightarrow> bytes \<Rightarrow> (nat \<times> bytes) option" where
  "mg_send_dns_query udp name query_type mg_dns_tid send = do {
     let tid = mg_dns_tid + 1;
     let rr = no_rr\<lparr>rr_rtype := query_type, rr_rclass := 1, rr_kind := MG_DNS_QUESTION\<rparr>;
     let msg = no_dns_message\<lparr>dm_transaction_id := host16 tid, dm_flags := 0x100, dm_questions := [rr]\<rparr>;
     let pkt = mg_dns_insert_header [] 0 msg;
     (pkt, r) \<leftarrow> mg_dns_encode_record pkt rr name (of_nat (length name)) [];
     (case r of None \<Rightarrow> Some (tid, send)
      | Some _ \<Rightarrow> Some (tid, send @ (if udp then pkt else insert_at 0 (to_be 2 (length pkt)) pkt))) }"

subsection \<open>The server\<close>

text \<open>
  The handler of a DNS connection on new data: the user's handler first gets the event itself (\<open>None\<close>), and then
  the parsed message; it may change the send buffer.
\<close>

definition dns_handler_recv ::
    "bool \<Rightarrow> (dns_message option \<Rightarrow> bytes \<Rightarrow> bytes option) \<Rightarrow> bytes \<Rightarrow> bytes \<Rightarrow> (bytes \<times> bytes) option" where
  "dns_handler_recv udp h recv send = do {
     send \<leftarrow> h None send;
     let io = (if udp then recv else if 2 \<le> length recv then drop 2 recv else recv);
     r \<leftarrow> mg_parse_dns io;
     (case r of
        None \<Rightarrow>
          (let io = mg_dns_insert_header io 0 (no_dns_message\<lparr>dm_flags := 0x8081\<rparr>);
               io = (if udp then io else insert_at 0 (to_be 2 (length io)) io)
           in Some ([], send @ io))
      | Some msg \<Rightarrow> do { send \<leftarrow> h (Some msg) send; Some ([], send) }) }"

record dns_reply =
  rp_msg :: dns_message
  rp_io :: bytes
  rp_start :: nat

definition mg_dns_create_reply :: "bytes \<Rightarrow> dns_message \<Rightarrow> dns_reply option" where
  "mg_dns_create_reply io msg = do {
     let msg' = msg\<lparr>dm_flags := unat ((of_nat (dm_flags msg) :: u16) OR 0x8080)\<rparr>;
     io' \<leftarrow> mg_dns_copy_questions io msg';
     Some \<lparr>rp_msg = msg'\<lparr>dm_answers := []\<rparr>, rp_io = io', rp_start = length io\<rparr> }"

text \<open>
  \<open>shared\<close>: the reply was built in the connection's own send buffer, which is then \<open>send\<close>. The results are the
  reply's buffer and the send buffer.
\<close>

definition mg_dns_send_reply :: "bool \<Rightarrow> bool \<Rightarrow> dns_reply \<Rightarrow> bytes \<Rightarrow> bytes \<times> bytes" where
  "mg_dns_send_reply udp shared r send =
     (let sent = length (rp_io r) - rp_start r;
          io = mg_dns_insert_header (rp_io r) (rp_start r) (rp_msg r);
          io = (if udp then io else insert_at (rp_start r) (to_be 2 sent) io)
      in if shared then (io, io) else (take (rp_start r) io, send @ drop (rp_start r) io))"

text \<open>
  The name of the answer is the question's when none is given; the local buffer for it is not initialised, but for its
  last byte.
\<close>

definition rname_of :: "bytes \<times> nat \<Rightarrow> bytes option" where
  "rname_of r = (if 0 \<in> set (fst r) \<or> length (fst r) = 511 then Some (takeWhile (\<lambda>c. c \<noteq> 0) (fst r)) else None)"

definition mg_dns_reply_record :: "dns_reply \<Rightarrow> dns_rr \<Rightarrow> bytes option \<Rightarrow> nat \<Rightarrow> nat \<Rightarrow> bytes \<Rightarrow> (dns_reply \<times> bool) option" where
  "mg_dns_reply_record r question name rtype ttl rdata =
     (if length (dm_answers (rp_msg r)) \<ge> MG_MAX_DNS_ANSWERS then Some (r, False)
      else do {
        name \<leftarrow> (case name of Some n \<Rightarrow> Some n
          | None \<Rightarrow> do { d \<leftarrow> mg_dns_uncompress_name (rp_msg r) (rr_name question) 511; rname_of d });
        let ans = question\<lparr>rr_kind := MG_DNS_ANSWER, rr_rtype := rtype, rr_ttl := ttl\<rparr>;
        (io, n) \<leftarrow> mg_dns_encode_record (rp_io r) ans name (of_nat (length name)) rdata;
        (case n of None \<Rightarrow> Some (r\<lparr>rp_io := io\<rparr>, False)
         | Some _ \<Rightarrow> Some (r\<lparr>rp_io := io, rp_msg := (rp_msg r)\<lparr>dm_answers := dm_answers (rp_msg r) @ [ans]\<rparr>\<rparr>, True)) })"

subsection \<open>The resolver\<close>

datatype resolve_err = MG_RESOLVE_OK | MG_RESOLVE_NO_ANSWERS | MG_RESOLVE_EXCEEDED_RETRY_COUNT | MG_RESOLVE_TIMEOUT

record resolve_request =
  rq_name :: bytes
  rq_query :: nat
  rq_timeout :: int
  rq_max_retries :: nat
  rq_err :: resolve_err
  rq_last_time :: int
  rq_retries :: nat

text \<open>
  The connection to the name server: its request (\<open>None\<close> when the user data is NULL), its send buffer, whether it is to
  be closed and the calls of the user's callback. \<open>rs_tid\<close> is the static counter.
\<close>

record resolve_state =
  rs_req :: "resolve_request option"
  rs_send :: bytes
  rs_close :: bool
  rs_connecting :: bool
  rs_udp :: bool
  rs_tid :: nat
  rs_calls :: "(dns_message option \<times> resolve_err) list"

datatype resolve_event = Rv_poll int | Rv_connect int | Rv_recv bytes | Rv_send | Rv_timer | Rv_close

definition resolve_query :: "int \<Rightarrow> resolve_request \<Rightarrow> resolve_state \<Rightarrow> resolve_state option" where
  "resolve_query now req s =
     (if rq_retries req = 0 \<or> now - rq_last_time req \<ge> rq_timeout req then do {
        (tid, send) \<leftarrow> mg_send_dns_query (rs_udp s) (rq_name req) (rq_query req) (rs_tid s) (rs_send s);
        Some (s\<lparr>rs_tid := tid, rs_send := send, rs_req := Some (req\<lparr>rq_last_time := now, rq_retries := rq_retries req + 1\<rparr>)\<rparr>) }
      else Some s)"

definition mg_resolve_async_eh :: "resolve_event \<Rightarrow> resolve_state \<Rightarrow> resolve_state option" where
  "mg_resolve_async_eh ev s =
     (case rs_req s of
        None \<Rightarrow> Some s
      | Some req \<Rightarrow>
          (case ev of
             Rv_poll now \<Rightarrow>
               (if rq_retries req > rq_max_retries req then
                  Some (s\<lparr>rs_req := Some (req\<lparr>rq_err := MG_RESOLVE_EXCEEDED_RETRY_COUNT\<rparr>), rs_close := True\<rparr>)
                else if rs_connecting s then Some s else resolve_query now req s)
           | Rv_connect now \<Rightarrow> resolve_query now req s
           | Rv_recv buf \<Rightarrow> do {
               r \<leftarrow> mg_parse_dns buf;
               Some ((case r of
                   Some msg \<Rightarrow> if dm_answers msg \<noteq> [] then s\<lparr>rs_req := None, rs_calls := rs_calls s @ [(Some msg, MG_RESOLVE_OK)]\<rparr>
                               else s\<lparr>rs_req := Some (req\<lparr>rq_err := MG_RESOLVE_NO_ANSWERS\<rparr>)\<rparr>
                 | None \<Rightarrow> s\<lparr>rs_req := Some (req\<lparr>rq_err := MG_RESOLVE_NO_ANSWERS\<rparr>)\<rparr>)\<lparr>rs_close := True\<rparr>) }
           | Rv_send \<Rightarrow> Some (s\<lparr>rs_close := False, rs_send := []\<rparr>)
           | Rv_timer \<Rightarrow> Some (s\<lparr>rs_req := Some (req\<lparr>rq_err := MG_RESOLVE_TIMEOUT\<rparr>), rs_close := True\<rparr>)
           | Rv_close \<Rightarrow> Some (s\<lparr>rs_req := None, rs_calls := rs_calls s @ [(None, rq_err req)]\<rparr>)))"

text \<open>The request and connection that mg_resolve_async_opt sets up, once it is connected to the name server.\<close>

definition mg_resolve_async_opt :: "bytes \<Rightarrow> nat \<Rightarrow> nat \<Rightarrow> int \<Rightarrow> nat \<Rightarrow> resolve_state" where
  "mg_resolve_async_opt name query max_retries timeout tid =
     \<lparr>rs_req = Some \<lparr>rq_name = take 1023 name, rq_query = query, rq_timeout = (if timeout = 0 then 5 else timeout),
        rq_max_retries = (if max_retries = 0 then 2 else max_retries), rq_err = MG_RESOLVE_OK, rq_last_time = 0, rq_retries = 0\<rparr>,
      rs_send = [], rs_close = False, rs_connecting = True, rs_udp = True, rs_tid = tid, rs_calls = []\<rparr>"

subsection \<open>Reads stay in the packet\<close>

lemma rd_Some: "p + n \<le> length buf \<Longrightarrow> rd buf p n = Some (take n (drop p buf))"
  by (simp add: rd_def)

lemma skip_name_Some: "\<exists>q \<ge> p. skip_name buf p = Some q"
proof (induction buf p rule: skip_name.induct)
  case (1 buf p)
  show ?case
  proof (cases "p < length buf \<and> buf ! p \<noteq> 0 \<and> buf ! p AND 0xc0 = 0")
    case True
    then obtain q where "p + unat (buf ! p) + 1 \<le> q" "skip_name buf (p + unat (buf ! p) + 1) = Some q"
      using "1.IH" [of "buf ! p"] by auto
    then show ?thesis using True by (intro exI [of _ q]) (subst skip_name.simps, simp add: rd1_def)
  next
    case False
    then show ?thesis by (subst skip_name.simps) (auto simp: rd1_def)
  qed
qed

definition rr_in_packet :: "bytes \<Rightarrow> bool \<Rightarrow> dns_rr \<Rightarrow> bool" where
  "rr_in_packet buf reply rr \<longleftrightarrow> fst (rr_name rr) + snd (rr_name rr) + 4 \<le> length buf \<and>
     (reply \<longrightarrow> fst (rr_rdata rr) \<le> length buf) \<and> rr_kind rr = (if reply then MG_DNS_ANSWER else MG_DNS_QUESTION)"

lemma parse_rr_safe:
  "\<exists>r. mg_parse_dns_resource_record buf p reply = Some r \<and> (\<forall>rr q. r = Some (rr, q) \<longrightarrow> rr_in_packet buf reply rr \<and> p < q)"
proof -
  obtain q where "p \<le> q" "skip_name buf p = Some q" using skip_name_Some by blast
  then show ?thesis by (auto simp: mg_parse_dns_resource_record_def Let_def rd_Some rr_in_packet_def no_rr_def)
qed

lemma parse_records_safe:
  "\<exists>r. parse_records n buf p reply = Some r \<and>
    (\<forall>rrs q. r = Some (rrs, q) \<longrightarrow> length rrs = n \<and> list_all (rr_in_packet buf reply) rrs \<and> p + n \<le> q)"
proof (induction n arbitrary: p)
  case (Suc n)
  obtain r where r: "mg_parse_dns_resource_record buf p reply = Some r"
      "\<And>rr q. r = Some (rr, q) \<Longrightarrow> rr_in_packet buf reply rr \<and> p < q" using parse_rr_safe by metis
  show ?case
  proof (cases r)
    case (Some x)
    obtain rr q where x: "x = (rr, q)" by (cases x)
    obtain rs where rs: "parse_records n buf q reply = Some rs"
      "\<And>rrs q'. rs = Some (rrs, q') \<Longrightarrow> length rrs = n \<and> list_all (rr_in_packet buf reply) rrs \<and> q + n \<le> q'"
      using Suc.IH [of q] by blast
    show ?thesis using r rs Some x by (cases rs) fastforce+
  qed (use r in simp)
qed simp

text \<open>C14: the parser of DNS packets never reads outside the packet, whatever the packet is; an accepted message has at most 32 questions and 32 answers, and every record's name lies inside the packet with the type and class behind it. Nothing of the kind holds for an answer's data, whose length is taken as it stands.\<close>
theorem mg_parse_dns_safe:
  "mg_parse_dns buf = Some None \<or> (\<exists>msg. mg_parse_dns buf = Some (Some msg) \<and> dm_pkt msg = buf \<and>
     length (dm_questions msg) \<le> 32 \<and> length (dm_answers msg) \<le> 32 \<and>
     list_all (rr_in_packet buf False) (dm_questions msg) \<and> list_all (rr_in_packet buf True) (dm_answers msg))"
proof (cases "length buf < 12")
  case False
  let ?nq = "min (be (take 2 (drop 4 buf))) MG_MAX_DNS_QUESTIONS" and ?na = "min (be (take 2 (drop 6 buf))) MG_MAX_DNS_ANSWERS"
  obtain qs where qs: "parse_records ?nq buf 12 False = Some qs"
    "\<And>rrs q. qs = Some (rrs, q) \<Longrightarrow> length rrs = ?nq \<and> list_all (rr_in_packet buf False) rrs"
    using parse_records_safe [of ?nq buf 12 False] by blast
  show ?thesis
  proof (cases qs)
    case None
    then show ?thesis using False qs by (simp add: mg_parse_dns_def rd_Some)
  next
    case (Some x)
    obtain questions p where x: "x = (questions, p)" by (cases x)
    obtain as where as: "parse_records ?na buf p True = Some as"
      "\<And>rrs q. as = Some (rrs, q) \<Longrightarrow> length rrs = ?na \<and> list_all (rr_in_packet buf True) rrs"
      using parse_records_safe [of ?na buf p True] by blast
    show ?thesis
      using False qs as Some x
      by (cases as) (auto simp: mg_parse_dns_def rd_Some MG_MAX_DNS_QUESTIONS_def MG_MAX_DNS_ANSWERS_def)
  qed
qed (simp add: mg_parse_dns_def)


subsection \<open>Names\<close>

text \<open>The steps of the loop when the position is in the packet.\<close>

lemma uncompress_loop_in:
  assumes "p < length pkt"
  shows "uncompress_loop pkt dst_len p num_ptrs dst =
     (if pkt ! p = 0 then
        Some (if dst \<noteq> [] then (butlast dst @ [0], length dst - 1) else (dst, 0))
      else if p + 1 \<ge> length pkt then Some (dst, 0)
      else if pkt ! p AND 0xc0 = 0xc0 then
        (let off = unat (pkt ! p AND 0x3f) * 256 + unat (pkt ! (p + 1)) in
         if off \<ge> length pkt then Some (dst, 0)
         else if num_ptrs \<ge> 15 then Some (dst, 0)
         else uncompress_loop pkt dst_len off (Suc num_ptrs) dst)
      else if unat (pkt ! p) > 63 then Some (dst, 0)
      else
        (let leeway = dst_len - length dst; n = min (unat (pkt ! p)) leeway in
         if p + 1 + n \<ge> length pkt then Some (dst, 0)
         else
           (let dst = dst @ take n (drop (p + 1) pkt) in
            if leeway - n = 0 then Some (dst, length dst)
            else uncompress_loop pkt dst_len (p + 1 + n) num_ptrs (dst @ [46]))))"
  using assms by (subst uncompress_loop.simps) (simp add: rd1_def rd_def Let_def)

lemma uncompress_loop_bounds:
  assumes "p < length pkt" "length dst \<le> n"
  shows "\<exists>d r. uncompress_loop pkt n p k dst = Some (d, r) \<and> length d \<le> n \<and> r \<le> length d"
  using assms
proof (induction pkt n p k dst rule: uncompress_loop.induct)
  case (1 pkt n p k dst)
  note IH1 = "1.IH"(1) and IH2 = "1.IH"(2)
  let ?off = "unat (pkt ! p AND 0x3f) * 256 + unat (pkt ! (p + 1))"
  let ?m = "min (unat (pkt ! p)) (n - length dst)"
  consider (zero) "pkt ! p = 0" | (last) "pkt ! p \<noteq> 0" "p + 1 \<ge> length pkt"
    | (ptr) "pkt ! p \<noteq> 0" "p + 1 < length pkt" "pkt ! p AND 0xc0 = 0xc0"
    | (lab) "pkt ! p \<noteq> 0" "p + 1 < length pkt" "pkt ! p AND 0xc0 \<noteq> 0xc0" by fastforce
  then show ?case
  proof cases
    case zero
    then show ?thesis using "1.prems" by (subst uncompress_loop_in) (auto simp: Suc_le_eq)
  next
    case last
    then show ?thesis using "1.prems" by (subst uncompress_loop_in) auto
  next
    case ptr
    show ?thesis
    proof (cases "?off \<ge> length pkt \<or> k \<ge> 15")
      case True
      then show ?thesis using ptr "1.prems" by (subst uncompress_loop_in) (auto simp: Let_def)
    next
      case False
      then have "uncompress_loop pkt n p k dst = uncompress_loop pkt n ?off (Suc k) dst"
        using ptr "1.prems" by (subst uncompress_loop_in) (auto simp: Let_def)
      then show ?thesis using IH1 [of "pkt ! p" "pkt ! (p + 1)" ?off] False ptr "1.prems" by simp
    qed
  next
    case lab
    show ?thesis
    proof (cases "unat (pkt ! p) > 63 \<or> p + 1 + ?m \<ge> length pkt")
      case True
      then show ?thesis using lab "1.prems" by (subst uncompress_loop_in) (auto simp: Let_def)
    next
      case b: False
      let ?d = "dst @ take ?m (drop (p + 1) pkt)"
      have "?m \<le> length (drop (p + 1) pkt)" using b unfolding length_drop by linarith
      then have ld: "length ?d = length dst + ?m" by (simp only: length_append length_take min_absorb2)
      show ?thesis
      proof (cases "n - length dst - ?m = 0")
        case True
        then have "uncompress_loop pkt n p k dst = Some (?d, length ?d)"
          using lab b "1.prems" by (subst uncompress_loop_in) (simp_all add: Let_def del: length_append)
        moreover have "length ?d \<le> n" using ld "1.prems" by simp
        ultimately show ?thesis by blast
      next
        case False
        then have "\<not> n \<le> length dst + unat (pkt ! p)" by (auto simp: min_def split: if_splits)
        then have e: "uncompress_loop pkt n p k dst = uncompress_loop pkt n (p + 1 + ?m) k (?d @ [46])"
          using False lab b "1.prems" by (subst uncompress_loop_in) (simp_all add: Let_def)
        have "length (?d @ [46]) \<le> n" using False ld "1.prems" by simp
        then show ?thesis unfolding e using b lab False "1.prems"
          by (intro IH2 [of "pkt ! p" "n - length dst" ?m "take ?m (drop (p + 1) pkt)" ?d]) (simp_all add: rd_def)
      qed
    qed
  qed
qed

text \<open>C15: decompressing a name ends whatever pointers the packet holds, reads only the packet and writes at most the destination's size, which also bounds the length it returns.\<close>
theorem mg_dns_uncompress_name_safe:
  "\<exists>d r. mg_dns_uncompress_name msg name dst_len = Some (d, r) \<and> length d \<le> dst_len \<and> r \<le> length d"
  using uncompress_loop_bounds [of "fst name" "dm_pkt msg" "[]" dst_len 0]
  by (auto simp: mg_dns_uncompress_name_def)

fun join_dots :: "bytes list \<Rightarrow> bytes" where
  "join_dots [] = []"
| "join_dots [l] = l"
| "join_dots (l # ls) = l @ 46 # join_dots ls"

definition dns_wire :: "bytes list \<Rightarrow> bytes" where
  "dns_wire ls = concat (map (\<lambda>l. of_nat (length l) # l) ls) @ [0]"

lemma dns_wire_simps [simp]: "dns_wire [] = [0]" "dns_wire (l # ls) = of_nat (length l) # l @ dns_wire ls"
  by (simp_all add: dns_wire_def)

definition label_ok :: "bytes \<Rightarrow> bool" where
  "label_ok l \<longleftrightarrow> l \<noteq> [] \<and> length l \<le> 63 \<and> 46 \<notin> set l \<and> 0 \<notin> set l"

lemma encode_labels:
  assumes "ls \<noteq> []" "\<forall>l \<in> set ls. length l \<le> 127 \<and> 46 \<notin> set l"
  shows "encode_name_loop io (join_dots ls) (of_nat (length (join_dots ls))) = Some (io @ dns_wire ls, True)"
  using assms
proof (induction ls arbitrary: io rule: join_dots.induct)
  case (2 l)
  then have "mg_strchr l 46 = None" "length l \<le> 127" by (simp_all add: mg_strchr_None)
  moreover have "unat (of_nat (length l) :: u64) = length l" using \<open>length l \<le> 127\<close> by (simp add: unat_of_nat)
  ultimately show ?case by (subst encode_name_loop.simps) simp
next
  case (3 l l' ls)
  let ?r = "join_dots (l' # ls)"
  have s: "mg_strchr (l @ 46 # ?r) 46 = Some (length l)" using 3 by (intro mg_strchr_append) simp
  have "(of_nat (length (l @ 46 # ?r)) :: u64) - of_nat (Suc (length l)) = of_nat (length ?r)" by simp
  then have "encode_name_loop io (l @ 46 # ?r) (of_nat (length (l @ 46 # ?r))) =
      encode_name_loop (io @ of_nat (length l) # l) ?r (of_nat (length ?r))"
    using s 3 by (subst encode_name_loop.simps) (simp add: Let_def)
  also have "\<dots> = Some ((io @ of_nat (length l) # l) @ dns_wire (l' # ls), True)" by (rule "3.IH") (use 3 in auto)
  finally show ?case by simp
qed simp

lemma label_byte:
  assumes "n \<le> 63"
  shows "unat (of_nat n :: byte) = n" "(of_nat n :: byte) AND 0xc0 = 0" "0 < n \<Longrightarrow> (of_nat n :: byte) \<noteq> 0"
proof -
  have "\<forall>i \<in> set [0..<64]. unat (of_nat i :: byte) = i \<and> (of_nat i :: byte) AND 0xc0 = 0" by code_simp
  with assms show "unat (of_nat n :: byte) = n" "(of_nat n :: byte) AND 0xc0 = 0" by auto
  then show "0 < n \<Longrightarrow> (of_nat n :: byte) \<noteq> 0" by fastforce
qed

lemma uncompress_labels:
  assumes "ls \<noteq> []" "\<forall>l \<in> set ls. label_ok l" "pkt = pre @ dns_wire ls @ post" "p = length pre"
    "length dst + length (join_dots ls) < n"
  shows "uncompress_loop pkt n p k dst = Some (dst @ join_dots ls @ [0], length dst + length (join_dots ls))"
proof -
  have step: "uncompress_loop pkt n p k dst = uncompress_loop pkt n (p + 1 + length l) k (dst @ l @ [46])"
    if "pkt = pre @ of_nat (length l) # l @ rest" "p = length pre" "label_ok l" "length dst + length l < n" "rest \<noteq> []"
    for pre l rest p dst
  proof -
    have l: "0 < length l" "length l \<le> 63" using that(3) by (auto simp: label_ok_def)
    have "pkt ! p = of_nat (length l)" "drop (p + 1) pkt = l @ rest" "length pkt = p + 1 + length l + length rest"
      by (simp_all add: that(1,2))
    moreover have "\<not> n - length dst \<le> length l" using that(4) by linarith
    ultimately show ?thesis using l that(4,5) label_byte [OF l(2)]
      by (subst uncompress_loop_in) (simp_all add: Let_def)
  qed
  show ?thesis using assms
  proof (induction ls arbitrary: pre p dst rule: join_dots.induct)
    case (2 l)
    have "uncompress_loop pkt n p k dst = uncompress_loop pkt n (p + 1 + length l) k (dst @ l @ [46])"
      by (rule step [of pre _ "0 # post"]) (use 2 in simp_all)
    moreover have "pkt ! (p + 1 + length l) = 0" "\<not> p + 1 + length l \<ge> length pkt" using 2 by (simp_all add: nth_append)
    moreover from this have "uncompress_loop pkt n (p + 1 + length l) k (dst @ l @ [46]) = Some (dst @ l @ [0], length dst + length l)"
      by (subst uncompress_loop_in) (simp_all add: butlast_append)
    ultimately show ?case by simp
  next
    case (3 l l' ls)
    have "uncompress_loop pkt n p k dst = uncompress_loop pkt n (p + 1 + length l) k (dst @ l @ [46])"
      by (rule step [of pre _ "dns_wire (l' # ls) @ post"]) (use 3 in simp_all)
    also have "\<dots> = Some ((dst @ l @ [46]) @ join_dots (l' # ls) @ [0], length (dst @ l @ [46]) + length (join_dots (l' # ls)))"
      by (rule "3.IH" [of "pre @ of_nat (length l) # l"]) (use 3 in simp_all)
    finally show ?case by simp
  qed simp
qed

lemma skip_name_labels:
  assumes "\<forall>l \<in> set ls. label_ok l" "buf = pre @ dns_wire ls @ post" "p = length pre"
  shows "skip_name buf p = Some (p + length (dns_wire ls) - 1)"
  using assms
proof (induction ls arbitrary: pre p)
  case Nil
  then show ?case by (subst skip_name.simps) (simp add: rd1_def)
next
  case (Cons l ls)
  have l: "0 < length l" "length l \<le> 63" using Cons.prems(1) by (auto simp: label_ok_def)
  have "buf ! p = of_nat (length l)" "p < length buf" by (simp_all add: Cons.prems)
  then have "skip_name buf p = skip_name buf (p + length l + 1)"
    using label_byte [OF l(2)] l(1) by (subst skip_name.simps) (simp add: rd1_def)
  also have "\<dots> = Some (p + length l + 1 + length (dns_wire ls) - 1)"
    by (rule Cons.IH [of "pre @ of_nat (length l) # l"]) (use Cons.prems in simp_all)
  finally show ?case by simp
qed


lemma mg_dns_encode_name_labels:
  assumes "ls \<noteq> []" "\<forall>l \<in> set ls. length l \<le> 127 \<and> 46 \<notin> set l"
  shows "mg_dns_encode_name io (join_dots ls) (of_nat (length (join_dots ls))) = Some (io @ dns_wire ls, Some (length (dns_wire ls)))"
  using encode_labels [OF assms] by (simp add: mg_dns_encode_name_def)

lemma label_ok_encode: "\<forall>l \<in> set ls. label_ok l \<Longrightarrow> \<forall>l \<in> set ls. length l \<le> 127 \<and> 46 \<notin> set l"
  by (auto simp: label_ok_def)

lemma be_to_be_at: "buf = pre @ to_be n v @ post \<Longrightarrow> p = length pre \<Longrightarrow> rd buf p n = Some (to_be n v)"
  by (simp add: rd_def)

lemma length_dns_header [simp]: "length (dm_transaction_id msg) = 2 \<Longrightarrow> length (dns_header msg) = 12"
  by (simp add: dns_header_def)

lemma length_host16 [simp]: "length (host16 n) = 2" by (simp add: host16_def)

text \<open>What a packet parses to when it is a header, one question and nothing else.\<close>

lemma parse_question_packet:
  assumes "ls \<noteq> []" "\<forall>l \<in> set ls. label_ok l" "rtype < 2 ^ 16" "rclass < 2 ^ 16" "flags < 2 ^ 16" "length tid = 2"
    and pkt: "pkt = tid @ to_be 2 flags @ to_be 2 1 @ to_be 2 0 @ [0, 0, 0, 0] @ dns_wire ls @ to_be 2 rtype @ to_be 2 rclass"
  shows "mg_parse_dns pkt = Some (Some \<lparr>dm_pkt = pkt, dm_flags = flags, dm_transaction_id = tid,
    dm_questions = [no_rr\<lparr>rr_name := (12, length (dns_wire ls)), rr_rtype := rtype, rr_rclass := rclass, rr_kind := MG_DNS_QUESTION\<rparr>],
    dm_answers = []\<rparr>)"
proof -
  let ?h = "tid @ to_be 2 flags @ to_be 2 1 @ to_be 2 0 @ [0, 0, 0, 0]"
  let ?n = "length (dns_wire ls)"
  have n: "0 < ?n" by (simp add: dns_wire_def)
  have h: "rd pkt 0 2 = Some tid" "rd pkt 2 2 = Some (to_be 2 flags)" "rd pkt 4 2 = Some (to_be 2 1)" "rd pkt 6 2 = Some (to_be 2 0)"
    using assms(6) by (simp_all add: pkt rd_def)
  have q: "skip_name pkt 12 = Some (12 + ?n - 1)"
    by (rule skip_name_labels [OF assms(2), of _ ?h "to_be 2 rtype @ to_be 2 rclass"]) (use assms(6) in \<open>simp_all add: pkt\<close>)
  have l: "length pkt = 12 + ?n + 4" using assms(6) by (simp add: pkt)
  have t: "rd pkt (12 + ?n) 2 = Some (to_be 2 rtype)"
    by (rule be_to_be_at [of _ "?h @ dns_wire ls" _ _ "to_be 2 rclass"]) (use assms(6) in \<open>simp_all add: pkt\<close>)
  have c: "rd pkt (12 + ?n + 2) 2 = Some (to_be 2 rclass)"
    by (rule be_to_be_at [of _ "?h @ dns_wire ls @ to_be 2 rtype" _ _ "[]"]) (use assms(6) in \<open>simp_all add: pkt\<close>)
  have "mg_parse_dns_resource_record pkt 12 False = Some (Some (no_rr\<lparr>rr_name := (12, ?n), rr_rtype := rtype,
      rr_rclass := rclass, rr_kind := MG_DNS_QUESTION\<rparr>, 12 + ?n + 4))"
  proof -
    have e: "12 + ?n - 1 + 1 = 12 + ?n" "12 + ?n - 1 + 3 = 12 + ?n + 2" "12 + ?n - 1 - 12 + 1 = ?n" "12 + ?n - 1 + 5 = 12 + ?n + 4"
      using n by linarith+
    show ?thesis using assms(3,4) unfolding mg_parse_dns_resource_record_def Let_def q Option.bind.bind_lunit e t c
      by (simp add: l)
  qed
  then have pr: "parse_records (Suc 0) pkt 12 False = Some (Some ([no_rr\<lparr>rr_name := (12, ?n), rr_rtype := rtype,
      rr_rclass := rclass, rr_kind := MG_DNS_QUESTION\<rparr>], 12 + ?n + 4))" by simp
  then show ?thesis using l assms(5) by (simp add: mg_parse_dns_def h MG_MAX_DNS_QUESTIONS_def del: parse_records.simps(2))
qed

text \<open>C13: the packet that mg_send_dns_query sends over UDP parses as one question of the type asked for, with the next identifier, and decompressing its name gives back the name that was asked for; this holds for every name of labels of 1 to 63 bytes.\<close>
theorem dns_query_roundtrip:
  assumes "ls \<noteq> []" "\<forall>l \<in> set ls. label_ok l" "qtype < 2 ^ 16" "length (join_dots ls) < n"
  shows "\<exists>pkt msg rr. mg_send_dns_query True (join_dots ls) qtype tid send = Some (tid + 1, send @ pkt) \<and>
    mg_parse_dns pkt = Some (Some msg) \<and> dm_transaction_id msg = host16 (tid + 1) \<and> dm_questions msg = [rr] \<and> dm_answers msg = [] \<and>
    rr_rtype rr = qtype \<and> rr_rclass rr = 1 \<and>
    mg_dns_uncompress_name msg (rr_name rr) n = Some (join_dots ls @ [0], length (join_dots ls))"
proof -
  let ?pkt = "host16 (tid + 1) @ to_be 2 0x100 @ to_be 2 1 @ to_be 2 0 @ [0, 0, 0, 0] @ dns_wire ls @ to_be 2 qtype @ to_be 2 1"
  let ?msg = "\<lparr>dm_pkt = ?pkt, dm_flags = 0x100, dm_transaction_id = host16 (tid + 1),
    dm_questions = [no_rr\<lparr>rr_name := (12, length (dns_wire ls)), rr_rtype := qtype, rr_rclass := 1, rr_kind := MG_DNS_QUESTION\<rparr>],
    dm_answers = []\<rparr>"
  have s: "mg_send_dns_query True (join_dots ls) qtype tid send = Some (tid + 1, send @ ?pkt)"
    by (simp add: mg_send_dns_query_def mg_dns_encode_record_def mg_dns_encode_name_labels [OF assms(1) label_ok_encode [OF assms(2)]]
        mg_dns_insert_header_def insert_at_def dns_header_def no_dns_message_def no_rr_def Let_def)
  have p: "mg_parse_dns ?pkt = Some (Some ?msg)"
    by (rule parse_question_packet [OF assms(1,2,3)]) simp_all
  have "uncompress_loop ?pkt n 12 0 [] = Some ([] @ join_dots ls @ [0], length ([] :: bytes) + length (join_dots ls))"
    by (rule uncompress_labels [OF assms(1,2), of _ "host16 (tid + 1) @ to_be 2 0x100 @ to_be 2 1 @ to_be 2 0 @ [0, 0, 0, 0]"
          "to_be 2 qtype @ to_be 2 1"]) (use assms(4) in simp_all)
  then have u: "mg_dns_uncompress_name ?msg (12, length (dns_wire ls)) n = Some (join_dots ls @ [0], length (join_dots ls))"
    by (simp add: mg_dns_uncompress_name_def)
  have "dm_questions ?msg = [hd (dm_questions ?msg)]" "rr_name (hd (dm_questions ?msg)) = (12, length (dns_wire ls))"
    "rr_rtype (hd (dm_questions ?msg)) = qtype" "rr_rclass (hd (dm_questions ?msg)) = 1" by (simp_all add: no_rr_def)
  then show ?thesis
    by (intro exI [of _ ?pkt] exI [of _ ?msg] exI [of _ "hd (dm_questions ?msg)"] conjI s p) (use u in simp_all)
qed

lemma dns_query_roundtrip_witness:
  "\<exists>pkt msg rr. mg_send_dns_query True [97, 46, 98, 99] 1 160 [] = Some (161, pkt) \<and> mg_parse_dns pkt = Some (Some msg) \<and>
    dm_questions msg = [rr] \<and> mg_dns_uncompress_name msg (rr_name rr) 512 = Some ([97, 46, 98, 99, 0], 4)"
  using dns_query_roundtrip [of "[[97], [98, 99]]" 1 512 160 "[]"] by (auto simp: label_ok_def)

text \<open>Labels of 64 to 127 bytes are encoded as well, but no decoder (this one included) takes them for labels.\<close>

lemma long_label_encoded_not_decoded:
  "mg_dns_encode_name [] (replicate 64 97) 64 = Some (64 # replicate 64 97 @ [0], Some 66)"
  "uncompress_loop (64 # replicate 64 97 @ [0]) 512 0 0 [] = Some ([], 0)"
proof -
  show "mg_dns_encode_name [] (replicate 64 97) 64 = Some (64 # replicate 64 97 @ [0], Some 66)"
    using mg_dns_encode_name_labels [of "[replicate 64 97]" "[]"] by simp
  have "(64 :: byte) AND 0xc0 \<noteq> 0xc0" "unat (64 :: byte) = 64" by code_simp+
  then show "uncompress_loop (64 # replicate 64 97 @ [0]) 512 0 0 [] = Some ([], 0)" by (subst uncompress_loop_in) simp_all
qed

text \<open>A dot at the end of the name makes two zero bytes, the second of which is taken for a part of the type.\<close>

lemma trailing_dot_encoded: "mg_dns_encode_name [] [97, 46] 2 = Some ([1, 97, 0, 0], Some 4)"
  using mg_dns_encode_name_labels [of "[[97], []]" "[]"] by simp

subsection \<open>Replies\<close>

text \<open>Over TCP the two length bytes in front of a reply count what the reply's buffer holds beyond its start, that is the questions and answers without the twelve bytes of the header, which is inserted after the length was taken: the announced length is 12 less than the message's.\<close>
lemma dns_tcp_reply_length:
  assumes "length (dm_transaction_id (rp_msg r)) = 2" "rp_start r \<le> length (rp_io r)" "length (rp_io r) - rp_start r < 2 ^ 16"
    "mg_dns_send_reply False False r send = (io', send')"
  shows "\<exists>len msg. send' = send @ len @ msg \<and> length len = 2 \<and> take 12 msg = dns_header (rp_msg r) \<and>
    length msg = 12 + be len \<and> io' = take (rp_start r) (rp_io r)"
proof -
  let ?len = "to_be 2 (length (rp_io r) - rp_start r)" and ?m = "dns_header (rp_msg r) @ drop (rp_start r) (rp_io r)"
  have "send' = send @ ?len @ ?m" "io' = take (rp_start r) (rp_io r)"
    using assms(2,4) by (auto simp: mg_dns_send_reply_def mg_dns_insert_header_def insert_at_def Let_def)
  then show ?thesis using assms(1,2,3) by (intro exI [of _ ?len] exI [of _ ?m]) simp
qed

lemma dns_tcp_reply_length_witness:
  "\<exists>r io' send' len msg. rp_io r = [7, 8, 9] \<and> mg_dns_send_reply False False r [] = (io', send') \<and> send' = len @ msg \<and>
     length len = 2 \<and> length msg = 12 + be len"
proof -
  let ?r = "\<lparr>rp_msg = no_dns_message, rp_io = [7, 8, 9], rp_start = 1\<rparr>"
  obtain io' send' where s: "mg_dns_send_reply False False ?r [] = (io', send')" by fastforce
  then obtain len msg where m: "send' = [] @ len @ msg" "length len = 2" "length msg = 12 + be len"
    using dns_tcp_reply_length [OF _ _ _ s] by (auto simp: no_dns_message_def)
  show ?thesis
    by (rule exI [of _ ?r], rule exI [of _ io'], rule exI [of _ send'], rule exI [of _ len], rule exI [of _ msg])
      (use s m in simp)
qed

subsection \<open>The resolver's callback\<close>

fun resolve_run :: "resolve_event list \<Rightarrow> resolve_state \<Rightarrow> resolve_state option" where
  "resolve_run [] s = Some s"
| "resolve_run (ev # evs) s = do { s \<leftarrow> mg_resolve_async_eh ev s; resolve_run evs s }"

definition resolve_inv :: "resolve_state \<Rightarrow> bool" where
  "resolve_inv s \<longleftrightarrow> length (rs_calls s) = (if rs_req s = None then 1 else 0)"

lemma resolve_query_inv:
  "resolve_query now req s = Some s' \<Longrightarrow> rs_req s = Some req \<Longrightarrow> resolve_inv s \<Longrightarrow> resolve_inv s' \<and> rs_req s' \<noteq> None"
  by (auto simp: resolve_query_def resolve_inv_def split: if_splits)

lemma resolve_step_inv:
  assumes "mg_resolve_async_eh ev s = Some s'" "resolve_inv s"
  shows "resolve_inv s'" "ev = Rv_close \<Longrightarrow> rs_req s' = None" "rs_req s = None \<Longrightarrow> s' = s"
proof -
  show "resolve_inv s'"
  proof (cases "rs_req s")
    case (Some req)
    show ?thesis
    proof (cases ev)
      case (Rv_recv buf)
      obtain r where "mg_parse_dns buf = Some r" using assms(1) Some Rv_recv by (auto simp: mg_resolve_async_eh_def)
      then show ?thesis using assms Some Rv_recv
        by (cases r) (auto simp: mg_resolve_async_eh_def resolve_inv_def split: if_splits)
    next
      case (Rv_poll now)
      show ?thesis
      proof (cases "rq_retries req > rq_max_retries req")
        case True
        then show ?thesis using Rv_poll assms Some by (auto simp: mg_resolve_async_eh_def resolve_inv_def)
      next
        case False
        then show ?thesis using Rv_poll assms Some
          by (auto simp: mg_resolve_async_eh_def split: if_splits dest!: resolve_query_inv [OF _ Some assms(2)])
      qed
    next
      case (Rv_connect now)
      then show ?thesis using assms Some
        by (auto simp: mg_resolve_async_eh_def dest!: resolve_query_inv [OF _ Some assms(2)])
    qed (use assms Some in \<open>auto simp: mg_resolve_async_eh_def resolve_inv_def\<close>)
  qed (use assms in \<open>simp add: mg_resolve_async_eh_def\<close>)
  show "ev = Rv_close \<Longrightarrow> rs_req s' = None" using assms by (auto simp: mg_resolve_async_eh_def split: option.splits)
  show "rs_req s = None \<Longrightarrow> s' = s" using assms by (simp add: mg_resolve_async_eh_def)
qed

text \<open>C30: whatever the connection to the name server sees, the user's callback is called at most once; once the connection is closed it has been called exactly once.\<close>
theorem resolve_callback_once:
  assumes "resolve_run evs (mg_resolve_async_opt name query retries timeout tid) = Some s"
  shows "length (rs_calls s) \<le> 1 \<and> (Rv_close \<in> set evs \<longrightarrow> length (rs_calls s) = 1)"
proof -
  have "resolve_inv s \<and> (rs_req s0 = None \<or> Rv_close \<in> set evs \<longrightarrow> rs_req s = None)"
    if "resolve_run evs s0 = Some s" "resolve_inv s0" for s0
    using that
  proof (induction evs arbitrary: s0)
    case (Cons ev evs)
    then obtain s1 where "mg_resolve_async_eh ev s0 = Some s1" "resolve_run evs s1 = Some s" by auto
    then show ?case using Cons.IH [of s1] Cons.prems resolve_step_inv [of ev s0 s1] by auto
  qed simp
  then show ?thesis using assms
    by (fastforce simp: resolve_inv_def mg_resolve_async_opt_def)
qed

lemma resolve_callback_once_witness:
  "\<exists>s. resolve_run [Rv_timer, Rv_close, Rv_close] (mg_resolve_async_opt [97] 1 0 0 160) = Some s \<and> rs_calls s = [(None, MG_RESOLVE_TIMEOUT)] \<and>
    length (rs_calls s) \<le> 1"
proof -
  obtain s where s: "resolve_run [Rv_timer, Rv_close, Rv_close] (mg_resolve_async_opt [97] 1 0 0 160) = Some s"
    "rs_calls s = [(None, MG_RESOLVE_TIMEOUT)]"
    by (auto simp: mg_resolve_async_eh_def mg_resolve_async_opt_def)
  show ?thesis using s resolve_callback_once [OF s(1)] by blast
qed

end
