(* ===== verification/MgCoap.thy ===== *)
theory MgCoap
  imports Prelude
begin

text \<open>
  CoAP (mongoose/src/mg_coap.c of 3rdLib/mongoose/mongoose.c): the list of options, the parser, the composer and the
  handler of a connection. An option is its number and its value; the tail pointer of the code's list is the end of the
  list here. A pointer into the packet is a position in it. \<open>None\<close> is undefined behaviour: a token shorter than its
  length says, or a packet whose bytes are not the ones that were allocated for it.
\<close>

subsection \<open>Messages\<close>

definition MG_COAP_MSG_TYPE_FIELD :: u32 where "MG_COAP_MSG_TYPE_FIELD = 0x2"
definition MG_COAP_CODE_CLASS_FIELD :: u32 where "MG_COAP_CODE_CLASS_FIELD = 0x4"
definition MG_COAP_CODE_DETAIL_FIELD :: u32 where "MG_COAP_CODE_DETAIL_FIELD = 0x8"
definition MG_COAP_MSG_ID_FIELD :: u32 where "MG_COAP_MSG_ID_FIELD = 0x10"
definition MG_COAP_TOKEN_FIELD :: u32 where "MG_COAP_TOKEN_FIELD = 0x20"
definition MG_COAP_OPTIOMG_FIELD :: u32 where "MG_COAP_OPTIOMG_FIELD = 0x40"
definition MG_COAP_PAYLOAD_FIELD :: u32 where "MG_COAP_PAYLOAD_FIELD = 0x80"
definition MG_COAP_ERROR :: u32 where "MG_COAP_ERROR = 0x10000"
definition MG_COAP_FORMAT_ERROR :: u32 where "MG_COAP_FORMAT_ERROR = MG_COAP_ERROR OR 0x20000"
definition MG_COAP_IGNORE :: u32 where "MG_COAP_IGNORE = MG_COAP_ERROR OR 0x40000"
definition MG_COAP_NOT_ENOUGH_DATA :: u32 where "MG_COAP_NOT_ENOUGH_DATA = MG_COAP_ERROR OR 0x80000"
definition MG_COAP_MSG_ACK :: nat where "MG_COAP_MSG_ACK = 2"
definition MG_COAP_MSG_MAX :: nat where "MG_COAP_MSG_MAX = 3"

lemmas coap_fields = MG_COAP_MSG_TYPE_FIELD_def MG_COAP_CODE_CLASS_FIELD_def MG_COAP_CODE_DETAIL_FIELD_def
  MG_COAP_MSG_ID_FIELD_def MG_COAP_TOKEN_FIELD_def MG_COAP_OPTIOMG_FIELD_def MG_COAP_PAYLOAD_FIELD_def
lemmas coap_errors = MG_COAP_ERROR_def MG_COAP_FORMAT_ERROR_def MG_COAP_IGNORE_def MG_COAP_NOT_ENOUGH_DATA_def

type_synonym coap_option = "nat \<times> bytes"

record coap_message =
  cm_flags :: u32
  cm_msg_type :: nat
  cm_code_class :: nat
  cm_code_detail :: nat
  cm_msg_id :: nat
  cm_token_len :: nat
  cm_token :: bytes
  cm_options :: "coap_option list"
  cm_payload :: bytes

definition no_coap_message :: coap_message where
  "no_coap_message = \<lparr>cm_flags = 0, cm_msg_type = 0, cm_code_class = 0, cm_code_detail = 0, cm_msg_id = 0,
     cm_token_len = 0, cm_token = [], cm_options = [], cm_payload = []\<rparr>"

definition cm_raise :: "u32 \<Rightarrow> coap_message \<Rightarrow> coap_message" where
  "cm_raise f cm = cm\<lparr>cm_flags := cm_flags cm OR f\<rparr>"

definition mg_coap_free_options :: "coap_message \<Rightarrow> coap_message" where
  "mg_coap_free_options cm = cm\<lparr>cm_options := []\<rparr>"

text \<open>A new option goes to the end when it is in order, otherwise in front of the first one with a greater number.\<close>

definition add_option :: "nat \<Rightarrow> bytes \<Rightarrow> coap_option list \<Rightarrow> coap_option list" where
  "add_option number v opts =
     (if opts = [] then [(number, v)]
      else if fst (last opts) \<le> number then opts @ [(number, v)]
      else takeWhile (\<lambda>opt. fst opt \<le> number) opts @ (number, v) # dropWhile (\<lambda>opt. fst opt \<le> number) opts)"

definition mg_coap_add_option :: "nat \<Rightarrow> bytes \<Rightarrow> coap_message \<Rightarrow> coap_message" where
  "mg_coap_add_option number v cm = cm\<lparr>cm_options := add_option number v (cm_options cm)\<rparr>"

subsection \<open>Parsing\<close>

text \<open>The position behind what was read, or \<open>None\<close> for NULL.\<close>

definition coap_parse_header :: "bytes \<Rightarrow> coap_message \<Rightarrow> coap_message \<times> nat option" where
  "coap_parse_header io cm =
     (if length io < 4 then (cm_raise MG_COAP_NOT_ENOUGH_DATA cm, None)
      else if drop_bit 6 (io ! 0) \<noteq> 1 then (cm_raise MG_COAP_IGNORE cm, None)
      else
        let cm = cm_raise MG_COAP_MSG_TYPE_FIELD (cm\<lparr>cm_msg_type := unat (drop_bit 4 (io ! 0 AND 0x30))\<rparr>);
            cm = cm\<lparr>cm_token_len := unat (io ! 0 AND 0x0F)\<rparr>
        in if cm_token_len cm > 8 then (cm_raise MG_COAP_FORMAT_ERROR cm, None)
           else
             let cm = cm\<lparr>cm_code_class := unat (drop_bit 5 (io ! 1)), cm_code_detail := unat (io ! 1 AND 0x1F)\<rparr>;
                 cm = cm_raise (MG_COAP_CODE_CLASS_FIELD OR MG_COAP_CODE_DETAIL_FIELD) cm;
                 cm = cm_raise MG_COAP_MSG_ID_FIELD (cm\<lparr>cm_msg_id := be [io ! 2, io ! 3]\<rparr>)
             in (cm, Some 4))"

definition coap_get_token :: "bytes \<Rightarrow> nat \<Rightarrow> coap_message \<Rightarrow> coap_message \<times> nat option" where
  "coap_get_token io p cm =
     (if cm_token_len cm \<noteq> 0 then
        (if p + cm_token_len cm > length io then (cm_raise MG_COAP_NOT_ENOUGH_DATA cm, None)
         else (cm_raise MG_COAP_TOKEN_FIELD (cm\<lparr>cm_token := take (cm_token_len cm) (drop p io)\<rparr>), Some (p + cm_token_len cm)))
      else (cm, Some p))"

text \<open>How many bytes the extended value takes and the value, a uint16_t; \<open>None\<close> is -1.\<close>

definition coap_get_ext_opt :: "bytes \<Rightarrow> nat \<Rightarrow> nat \<Rightarrow> (nat \<times> nat) option" where
  "coap_get_ext_opt io p opt_info =
     (if opt_info = 13 then
        (if p < length io then Some (1, unat (io ! p) + 13) else None)
      else if opt_info = 14 then
        (if p + 1 < length io then Some (2, (be [io ! p, io ! (p + 1)] + 269) mod 2 ^ 16) else None)
      else Some (0, opt_info))"

function coap_options_loop :: "bytes \<Rightarrow> nat \<Rightarrow> nat \<Rightarrow> coap_message \<Rightarrow> coap_message \<times> nat" where
  "coap_options_loop io p prev_opt cm =
     (if p < length io \<and> io ! p \<noteq> 0xFF then
        (let delta = unat (drop_bit 4 (io ! p AND 0xF0)); len = unat (io ! p AND 0x0F) in
         if delta = 15 \<or> len = 15 then (cm_raise MG_COAP_FORMAT_ERROR cm, p)
         else
           (case coap_get_ext_opt io (p + 1) delta of
              None \<Rightarrow> (cm_raise MG_COAP_NOT_ENOUGH_DATA cm, p + 1)
            | Some (n1, delta) \<Rightarrow>
                (case coap_get_ext_opt io (p + 1 + n1) len of
                   None \<Rightarrow> (cm_raise MG_COAP_NOT_ENOUGH_DATA cm, p + 1 + n1)
                 | Some (n2, len) \<Rightarrow>
                     (let q = p + 1 + n1 + n2; number = (delta + prev_opt) mod 2 ^ 16;
                          cm = mg_coap_add_option number (take len (drop q io)) cm in
                      if q + len > length io then (cm_raise MG_COAP_NOT_ENOUGH_DATA cm, q)
                      else coap_options_loop io (q + len) number cm))))
      else (cm, p))"
  by pat_completeness auto
termination by (relation "measure (\<lambda>(io, p, _). length io - p)") auto

declare coap_options_loop.simps [simp del]

definition coap_get_options :: "bytes \<Rightarrow> nat \<Rightarrow> coap_message \<Rightarrow> coap_message \<times> nat option" where
  "coap_get_options io p cm =
     (if p = length io then (cm, None)
      else
        let (cm, p) = coap_options_loop io p 0 cm in
        if cm_flags cm AND MG_COAP_ERROR \<noteq> 0 then (mg_coap_free_options cm, None)
        else
          let cm = cm_raise MG_COAP_OPTIOMG_FIELD cm in
          if p = length io then (cm, None) else (cm, Some (p + 1)))"

definition mg_coap_parse :: "bytes \<Rightarrow> coap_message" where
  "mg_coap_parse io =
     (case coap_parse_header io no_coap_message of
        (cm, None) \<Rightarrow> cm
      | (cm, Some p) \<Rightarrow>
          (case coap_get_token io p cm of
             (cm, None) \<Rightarrow> cm
           | (cm, Some p) \<Rightarrow>
               (case coap_get_options io p cm of
                  (cm, None) \<Rightarrow> cm
                | (cm, Some p) \<Rightarrow>
                    (if length io - p \<noteq> 0 then cm_raise MG_COAP_PAYLOAD_FIELD (cm\<lparr>cm_payload := drop p io\<rparr>) else cm))))"

subsection \<open>Composing\<close>

definition coap_get_ext_opt_size :: "nat \<Rightarrow> nat" where
  "coap_get_ext_opt_size v =
     (if v \<ge> 13 \<and> v \<le> 0xFF + 13 then 1 else if v > 0xFF + 13 \<and> v \<le> 0xFFFF + 269 then 2 else 0)"

text \<open>The length of the extension, the base and the extension.\<close>

definition coap_split_opt :: "nat \<Rightarrow> nat \<times> nat \<times> nat" where
  "coap_split_opt v =
     (if v < 13 then (0, v, 0)
      else if v \<ge> 13 \<and> v \<le> 0xFF + 13 then (1, 13, v - 13)
      else if v > 0xFF + 13 \<and> v \<le> 0xFFFF + 269 then (2, 14, v - 269)
      else (0, 0, 0))"

definition coap_add_uint16 :: "nat \<Rightarrow> bytes" where
  "coap_add_uint16 v = [of_nat (v div 256), of_nat (v mod 256)]"

definition coap_add_opt_info :: "nat \<Rightarrow> nat \<Rightarrow> bytes" where
  "coap_add_opt_info v len = (if len = 1 then [of_nat v] else if len = 2 then coap_add_uint16 v else [])"

text \<open>The result is the error code or the sum of the sizes.\<close>

fun options_size :: "nat \<Rightarrow> coap_option list \<Rightarrow> u32 + nat" where
  "options_size prev [] = Inr 0"
| "options_size prev ((number, v) # opts) =
     (let len = 1 + coap_get_ext_opt_size (number - prev) + coap_get_ext_opt_size (length v) in
      if (opts \<noteq> [] \<and> number > fst (hd opts)) \<or> length v > 0xFFFF + 269 \<or> number - prev > 0xFFFF + 269
      then Inl (MG_COAP_ERROR OR MG_COAP_OPTIOMG_FIELD)
      else (case options_size number opts of Inl e \<Rightarrow> Inl e | Inr n \<Rightarrow> Inr (len + length v + n)))"

definition coap_calculate_packet_size :: "coap_message \<Rightarrow> u32 + nat" where
  "coap_calculate_packet_size cm =
     (if cm_msg_type cm > MG_COAP_MSG_MAX then Inl (MG_COAP_ERROR OR MG_COAP_MSG_TYPE_FIELD)
      else if cm_token_len cm > 8 then Inl (MG_COAP_ERROR OR MG_COAP_TOKEN_FIELD)
      else if cm_code_class cm > 7 then Inl (MG_COAP_ERROR OR MG_COAP_CODE_CLASS_FIELD)
      else if cm_code_detail cm > 31 then Inl (MG_COAP_ERROR OR MG_COAP_CODE_DETAIL_FIELD)
      else
        let len = 4 + cm_token_len cm + (if length (cm_payload cm) \<noteq> 0 then length (cm_payload cm) + 1 else 0) in
        (case options_size 0 (cm_options cm) of Inl e \<Rightarrow> Inl e | Inr n \<Rightarrow> Inr (len + n)))"

fun options_bytes :: "nat \<Rightarrow> coap_option list \<Rightarrow> bytes" where
  "options_bytes prev [] = []"
| "options_bytes prev ((number, v) # opts) =
     (let (dn, delta_base, delta_ext) = coap_split_opt (number - prev);
          (ln, length_base, length_ext) = coap_split_opt (length v)
      in (push_bit 4 (of_nat delta_base) OR of_nat length_base)
         # coap_add_opt_info delta_ext dn @ coap_add_opt_info length_ext ln @ v @ options_bytes number opts)"

definition mg_coap_compose :: "coap_message \<Rightarrow> bytes \<Rightarrow> (u32 \<times> bytes) option" where
  "mg_coap_compose cm io =
     (case coap_calculate_packet_size cm of
        Inl e \<Rightarrow> Some (e, io)
      | Inr packet_size \<Rightarrow>
          (let out = [push_bit 6 1 OR push_bit 4 (of_nat (cm_msg_type cm)) OR of_nat (cm_token_len cm),
                      push_bit 5 (of_nat (cm_code_class cm)) OR of_nat (cm_code_detail cm)]
                 @ coap_add_uint16 (cm_msg_id cm) @ take (cm_token_len cm) (cm_token cm)
                 @ options_bytes 0 (cm_options cm)
                 @ (if length (cm_payload cm) \<noteq> 0 then 0xFF # cm_payload cm else [])
           in if length (cm_token cm) \<ge> cm_token_len cm \<and> length out = packet_size then Some (0, io @ out) else None))"

definition mg_coap_send_message :: "coap_message \<Rightarrow> bytes \<Rightarrow> (u32 \<times> bytes) option" where
  "mg_coap_send_message cm send = do {
     (res, packet_out) \<leftarrow> mg_coap_compose cm [];
     Some (if res \<noteq> 0 then (res, send) else (0, send @ packet_out)) }"

definition mg_coap_send_ack :: "nat \<Rightarrow> bytes \<Rightarrow> (u32 \<times> bytes) option" where
  "mg_coap_send_ack msg_id send =
     mg_coap_send_message (no_coap_message\<lparr>cm_msg_type := MG_COAP_MSG_ACK, cm_msg_id := msg_id\<rparr>) send"

text \<open>
  The handler of a connection on new data: the user's handler gets the event itself (\<open>None\<close>) and then the message;
  afterwards the receive buffer is empty.
\<close>

definition coap_handler_recv :: "(coap_message option \<Rightarrow> 's \<Rightarrow> 's) \<Rightarrow> bytes \<Rightarrow> 's \<Rightarrow> 's \<times> bytes" where
  "coap_handler_recv h recv s =
     (let s = h None s;
          cm = mg_coap_parse recv;
          s = (if cm_flags cm AND MG_COAP_IGNORE = 0 then
                 h (Some (if cm_flags cm AND MG_COAP_NOT_ENOUGH_DATA \<noteq> 0 then cm_raise MG_COAP_FORMAT_ERROR cm else cm)) s
               else s)
      in (s, []))"


subsection \<open>Options\<close>

lemma options_size_bytes:
  "options_size prev opts = Inr n \<Longrightarrow> length (options_bytes prev opts) = n"
proof (induction prev opts arbitrary: n rule: options_size.induct)
  case (2 prev number v opts)
  have s: "length (coap_add_opt_info e k) = k" if "coap_split_opt x = (k, b, e)" for x k b e
    using that by (auto simp: coap_split_opt_def coap_add_opt_info_def coap_add_uint16_def split: if_splits)
  have k: "fst (coap_split_opt x) = coap_get_ext_opt_size x" for x
    by (simp add: coap_split_opt_def coap_get_ext_opt_size_def)
  obtain dn db de ln lb le where d: "coap_split_opt (number - prev) = (dn, db, de)" "coap_split_opt (length v) = (ln, lb, le)"
    by (metis prod_cases3)
  obtain m where m: "options_size number opts = Inr m" "n = 1 + dn + ln + length v + m"
    using 2(2) k [of "number - prev"] k [of "length v"] d by (auto simp: Let_def split: if_splits sum.splits)
  have "length (options_bytes number opts) = m"
    using 2(1) [OF refl _ m(1)] 2(2) m(1) by (auto simp: Let_def split: if_splits)
  then show ?case using d s m by simp
qed simp

text \<open>A value of an option header that the composer writes and the parser, which keeps sixteen bits, reads back.\<close>

lemma nibble_byte:
  assumes "a < 16" "b < 16"
  shows "unat (drop_bit 4 ((push_bit 4 (of_nat a) OR of_nat b :: byte) AND 0xF0)) = a"
    "unat ((push_bit 4 (of_nat a) OR of_nat b :: byte) AND 0x0F) = b"
    "a < 15 \<Longrightarrow> (push_bit 4 (of_nat a) OR of_nat b :: byte) \<noteq> 0xFF"
proof -
  have "\<forall>a \<in> set [0..<16]. \<forall>b \<in> set [0..<16]. unat (drop_bit 4 ((push_bit 4 (of_nat a) OR of_nat b :: byte) AND 0xF0)) = a \<and>
      unat ((push_bit 4 (of_nat a) OR of_nat b :: byte) AND 0x0F) = b \<and>
      (a < 15 \<longrightarrow> (push_bit 4 (of_nat a) OR of_nat b :: byte) \<noteq> 0xFF)" by code_simp
  moreover have "a \<in> set [0..<16]" "b \<in> set [0..<16]" using assms by simp_all
  ultimately show "unat (drop_bit 4 ((push_bit 4 (of_nat a) OR of_nat b :: byte) AND 0xF0)) = a"
    "unat ((push_bit 4 (of_nat a) OR of_nat b :: byte) AND 0x0F) = b"
    "a < 15 \<Longrightarrow> (push_bit 4 (of_nat a) OR of_nat b :: byte) \<noteq> 0xFF" by blast+
qed

lemma ext_opt_at:
  assumes "coap_split_opt v = (k, b, e)" "v < 2 ^ 16" "io = pre @ coap_add_opt_info e k @ post" "p = length pre"
  shows "coap_get_ext_opt io p b = Some (k, v)" "b < 15" "length (coap_add_opt_info e k) = k"
proof -
  have l: "length (coap_add_opt_info e k) = k" "b < 15"
    using assms(1) by (auto simp: coap_split_opt_def coap_add_opt_info_def coap_add_uint16_def split: if_splits)
  then show "b < 15" "length (coap_add_opt_info e k) = k" by simp_all
  consider (small) "v < 13" | (one) "13 \<le> v" "v \<le> 268" | (two) "268 < v" by linarith
  then show "coap_get_ext_opt io p b = Some (k, v)"
  proof cases
    case small
    then show ?thesis using assms(1) by (auto simp: coap_split_opt_def coap_get_ext_opt_def)
  next
    case one
    then have e: "k = 1" "b = 13" "e = v - 13" using assms(1) by (auto simp: coap_split_opt_def)
    have "unat (of_nat (v - 13) :: byte) = v - 13" using one by (simp add: unat_of_nat del: of_nat_diff)
    then show ?thesis using e one assms(3,4) by (simp add: coap_get_ext_opt_def coap_add_opt_info_def nth_append)
  next
    case two
    then have e: "k = 2" "b = 14" "e = v - 269" using assms(1,2) by (auto simp: coap_split_opt_def)
    have u: "unat (of_nat ((v - 269) div 256) :: byte) = (v - 269) div 256" "unat (of_nat ((v - 269) mod 256) :: byte) = (v - 269) mod 256"
      using assms(2) by (simp_all add: unat_of_nat)
    have "be [of_nat ((v - 269) div 256), of_nat ((v - 269) mod 256)] = v - 269" by (simp add: be_def u)
    then show ?thesis using e two assms(2,3,4)
      by (simp add: coap_get_ext_opt_def coap_add_opt_info_def coap_add_uint16_def nth_append)
  qed
qed

definition options_ok :: "nat \<Rightarrow> coap_option list \<Rightarrow> bool" where
  "options_ok prev opts \<longleftrightarrow> sorted (prev # map fst opts) \<and> (\<forall>(n, v) \<in> set opts. n < 2 ^ 16 \<and> length v < 2 ^ 16)"

lemma add_option_last: "list_all (\<lambda>opt. fst opt \<le> n) opts \<Longrightarrow> add_option n v opts = opts @ [(n, v)]"
  by (cases opts rule: rev_cases) (simp_all add: add_option_def)

lemma options_loop_bytes:
  assumes "options_ok prev opts" "list_all (\<lambda>opt. fst opt \<le> prev) (cm_options cm)"
    "io = pre @ options_bytes prev opts @ post" "p = length pre" "post = [] \<or> hd post = 0xFF"
  shows "coap_options_loop io p prev cm = (cm\<lparr>cm_options := cm_options cm @ opts\<rparr>, p + length (options_bytes prev opts))"
  using assms
proof (induction opts arbitrary: prev cm pre p)
  case Nil
  then have "\<not> (p < length io \<and> io ! p \<noteq> 0xFF)" by (cases post) auto
  then show ?case by (subst coap_options_loop.simps) auto
next
  case (Cons x opts)
  obtain n v where x: "x = (n, v)" by (cases x)
  obtain dn db de where d: "coap_split_opt (n - prev) = (dn, db, de)" by (metis prod_cases3)
  obtain ln lb le where l: "coap_split_opt (length v) = (ln, lb, le)" by (metis prod_cases3)
  have ok: "prev \<le> n" "n < 2 ^ 16" "length v < 2 ^ 16" "options_ok n opts" using Cons.prems(1) x by (auto simp: options_ok_def)
  let ?b = "push_bit 4 (of_nat db) OR of_nat lb :: byte"
  let ?rest = "options_bytes n opts @ post"
  have io: "io = pre @ ?b # coap_add_opt_info de dn @ coap_add_opt_info le ln @ v @ ?rest"
    using Cons.prems(3) x d l by simp
  have dd: "coap_get_ext_opt io (p + 1) db = Some (dn, n - prev)" "db < 15" "length (coap_add_opt_info de dn) = dn"
    using ext_opt_at [OF d, of io "pre @ [?b]" "coap_add_opt_info le ln @ v @ ?rest" "p + 1"] ok(2) Cons.prems(4) io by auto
  have ll: "coap_get_ext_opt io (p + 1 + dn) lb = Some (ln, length v)" "lb < 15" "length (coap_add_opt_info le ln) = ln"
    using ext_opt_at [OF l, of io "pre @ ?b # coap_add_opt_info de dn" "v @ ?rest" "p + 1 + dn"] ok(3) Cons.prems(4) io dd(3) by auto
  have a: "list_all (\<lambda>opt. fst opt \<le> n) (cm_options cm)"
    using Cons.prems(2) ok(1) by (auto simp: list_all_iff intro: order_trans)
  have "io ! p = ?b" "p < length io" using io Cons.prems(4) by simp_all
  moreover have "take (length v) (drop (p + 1 + dn + ln) io) = v" "\<not> p + 1 + dn + ln + length v > length io"
    using io Cons.prems(4) dd(3) ll(3) by simp_all
  moreover have "(n - prev + prev) mod 2 ^ 16 = n" using ok by simp
  moreover have "mg_coap_add_option n v cm = cm\<lparr>cm_options := cm_options cm @ [(n, v)]\<rparr>"
    using a by (simp add: mg_coap_add_option_def add_option_last)
  ultimately have "coap_options_loop io p prev cm = coap_options_loop io (p + 1 + dn + ln + length v) n (cm\<lparr>cm_options := cm_options cm @ [(n, v)]\<rparr>)"
    using dd ll nibble_byte [of db lb] by (subst coap_options_loop.simps) (simp add: Let_def)
  also have "\<dots> = (cm\<lparr>cm_options := (cm_options cm @ [(n, v)]) @ opts\<rparr>, p + 1 + dn + ln + length v + length (options_bytes n opts))"
    using Cons.IH [OF ok(4), of "cm\<lparr>cm_options := cm_options cm @ [(n, v)]\<rparr>" "pre @ ?b # coap_add_opt_info de dn @ coap_add_opt_info le ln @ v"
        "p + 1 + dn + ln + length v"] Cons.prems(4,5) a io dd(3) ll(3)
    by simp
  finally show ?case using x d l dd(3) ll(3) by simp
qed

subsection \<open>A message\<close>

definition coap_ok :: "coap_message \<Rightarrow> bool" where
  "coap_ok cm \<longleftrightarrow> cm_msg_type cm \<le> 3 \<and> cm_code_class cm \<le> 7 \<and> cm_code_detail cm \<le> 31 \<and> cm_msg_id cm < 2 ^ 16 \<and>
     cm_token_len cm = length (cm_token cm) \<and> cm_token_len cm \<le> 8 \<and> options_ok 0 (cm_options cm)"

lemma options_size_ok: "options_ok prev opts \<Longrightarrow> options_size prev opts = Inr (length (options_bytes prev opts))"
proof -
  have "\<exists>n. options_size prev opts = Inr n" if "options_ok prev opts"
    using that
  proof (induction prev opts rule: options_size.induct)
    case (2 prev number v opts)
    have "\<not> ((opts \<noteq> [] \<and> number > fst (hd opts)) \<or> length v > 0xFFFF + 269 \<or> number - prev > 0xFFFF + 269)"
      "options_ok number opts"
      using "2.prems" by (cases opts; auto simp: options_ok_def)+
    then show ?case using 2(1) [OF refl] by (auto simp: Let_def)
  qed simp
  then show "options_ok prev opts \<Longrightarrow> ?thesis" using options_size_bytes by blast
qed

definition coap_head :: "coap_message \<Rightarrow> bytes" where
  "coap_head cm = [push_bit 6 1 OR push_bit 4 (of_nat (cm_msg_type cm)) OR of_nat (cm_token_len cm),
     push_bit 5 (of_nat (cm_code_class cm)) OR of_nat (cm_code_detail cm)] @ coap_add_uint16 (cm_msg_id cm)"

definition coap_wire :: "coap_message \<Rightarrow> bytes" where
  "coap_wire cm = coap_head cm @ cm_token cm @ options_bytes 0 (cm_options cm)
     @ (if cm_payload cm \<noteq> [] then 0xFF # cm_payload cm else [])"

lemma length_coap_head [simp]: "length (coap_head cm) = 4"
  by (simp add: coap_head_def coap_add_uint16_def)

lemma mg_coap_compose_ok: "coap_ok cm \<Longrightarrow> mg_coap_compose cm io = Some (0, io @ coap_wire cm)"
  using options_size_ok [of 0 "cm_options cm"]
  by (simp add: mg_coap_compose_def coap_calculate_packet_size_def coap_ok_def MG_COAP_MSG_MAX_def coap_wire_def coap_head_def
      coap_add_uint16_def Let_def)

lemma coap_head_bits:
  assumes "t \<le> 3" "k \<le> 8"
  shows "drop_bit 6 (push_bit 6 1 OR push_bit 4 (of_nat t) OR of_nat k :: byte) = 1"
    "unat (drop_bit 4 ((push_bit 6 1 OR push_bit 4 (of_nat t) OR of_nat k :: byte) AND 0x30)) = t"
    "unat ((push_bit 6 1 OR push_bit 4 (of_nat t) OR of_nat k :: byte) AND 0x0F) = k"
proof -
  have "\<forall>t \<in> set [0..<4]. \<forall>k \<in> set [0..<9]. drop_bit 6 (push_bit 6 1 OR push_bit 4 (of_nat t) OR of_nat k :: byte) = 1 \<and>
    unat (drop_bit 4 ((push_bit 6 1 OR push_bit 4 (of_nat t) OR of_nat k :: byte) AND 0x30)) = t \<and>
    unat ((push_bit 6 1 OR push_bit 4 (of_nat t) OR of_nat k :: byte) AND 0x0F) = k" by code_simp
  moreover have "t \<in> set [0..<4]" "k \<in> set [0..<9]" using assms by simp_all
  ultimately show "drop_bit 6 (push_bit 6 1 OR push_bit 4 (of_nat t) OR of_nat k :: byte) = 1"
    "unat (drop_bit 4 ((push_bit 6 1 OR push_bit 4 (of_nat t) OR of_nat k :: byte) AND 0x30)) = t"
    "unat ((push_bit 6 1 OR push_bit 4 (of_nat t) OR of_nat k :: byte) AND 0x0F) = k" by blast+
qed

lemma coap_code_bits:
  assumes "c \<le> 7" "d \<le> 31"
  shows "unat (drop_bit 5 (push_bit 5 (of_nat c) OR of_nat d :: byte)) = c"
    "unat ((push_bit 5 (of_nat c) OR of_nat d :: byte) AND 0x1F) = d"
proof -
  have "\<forall>c \<in> set [0..<8]. \<forall>d \<in> set [0..<32]. unat (drop_bit 5 (push_bit 5 (of_nat c) OR of_nat d :: byte)) = c \<and>
    unat ((push_bit 5 (of_nat c) OR of_nat d :: byte) AND 0x1F) = d" by code_simp
  moreover have "c \<in> set [0..<8]" "d \<in> set [0..<32]" using assms by simp_all
  ultimately show "unat (drop_bit 5 (push_bit 5 (of_nat c) OR of_nat d :: byte)) = c"
    "unat ((push_bit 5 (of_nat c) OR of_nat d :: byte) AND 0x1F) = d" by blast+
qed

lemma coap_uint16_be: "v < 2 ^ 16 \<Longrightarrow> be (coap_add_uint16 v) = v"
  by (simp add: coap_add_uint16_def be_def unat_of_nat)

abbreviation coap_head_fields :: "coap_message \<Rightarrow> coap_message \<Rightarrow> bool" where
  "coap_head_fields cm cm' \<equiv> cm_msg_type cm' = cm_msg_type cm \<and> cm_code_class cm' = cm_code_class cm \<and>
     cm_code_detail cm' = cm_code_detail cm \<and> cm_msg_id cm' = cm_msg_id cm \<and> cm_token_len cm' = cm_token_len cm"

lemma parse_header_wire:
  assumes "coap_ok cm" "io = coap_head cm @ rest"
  shows "\<exists>h. coap_parse_header io no_coap_message = (h, Some 4) \<and> coap_head_fields cm h \<and> cm_token h = [] \<and> cm_options h = [] \<and>
    cm_payload h = [] \<and> cm_flags h AND MG_COAP_ERROR = 0"
proof -
  have ok: "cm_msg_type cm \<le> 3" "cm_token_len cm \<le> 8" "cm_code_class cm \<le> 7" "cm_code_detail cm \<le> 31" "cm_msg_id cm < 2 ^ 16"
    using assms(1) by (auto simp: coap_ok_def)
  have io: "io ! 0 = push_bit 6 1 OR push_bit 4 (of_nat (cm_msg_type cm)) OR of_nat (cm_token_len cm)"
    "io ! 1 = push_bit 5 (of_nat (cm_code_class cm)) OR of_nat (cm_code_detail cm)"
    "[io ! 2, io ! 3] = coap_add_uint16 (cm_msg_id cm)" "\<not> length io < 4"
    by (simp_all add: assms(2) coap_head_def coap_add_uint16_def)
  show ?thesis
    unfolding coap_parse_header_def io Let_def coap_uint16_be [OF ok(5)] cm_raise_def
    using coap_head_bits [OF ok(1,2)] coap_code_bits [OF ok(3,4)] ok(2) io(4)
    by (simp add: no_coap_message_def coap_fields MG_COAP_ERROR_def)
qed

text \<open>C27: a composed message parses back to itself: type, code, identifier, token, options in order and payload, and no error flag is set; this holds for ordered options whose numbers and lengths fit the parser's sixteen bits.\<close>
theorem coap_roundtrip:
  assumes "coap_ok cm"
  shows "\<exists>wire. mg_coap_compose cm io = Some (0, io @ wire) \<and>
    (\<exists>flags. mg_coap_parse wire = cm\<lparr>cm_flags := flags\<rparr> \<and> flags AND MG_COAP_ERROR = 0)"
proof -
  let ?o = "options_bytes 0 (cm_options cm)" and ?p = "if cm_payload cm \<noteq> [] then 0xFF # cm_payload cm else []"
  have wire: "coap_wire cm = coap_head cm @ cm_token cm @ ?o @ ?p" by (simp add: coap_wire_def)
  obtain h where h: "coap_parse_header (coap_wire cm) no_coap_message = (h, Some 4)" "coap_head_fields cm h" "cm_token h = []"
    "cm_options h = []" "cm_payload h = []" "cm_flags h AND MG_COAP_ERROR = 0"
    using parse_header_wire [OF assms wire] by blast
  have tk: "cm_token_len cm = length (cm_token cm)" "options_ok 0 (cm_options cm)" using assms by (auto simp: coap_ok_def)
  have e: "(f OR g) AND MG_COAP_ERROR = 0" if "f AND MG_COAP_ERROR = 0" "g AND MG_COAP_ERROR = 0" for f g
    using that by (simp add: bit.conj_disj_distrib2)
  have fl: "MG_COAP_TOKEN_FIELD AND MG_COAP_ERROR = 0" "MG_COAP_OPTIOMG_FIELD AND MG_COAP_ERROR = 0"
    "MG_COAP_PAYLOAD_FIELD AND MG_COAP_ERROR = 0" by (simp_all add: coap_fields MG_COAP_ERROR_def)
  define g where "g = (if cm_token cm \<noteq> [] then cm_raise MG_COAP_TOKEN_FIELD (h\<lparr>cm_token := cm_token cm\<rparr>) else h)"
  have "take (cm_token_len h) (drop 4 (coap_wire cm)) = cm_token cm" using h(2) tk by (simp add: wire)
  then have "coap_get_token (coap_wire cm) 4 h = (g, Some (4 + length (cm_token cm)))"
    using h(2) tk by (simp add: coap_get_token_def g_def wire)
  moreover have "coap_head_fields cm g" "cm_token g = cm_token cm" "cm_options g = []" "cm_payload g = []"
    "cm_flags g AND MG_COAP_ERROR = 0" using h e [OF h(6) fl(1)] by (simp_all add: g_def cm_raise_def)
  ultimately have g: "coap_get_token (coap_wire cm) 4 h = (g, Some (4 + length (cm_token cm)))" "coap_head_fields cm g"
    "cm_token g = cm_token cm" "cm_options g = []" "cm_payload g = []" "cm_flags g AND MG_COAP_ERROR = 0" by simp_all
  let ?q = "4 + length (cm_token cm)"
  have loop: "coap_options_loop (coap_wire cm) ?q 0 g = (g\<lparr>cm_options := cm_options cm\<rparr>, ?q + length ?o)"
    using options_loop_bytes [OF tk(2), of g "coap_wire cm" "coap_head cm @ cm_token cm" ?p ?q] g(4) by (simp add: wire)
  have lw: "length (coap_wire cm) = ?q + length ?o + length ?p" by (simp add: wire)
  have dr: "cm_payload cm \<noteq> [] \<Longrightarrow> drop (Suc (?q + length ?o)) (coap_wire cm) = cm_payload cm" by (simp add: wire)
  have "\<exists>flags. mg_coap_parse (coap_wire cm) = cm\<lparr>cm_flags := flags\<rparr> \<and> flags AND MG_COAP_ERROR = 0"
  proof (cases "cm_options cm = [] \<and> cm_payload cm = []")
    case True
    then have "?q = length (coap_wire cm)" by (simp add: wire)
    then have "mg_coap_parse (coap_wire cm) = g" by (simp add: mg_coap_parse_def h(1) g(1) coap_get_options_def)
    moreover have "g = cm\<lparr>cm_flags := cm_flags g\<rparr>" using g True by (intro coap_message.equality) simp_all
    ultimately show ?thesis using g(6) by metis
  next
    case False
    then have q: "?q \<noteq> length (coap_wire cm)" by (cases "cm_options cm") (auto simp: wire split: if_splits prod.splits)
    define k where "k = cm_raise MG_COAP_OPTIOMG_FIELD (g\<lparr>cm_options := cm_options cm\<rparr>)"
    have kf: "cm_flags k AND MG_COAP_ERROR = 0" using e [OF g(6) fl(2)] by (simp add: k_def cm_raise_def)
    show ?thesis
    proof (cases "cm_payload cm = []")
      case True
      then have "mg_coap_parse (coap_wire cm) = k"
        using q g(6) lw by (simp add: mg_coap_parse_def h(1) g(1) coap_get_options_def loop k_def Let_def)
      moreover have "k = cm\<lparr>cm_flags := cm_flags k\<rparr>" using g True
        by (intro coap_message.equality) (simp_all add: k_def cm_raise_def)
      ultimately show ?thesis using kf by metis
    next
      case False
      then have "mg_coap_parse (coap_wire cm) = cm_raise MG_COAP_PAYLOAD_FIELD (k\<lparr>cm_payload := cm_payload cm\<rparr>)"
        using q g(6) lw dr by (simp add: mg_coap_parse_def h(1) g(1) coap_get_options_def loop k_def Let_def)
      moreover have "cm_raise MG_COAP_PAYLOAD_FIELD (k\<lparr>cm_payload := cm_payload cm\<rparr>) = cm\<lparr>cm_flags := cm_flags k OR MG_COAP_PAYLOAD_FIELD\<rparr>"
        using g by (intro coap_message.equality) (simp_all add: k_def cm_raise_def)
      ultimately show ?thesis using e [OF kf fl(3)] by metis
    qed
  qed
  then show ?thesis using mg_coap_compose_ok [OF assms] by blast
qed

lemma coap_roundtrip_witness:
  "\<exists>wire flags. mg_coap_compose (no_coap_message\<lparr>cm_msg_type := 1, cm_token_len := 1, cm_token := [9], cm_options := [(3, [97]), (11, [])], cm_payload := [1, 2]\<rparr>) []
    = Some (0, wire) \<and>
    mg_coap_parse wire = no_coap_message\<lparr>cm_flags := flags, cm_msg_type := 1, cm_token_len := 1, cm_token := [9], cm_options := [(3, [97]), (11, [])], cm_payload := [1, 2]\<rparr>"
proof -
  let ?cm = "no_coap_message\<lparr>cm_msg_type := 1, cm_token_len := 1, cm_token := [9], cm_options := [(3, [97]), (11, [])], cm_payload := [1, 2]\<rparr>"
  have "coap_ok ?cm" by (simp add: coap_ok_def options_ok_def no_coap_message_def)
  from coap_roundtrip [OF this, of "[]"] obtain wire flags
    where "mg_coap_compose ?cm [] = Some (0, wire)" "mg_coap_parse wire = ?cm\<lparr>cm_flags := flags\<rparr>" by auto
  then show ?thesis by (intro exI [of _ wire] exI [of _ flags]) (simp add: no_coap_message_def)
qed

subsection \<open>Errors\<close>

text \<open>The bits of the error codes are never set without the general error bit.\<close>

definition flags_ok :: "u32 \<Rightarrow> bool" where
  "flags_ok f \<longleftrightarrow> (bit f 18 \<or> bit f 19 \<longrightarrow> bit f 16)"

lemma flags_ok_or: "flags_ok f \<Longrightarrow> flags_ok g \<Longrightarrow> flags_ok (f OR g)"
  by (auto simp: flags_ok_def bit_or_iff)

lemma flags_ok_consts:
  "flags_ok MG_COAP_MSG_TYPE_FIELD" "flags_ok (MG_COAP_CODE_CLASS_FIELD OR MG_COAP_CODE_DETAIL_FIELD)" "flags_ok MG_COAP_MSG_ID_FIELD"
  "flags_ok MG_COAP_TOKEN_FIELD" "flags_ok MG_COAP_OPTIOMG_FIELD" "flags_ok MG_COAP_PAYLOAD_FIELD"
  "flags_ok MG_COAP_NOT_ENOUGH_DATA" "flags_ok MG_COAP_IGNORE" "flags_ok MG_COAP_FORMAT_ERROR" "flags_ok 0"
  by (simp_all add: flags_ok_def coap_fields coap_errors bit_or_iff bit_numeral_rec)

lemma flags_ok_raise: "flags_ok (cm_flags cm) \<Longrightarrow> flags_ok f \<Longrightarrow> flags_ok (cm_flags (cm_raise f cm))"
  by (simp add: cm_raise_def flags_ok_or)

lemma flags_ok_loop: "flags_ok (cm_flags cm) \<Longrightarrow> flags_ok (cm_flags (fst (coap_options_loop io p prev cm)))"
proof (induction "length io - p" arbitrary: p prev cm rule: less_induct)
  case less
  have a: "flags_ok (cm_flags (mg_coap_add_option n v cm))" for n v using less.prems by (simp add: mg_coap_add_option_def)
  show ?case
    by (subst coap_options_loop.simps)
      (auto simp: Let_def a flags_ok_raise flags_ok_consts less.prems intro!: less.hyps split: option.split)
qed

lemma flags_ok_parse: "flags_ok (cm_flags (mg_coap_parse io))"
proof -
  have h: "flags_ok (cm_flags (fst (coap_parse_header io no_coap_message)))"
    by (simp add: coap_parse_header_def Let_def flags_ok_raise flags_ok_consts no_coap_message_def cm_raise_def flags_ok_or)
  have k: "flags_ok (cm_flags cm) \<Longrightarrow> flags_ok (cm_flags (fst (coap_get_token io p cm)))" for p cm
    by (simp add: coap_get_token_def flags_ok_raise flags_ok_consts)
  have o: "flags_ok (cm_flags cm) \<Longrightarrow> flags_ok (cm_flags (fst (coap_get_options io p cm)))" for p cm
    using flags_ok_loop [of cm io p 0]
    by (auto simp: coap_get_options_def Let_def mg_coap_free_options_def flags_ok_raise flags_ok_consts split: prod.split)
  show ?thesis
  proof (cases "coap_parse_header io no_coap_message")
    case (Pair cm1 r1)
    note 1 = Pair
    have f1: "flags_ok (cm_flags cm1)" using h 1 by simp
    show ?thesis
    proof (cases r1)
      case (Some p1)
      obtain cm2 r2 where 2: "coap_get_token io p1 cm1 = (cm2, r2)" by fastforce
      have f2: "flags_ok (cm_flags cm2)" using k [OF f1, of p1] 2 by simp
      show ?thesis
      proof (cases r2)
        case (Some p2)
        obtain cm3 r3 where 3: "coap_get_options io p2 cm2 = (cm3, r3)" by fastforce
        have "flags_ok (cm_flags cm3)" using o [OF f2, of p2] 3 by simp
        then show ?thesis using 1 2 3 \<open>r1 = Some p1\<close> Some
          by (cases r3) (simp_all add: mg_coap_parse_def flags_ok_raise flags_ok_consts)
      qed (use 1 2 f2 \<open>r1 = Some p1\<close> in \<open>simp add: mg_coap_parse_def\<close>)
    qed (use 1 f1 in \<open>simp add: mg_coap_parse_def\<close>)
  qed
qed

text \<open>the handler gives a message to the user exactly when the parser found no error of any kind: because the code for "ignore" contains the general error bit, malformed and truncated packets are dropped in silence, and the branch that marks them for the user is never taken.\<close>
theorem coap_handler_silent:
  "coap_handler_recv h recv s =
    (if cm_flags (mg_coap_parse recv) AND MG_COAP_ERROR = 0 then h (Some (mg_coap_parse recv)) (h None s) else h None s, [])"
proof -
  let ?f = "cm_flags (mg_coap_parse recv)"
  have z: "x AND 0x10000 = 0 \<longleftrightarrow> \<not> bit x 16" "x AND 0x40000 = 0 \<longleftrightarrow> \<not> bit x 18" "x AND 0x80000 = 0 \<longleftrightarrow> \<not> bit x 19" for x :: u32
    using and_exp_eq_0_iff_not_bit [of x 16] and_exp_eq_0_iff_not_bit [of x 18] and_exp_eq_0_iff_not_bit [of x 19] by simp_all
  have e: "?f AND MG_COAP_ERROR = 0 \<longleftrightarrow> \<not> bit ?f 16" by (simp add: MG_COAP_ERROR_def z)
  have i: "?f AND MG_COAP_IGNORE = 0 \<longleftrightarrow> \<not> bit ?f 16 \<and> \<not> bit ?f 18"
    unfolding MG_COAP_IGNORE_def MG_COAP_ERROR_def bit.conj_disj_distrib or_eq_0_iff z by blast
  have n: "?f AND MG_COAP_NOT_ENOUGH_DATA = 0 \<longleftrightarrow> \<not> bit ?f 16 \<and> \<not> bit ?f 19"
    unfolding MG_COAP_NOT_ENOUGH_DATA_def MG_COAP_ERROR_def bit.conj_disj_distrib or_eq_0_iff z by blast
  show ?thesis
    using flags_ok_parse [of recv] by (auto simp: coap_handler_recv_def Let_def e i n flags_ok_def)
qed

text \<open>
  A value of 65536 bytes is composed with the extended length 65267, which the parser adds to 269 in sixteen bits: it
  takes the value for an empty one.
\<close>

lemma long_option_length_wraps:
  "coap_split_opt 65536 = (2, 14, 65267)"
  "coap_get_ext_opt (coap_add_opt_info 65267 2) 0 14 = Some (2, 0)"
  by (simp_all add: coap_split_opt_def coap_get_ext_opt_def coap_add_opt_info_def coap_add_uint16_def be_def)

end
