(* ===== verification/MgMultipart.thy ===== *)
theory MgMultipart
  imports MgHttpCoding
begin

text \<open>
  Multipart requests read as a stream (mongoose/src/mg_http.c of 3rdLib/mongoose/mongoose.c): the state machine that
  takes parts out of the receive buffer as they arrive. A connection is its receive buffer, the fields of
  mg_http_multipart_stream, its flags and the list of the calls of the user's handler, which does not touch
  the others. \<open>None\<close> is a read behind the received bytes or a loop that does not end. Memory is allocated by \<open>al\<close>.
\<close>

subsection \<open>State\<close>

datatype mps = MPS_BEGIN | MPS_WAITING_FOR_BOUNDARY | MPS_WAITING_FOR_CHUNK | MPS_GOT_BOUNDARY | MPS_FINALIZE | MPS_FINISHED

datatype mp_event = MG_EV_HTTP_MULTIPART_REQUEST | MG_EV_HTTP_PART_BEGIN | MG_EV_HTTP_PART_DATA | MG_EV_HTTP_PART_END
  | MG_EV_HTTP_MULTIPART_REQUEST_END

text \<open>A call: the event, the names (C strings or NULL), and the data with their size, a size_t.\<close>

record mp_call =
  mc_ev :: mp_event
  mc_var_name :: "bytes option"
  mc_file_name :: "bytes option"
  mc_data :: bytes
  mc_size :: u64

record mp_conn =
  mp_recv :: bytes
  mp_boundary :: "bytes option"
  mp_boundary_len :: nat
  mp_var_name :: "bytes option"
  mp_file_name :: "bytes option"
  mp_state :: mps
  mp_processing_part :: nat
  mp_flags :: u32
  mp_calls :: "mp_call list"

definition MG_F_CLOSE_IMMEDIATELY :: u32 where "MG_F_CLOSE_IMMEDIATELY = push_bit 11 1"

definition mp_remove :: "nat \<Rightarrow> mp_conn \<Rightarrow> mp_conn" where
  "mp_remove n c = (if 0 < n \<and> n \<le> length (mp_recv c) then c\<lparr>mp_recv := drop n (mp_recv c)\<rparr> else c)"

definition mg_http_multipart_call_handler :: "mp_event \<Rightarrow> bytes \<Rightarrow> u64 \<Rightarrow> mp_conn \<Rightarrow> mp_conn" where
  "mg_http_multipart_call_handler ev data data_len c =
     c\<lparr>mp_calls := mp_calls c @ [\<lparr>mc_ev = ev, mc_var_name = mp_var_name c, mc_file_name = mp_file_name c,
         mc_data = data, mc_size = data_len\<rparr>]\<rparr>"

text \<open>
  The start of a request: the value of its Content-Type header (with the memory behind it), if it has one, and the length
  of its head. A missing boundary overwrites all flags of the connection.
\<close>

definition mg_http_multipart_begin :: "allocator \<Rightarrow> bytes \<Rightarrow> (bytes \<times> bytes) option \<Rightarrow> nat \<Rightarrow> mp_conn \<Rightarrow> mp_conn option" where
  "mg_http_multipart_begin al boundary_buf ct req_len c =
     (case ct of None \<Rightarrow> Some c
      | Some (v, z) \<Rightarrow>
          (if length v < 9 \<or> strncmp v (cstr ''multipart'') 9 \<noteq> 0 then Some c
           else do {
             (boundary_len, boundary, _) \<leftarrow> mg_http_parse_header2 al ct (cstr ''boundary'') boundary_buf;
             (if boundary_len = 0 then Some (c\<lparr>mp_flags := MG_F_CLOSE_IMMEDIATELY\<rparr>)
              else if mp_boundary c \<noteq> None then Some (c\<lparr>mp_flags := mp_flags c OR MG_F_CLOSE_IMMEDIATELY\<rparr>)
              else
                let b = c_string boundary;
                    c = c\<lparr>mp_state := MPS_BEGIN, mp_boundary := Some b, mp_boundary_len := length b,
                        mp_var_name := None, mp_file_name := None\<rparr>;
                    c = c\<lparr>mp_calls := mp_calls c @ [\<lparr>mc_ev = MG_EV_HTTP_MULTIPART_REQUEST, mc_var_name = None,
                        mc_file_name = None, mc_data = [], mc_size = 0\<rparr>]\<rparr>
                in Some (mp_remove req_len c)) }))"


subsection \<open>Boundaries\<close>


text \<open>The length of the line at \<open>p\<close>, of which \<open>n\<close> bytes are thought to be there.\<close>

definition mg_get_line_len :: "bytes \<Rightarrow> nat \<Rightarrow> nat \<Rightarrow> nat option" where
  "mg_get_line_len buf p n =
     (case memchr (take n (drop p buf)) 10 of
        Some i \<Rightarrow> Some (i + 1)
      | None \<Rightarrow> if p + n \<le> length buf then Some 0 else None)"

definition CONTENT_DISPOSITION :: bytes where "CONTENT_DISPOSITION = cstr ''Content-Disposition: ''"

lemma line_len_bounds: "mg_get_line_len buf p n = Some k \<Longrightarrow> k \<noteq> 0 \<Longrightarrow> p < length buf \<and> p + k \<le> length buf"
  by (auto simp: mg_get_line_len_def split: option.splits if_splits dest!: mg_strchr_Some)

text \<open>
  The header lines of a part from position \<open>p\<close> on: the position of the empty line, and the buffers with the names. A
  line that is not understood is skipped, but not counted.
\<close>

function mp_header_lines :: "allocator \<Rightarrow> bytes \<Rightarrow> nat \<Rightarrow> nat \<Rightarrow> altbuf \<Rightarrow> altbuf \<Rightarrow> (nat \<times> altbuf \<times> altbuf) option option" where
  "mp_header_lines al buf p data_size ab_var ab_file =
     (if data_size = 0 then Some None
      else case mg_get_line_len buf p data_size of
        None \<Rightarrow> None
      | Some line_len \<Rightarrow>
          (if line_len = 0 then Some None
           else if line_len > length CONTENT_DISPOSITION + 1 \<and>
               mg_ncasecmp (drop p buf) CONTENT_DISPOSITION (length CONTENT_DISPOSITION) = 0 then
             (let h = p + length CONTENT_DISPOSITION; n = line_len - (length CONTENT_DISPOSITION + 1) - 1;
                  hdr = take n (drop h buf); z = drop (h + n) buf
              in case mg_http_parse_header_internal al hdr z (cstr ''name'') (altbuf_reset al ab_var) of
                   None \<Rightarrow> None
                 | Some ab_var \<Rightarrow>
                     (case mg_http_parse_header_internal al hdr z (cstr ''filename'') (altbuf_reset al ab_file) of
                        None \<Rightarrow> None
                      | Some ab_file \<Rightarrow> mp_header_lines al buf (p + line_len) (data_size - line_len) ab_var ab_file))
           else if line_len = 2 \<and> mg_ncasecmp (drop p buf) [13, 10] 2 = 0 then Some (Some (p, ab_var, ab_file))
           else mp_header_lines al buf (p + line_len) data_size ab_var ab_file))"
  by pat_completeness auto
termination
  by (relation "measure (\<lambda>(al, buf, p, _). length buf - p)") (auto dest!: line_len_bounds)

declare mp_header_lines.simps [simp del]



subsection \<open>Data\<close>

text \<open>The size of the data before a boundary is an int that becomes a size_t; it is negative when the boundary comes within four bytes.\<close>

definition mg_http_multipart_continue_wait_for_chunk :: "mp_conn \<Rightarrow> (mp_conn \<times> bool) option" where
  "mg_http_multipart_continue_wait_for_chunk c =
     (if length (mp_recv c) < mp_boundary_len c + 6 then Some (c, False)
      else do {
        b \<leftarrow> mp_boundary c;
        (case c_strnstr (mp_recv c) b of
           None \<Rightarrow>
             (let data_size = length (mp_recv c) - (mp_boundary_len c + 6) in
              if data_size > 0 then
                Some (mp_remove data_size (mg_http_multipart_call_handler MG_EV_HTTP_PART_DATA (take data_size (mp_recv c)) (of_nat data_size) c), False)
              else Some (c, False))
         | Some i \<Rightarrow>
             (let data_size = int i - 4;
                  c = mg_http_multipart_call_handler MG_EV_HTTP_PART_DATA (take (nat data_size) (mp_recv c)) (of_int data_size) c;
                  c = mp_remove i c
              in Some (c\<lparr>mp_state := MPS_WAITING_FOR_BOUNDARY\<rparr>, True))) })"

subsection \<open>The machine\<close>




subsection \<open>Header lines\<close>

lemma altbuf_reset_fresh [simp]: "altbuf_reset al (altbuf_init al []) = altbuf_init al []"
  by (simp add: altbuf_reset_def altbuf_init_def mbuf_free_def mbuf_init_def mbuf_resize_def)



subsection \<open>Whole requests\<close>


text \<open>The boundary is found where it is written behind these bytes, whatever follows.\<close>

definition first_at :: "bytes \<Rightarrow> bytes \<Rightarrow> bool" where
  "first_at b pre \<longleftrightarrow> (\<forall>t. c_strnstr (pre @ b @ t) b = Some (length pre))"





definition lines_wire :: "bytes list \<Rightarrow> bytes" where
  "lines_wire ls = concat (map (\<lambda>l. l @ [13, 10]) ls)"







lemma length_CD: "length CONTENT_DISPOSITION = 21" "10 \<notin> set CONTENT_DISPOSITION"
  by (simp_all add: CONTENT_DISPOSITION_def)

lemma lines_wire_simps [simp]: "lines_wire [] = []" "lines_wire (l # ls) = l @ 13 # 10 # lines_wire ls"
  by (simp_all add: lines_wire_def)






lemma first_at_start:
  assumes "b \<noteq> []"
  shows "first_at b []"
proof -
  obtain a l where b: "b = a # l" using assms by (cases b) auto
  have "strncmp (b @ t) b (length b) = 0" for t by (rule strncmp_refl)
  then show ?thesis unfolding first_at_def b by (simp del: strncmp.simps)
qed







definition mp_fresh :: "bytes \<Rightarrow> bytes \<Rightarrow> mp_conn" where
  "mp_fresh b recv = \<lparr>mp_recv = recv, mp_boundary = Some b, mp_boundary_len = length b, mp_var_name = None, mp_file_name = None,
     mp_state = MPS_BEGIN, mp_processing_part = 0, mp_flags = 0, mp_calls = []\<rparr>"




text \<open>when a boundary comes within the first four bytes of a part's data, the handler is told of a size close to the largest one: four is subtracted from the boundary's position in an int, which then becomes a size_t.\<close>
theorem multipart_short_data_size:
  assumes "mp_boundary c = Some b" "mp_boundary_len c = length b" "mp_recv c = d @ b @ t" "first_at b d" "length d < 4"
    "length (mp_recv c) \<ge> length b + 6"
  shows "\<exists>c' k. mg_http_multipart_continue_wait_for_chunk c = Some (c', True) \<and> mp_calls c' = mp_calls c @ [k] \<and>
    mc_ev k = MG_EV_HTTP_PART_DATA \<and> unat (mc_size k) = 2 ^ 64 - (4 - length d)"
proof -
  have "c_strnstr (mp_recv c) b = Some (length d)" using assms(3,4) by (simp add: first_at_def)
  moreover consider "length d = 0" | "length d = 1" | "length d = 2" | "length d = 3" using assms(5) by linarith
  then have "unat (of_int (int (length d) - 4) :: u64) = 2 ^ 64 - (4 - length d)" by cases (simp_all add: unsigned_minus_1_eq_mask mask_eq_exp_minus_1)
  ultimately show ?thesis
    using assms(1,2,6)
    by (simp add: mg_http_multipart_continue_wait_for_chunk_def mg_http_multipart_call_handler_def mp_remove_def Let_def)
qed

lemma multipart_short_data_size_witness:
  "\<exists>c' k. mg_http_multipart_continue_wait_for_chunk ((mp_fresh [88] [88, 13, 10, 13, 10, 1, 2])) = Some (c', True) \<and>
    mp_calls c' = [k] \<and> unat (mc_size k) = 2 ^ 64 - 4"
  using multipart_short_data_size [of "mp_fresh [88] [88, 13, 10, 13, 10, 1, 2]" "[88]" "[]" "[13, 10, 13, 10, 1, 2]"] first_at_start [of "[88]"]
  by (auto simp: mp_fresh_def)

text \<open>
  A header line that is not a Content-Disposition is skipped, but the number of bytes left is not reduced, so that the
  next search for a line end goes on behind the received bytes.
\<close>

lemma header_line_overread:
  "mp_header_lines al [88, 58, 10, 65] 0 4 ab_var ab_file = None"
  by (subst mp_header_lines.simps, simp add: mg_get_line_len_def length_CD, subst mp_header_lines.simps, simp add: mg_get_line_len_def)

end
