(* ===== verification/MgHash.thy ===== *)
theory MgHash
  imports MgMbuf
begin

text \<open>
  What the two hash functions of common/ share: a context absorbs a message piece by piece in blocks of 64 bytes, keeps
  the unfinished block in a buffer and counts the bits in two words. The locale states the contract of such a hash:
  its specification is a function of the whole message, and however the message is cut the result is the same.
\<close>

subsection \<open>Memory\<close>

text \<open>A read of \<open>n\<close> bytes from position \<open>i\<close> and a copy into an array; outside their bounds both are undefined.\<close>

definition mem_read :: "bytes \<Rightarrow> nat \<Rightarrow> nat \<Rightarrow> bytes option" where
  "mem_read b i n = (if i + n \<le> length b then Some (take n (drop i b)) else None)"

definition mem_copy :: "bytes \<Rightarrow> nat \<Rightarrow> bytes \<Rightarrow> bytes option" where
  "mem_copy b off d = (if off + length d \<le> length b then Some (blit b off d) else None)"

text \<open>Four bytes of memory as a word of a little-endian machine, and back; the rotation of the macros.\<close>

definition le32 :: "bytes \<Rightarrow> u32" where
  "le32 b = ucast (b ! 0) OR push_bit 8 (ucast (b ! 1)) OR push_bit 16 (ucast (b ! 2)) OR push_bit 24 (ucast (b ! 3))"

definition le32_words :: "nat \<Rightarrow> bytes \<Rightarrow> u32 list" where
  "le32_words n b = map (\<lambda>i. le32 (drop (4 * i) b)) [0..<n]"

definition le_byte :: "u32 \<Rightarrow> nat \<Rightarrow> byte" where
  "le_byte w i = ucast (drop_bit (8 * i) w)"

definition le32_bytes :: "u32 list \<Rightarrow> bytes" where
  "le32_bytes ws = concat (map (\<lambda>w. map (le_byte w) [0..<4]) ws)"

definition rol :: "u32 \<Rightarrow> nat \<Rightarrow> u32" where
  "rol v n = push_bit n v OR drop_bit (32 - n) v"

lemma rol_rotl: "0 < n \<Longrightarrow> n < 32 \<Longrightarrow> rol v n = word_rotl n v"
proof (rule bit_word_eqI)
  fix i assume n: "0 < n" "n < 32" and i: "i < LENGTH(32)"
  show "bit (rol v n) i \<longleftrightarrow> bit (word_rotl n v) i"
  proof (cases "i < n")
    case True
    then have "i + 32 - n < 32" "32 + i - n = i + 32 - n" using n by simp_all
    then show ?thesis using n i True by (simp add: rol_def bit_simps bit_word_rotl_iff mod_if)
  next
    case False
    then have "\<not> bit v (i + (32 - n))" "\<not> bit v (32 + i - n)" using n by (auto dest: bit_imp_le_length)
    moreover have "(i + (32 - n)) mod 32 = i - n" using False n i by (simp add: mod_if)
    ultimately show ?thesis using n i False by (simp add: rol_def bit_simps bit_word_rotl_iff)
  qed
qed

text \<open>The number of bits absorbed so far, in two words: the low one and the high one.\<close>

definition count_bits :: "u32 \<Rightarrow> u32 \<times> u32 \<Rightarrow> u32 \<times> u32" where
  "count_bits len = (\<lambda>(c0, c1).
     let c0' = c0 + push_bit 3 len;
         c1 = (if c0' < c0 then c1 + 1 else c1)
     in (c0', c1 + drop_bit 29 len))"

definition bit_count :: "nat \<Rightarrow> u32 \<times> u32" where
  "bit_count n = (of_nat (8 * n), of_nat (8 * n div 2 ^ 32))"

lemma count_bits_add:
  assumes "k < 2 ^ 32"
  shows "count_bits (of_nat k) (bit_count n) = bit_count (n + k)"
proof -
  define a b where "a = 8 * n mod 2 ^ 32" and "b = 8 * k mod 2 ^ 32"
  have ab: "a < 2 ^ 32" "b < 2 ^ 32" by (simp_all add: a_def b_def)
  have ua: "unat (of_nat (8 * n) :: u32) = a" unfolding unat_of_nat a_def by simp
  have p: "push_bit 3 (of_nat k :: u32) = of_nat (8 * k)" by (simp add: push_bit_eq_mult)
  have s: "(of_nat (8 * n) :: u32) + of_nat (8 * k) = of_nat (8 * (n + k))" by simp
  have us: "unat (of_nat (8 * (n + k)) :: u32) = (a + b) mod 2 ^ 32" unfolding unat_of_nat a_def b_def by (simp add: mod_simps distrib_left)
  have lt: "(of_nat (8 * (n + k)) :: u32) < of_nat (8 * n) \<longleftrightarrow> 2 ^ 32 \<le> a + b"
    unfolding word_less_nat_alt ua us using ab by (auto simp: mod_if)
  have d: "drop_bit 29 (of_nat k :: u32) = of_nat (8 * k div 2 ^ 32)"
  proof (rule word_unat_eq_iff [THEN iffD2])
    have "k mod 2 ^ 32 = k" "8 * k div 2 ^ 32 = k div 2 ^ 29" "8 * k div 2 ^ 32 < 2 ^ 32"
      using assms div_mult_mult1 [of 8 k "2 ^ 29"] by simp_all
    then show "unat (drop_bit 29 (of_nat k :: u32)) = unat (of_nat (8 * k div 2 ^ 32) :: u32)"
      unfolding unat_drop_bit_eq unat_of_nat unfolding drop_bit_eq_div by simp
  qed
  have q: "8 * (n + k) div 2 ^ 32 = 8 * n div 2 ^ 32 + 8 * k div 2 ^ 32 + (if 2 ^ 32 \<le> a + b then 1 else 0)"
    using ab unfolding a_def b_def by (auto simp: div_add1_eq [of "8 * n" "8 * k"] distrib_left)
  show ?thesis
    unfolding count_bits_def bit_count_def prod.case Let_def p s d lt q by (simp add: algebra_simps)
qed

lemma count_index: "unat (drop_bit 3 (fst (bit_count n)) AND 63) = n mod 64"
proof -
  have m: "x AND 63 = x mod 64" for x :: nat using take_bit_eq_mask [of 6 x] by (simp add: take_bit_eq_mod mask_eq_exp_minus_1)
  have "8 * n mod 2 ^ 32 div 8 = n mod 2 ^ 29" using mult_mod_right [of 8 n "2 ^ 29"] by simp
  then show ?thesis
    unfolding bit_count_def fst_conv unsigned_and_eq unat_drop_bit_eq unat_of_nat unfolding drop_bit_eq_div
    by (simp add: m mod_mod_cancel)
qed

subsection \<open>Blocks\<close>

text \<open>All whole blocks of the data, one after the other, and the bytes that are left.\<close>

function absorb :: "('h \<Rightarrow> bytes \<Rightarrow> 'h) \<Rightarrow> 'h \<Rightarrow> bytes \<Rightarrow> 'h \<times> bytes" where
  "absorb f h d = (if length d < 64 then (h, d) else absorb f (f h (take 64 d)) (drop 64 d))"
  by pat_completeness auto
termination by (relation "measure (\<lambda>(f, h, d). length d)") auto

declare absorb.simps [simp del]

lemma absorb_short: "length d < 64 \<Longrightarrow> absorb f h d = (h, d)"
  by (simp add: absorb.simps)

lemma absorb_block: "length b = 64 \<Longrightarrow> absorb f h (b @ d) = absorb f (f h b) d"
  by (subst absorb.simps) simp

lemma absorb_rest: "absorb f h d = (h', r) \<Longrightarrow> length r = length d mod 64 \<and> (\<exists>e. d = e @ r)"
proof (induction f h d arbitrary: h' r rule: absorb.induct)
  case (1 f h d)
  show ?case
  proof (cases "length d < 64")
    case True
    then show ?thesis using absorb_short [OF True, of f h] "1.prems" by simp
  next
    case False
    then have "absorb f (f h (take 64 d)) (drop 64 d) = (h', r)" using "1.prems" by (simp add: absorb.simps [of f h d])
    from "1.IH" [OF False this] obtain e where e: "length r = length (drop 64 d) mod 64" "drop 64 d = e @ r" by blast
    have "d = (take 64 d @ e) @ r" using e(2) append_take_drop_id [of 64 d] by simp
    moreover have "length r = length d mod 64" using e(1) le_mod_geq [of 64 "length d"] False by simp
    ultimately show ?thesis by blast
  qed
qed

text \<open>Absorbing goes on from the bytes that were left.\<close>

lemma absorb_append: "absorb f h d = (h', r) \<Longrightarrow> absorb f h (d @ x) = absorb f h' (r @ x)"
proof (induction f h d arbitrary: h' r rule: absorb.induct)
  case (1 f h d)
  show ?case
  proof (cases "length d < 64")
    case True
    then show ?thesis using absorb_short [OF True, of f h] "1.prems" by simp
  next
    case False
    then have "absorb f h (d @ x) = absorb f (f h (take 64 d)) (drop 64 d @ x)" by (subst absorb.simps) simp
    moreover have "absorb f (f h (take 64 d)) (drop 64 d) = (h', r)" using False "1.prems" by (simp add: absorb.simps [of f h d])
    ultimately show ?thesis using "1.IH" [OF False] by simp
  qed
qed

subsection \<open>The contract of a hash function\<close>

text \<open>
  A \<open>fresh\<close> context has absorbed nothing, \<open>upd\<close> takes the context and the next bytes, \<open>absorbed\<close> says which bytes a context has taken in, \<open>spec\<close> is the hash of a
  message. Pieces are shorter than \<open>limit\<close>; the message may be of any length.
\<close>

locale incremental_hash =
  fixes fresh :: "'c \<Rightarrow> bool" and upd :: "'c \<Rightarrow> bytes \<Rightarrow> 'c option" and fin :: "'c \<Rightarrow> bytes option"
    and absorbed :: "'c \<Rightarrow> bytes \<Rightarrow> bool" and spec :: "bytes \<Rightarrow> bytes" and limit :: nat
  assumes fresh_absorbed: "fresh c \<Longrightarrow> absorbed c []"
    and upd_absorbed: "absorbed c d \<Longrightarrow> length x < limit \<Longrightarrow> \<exists>c'. upd c x = Some c' \<and> absorbed c' (d @ x)"
    and fin_spec: "absorbed c d \<Longrightarrow> fin c = Some (spec d)"
begin

primrec feed :: "bytes list \<Rightarrow> 'c \<Rightarrow> 'c option" where
  "feed [] c = Some c"
| "feed (m # ms) c = do { c \<leftarrow> upd c m; feed ms c }"

definition pieces_ok :: "bytes list \<Rightarrow> bool" where
  "pieces_ok ms \<longleftrightarrow> (\<forall>m \<in> set ms. length m < limit)"

lemma feed_absorbed:
  "absorbed c d \<Longrightarrow> pieces_ok ms \<Longrightarrow> \<exists>c'. feed ms c = Some c' \<and> absorbed c' (d @ concat ms)"
proof (induction ms arbitrary: c d)
  case (Cons m ms)
  obtain c' where c': "upd c m = Some c'" "absorbed c' (d @ m)"
    using upd_absorbed [OF Cons.prems(1), of m] Cons.prems(2) by (auto simp: pieces_ok_def)
  show ?case using Cons.IH [OF c'(2)] Cons.prems(2) c'(1) by (simp add: pieces_ok_def)
qed simp

lemma hash_concat:
  assumes "fresh c" "pieces_ok ms"
  shows "(do { c \<leftarrow> feed ms c; fin c }) = Some (spec (concat ms))"
  using feed_absorbed [OF fresh_absorbed [OF assms(1)] assms(2)] fin_spec by fastforce

lemma hash_pieces:
  assumes "fresh c" "concat ms = concat ns" "pieces_ok ms" "pieces_ok ns"
  shows "(do { c \<leftarrow> feed ms c; fin c }) = (do { c \<leftarrow> feed ns c; fin c })"
  using hash_concat [OF assms(1,3)] hash_concat [OF assms(1,4)] assms(2) by metis

end

lemma word_byte: "ucast (drop_bit k w AND 255 :: u32) = (ucast (drop_bit k w) :: byte)"
proof (rule bit_word_eqI)
  have "(255 :: u32) = mask 8" by (simp add: mask_eq_exp_minus_1)
  then show "bit (ucast (drop_bit k w AND 255 :: u32) :: byte) n = bit (ucast (drop_bit k w) :: byte) n" if "n < LENGTH(8)" for n
    using that by (simp only: bit_simps) auto
qed

lemma word_of_nat_byte: "k \<le> 24 \<Longrightarrow> ucast (drop_bit k (of_nat m :: u32)) = (of_nat (m div 2 ^ k) :: byte)"
proof (rule bit_word_eqI)
  fix n assume "k \<le> 24" "n < LENGTH(8)"
  moreover have "bit (of_nat x :: 'a :: len word) i \<longleftrightarrow> i < LENGTH('a) \<and> bit x i" for x i
    using bit_word_of_int_iff [of "int x" i, where 'a = 'a] by (simp add: bit_of_nat_iff)
  ultimately show "bit (ucast (drop_bit k (of_nat m :: u32)) :: byte) n = bit (of_nat (m div 2 ^ k) :: byte) n"
    by (simp add: bit_simps flip: drop_bit_eq_div)
qed

lemma byte_mod: "(of_nat (v mod 256) :: byte) = of_nat v"
  by (simp add: word_unat_eq_iff unat_of_nat)

lemma to_be_8: "to_be 8 v = map (\<lambda>k. of_nat (v div 2 ^ k)) [56, 48, 40, 32, 24, 16, 8, 0]"
proof -
  have "8 = Suc (Suc (Suc (Suc (Suc (Suc (Suc (Suc 0)))))))" by simp
  then have "to_be 8 v = to_be (Suc (Suc (Suc (Suc (Suc (Suc (Suc (Suc 0)))))))) v" by (rule arg_cong)
  also have "\<dots> = map (\<lambda>k. of_nat (v div 2 ^ k)) [56, 48, 40, 32, 24, 16, 8, 0]"
    by (simp only: to_be.simps byte_mod) (simp add: div_mult2_eq [symmetric])
  finally show ?thesis .
qed

text \<open>As many zeros as bring the message with the byte 0x80 to eight bytes before the end of a block.\<close>

lemma pad_zeros: "(Suc n + (119 - n mod 64) mod 64) mod 64 = (56 :: nat)"
proof -
  define a q where "a = n div 64" and "q = n mod 64"
  have n: "n = 64 * a + q" "q < 64" by (simp_all add: a_def q_def)
  show ?thesis
  proof (cases "q \<le> 55")
    case True
    then have "(119 - q) mod 64 = 55 - q" by (simp add: mod_if)
    then have "Suc n + (119 - n mod 64) mod 64 = 56 + 64 * a" using True n by simp
    then show ?thesis by simp
  next
    case False
    then have "(119 - q) mod 64 = 119 - q" by (simp add: mod_if)
    then have "Suc n + (119 - n mod 64) mod 64 = 56 + 64 * Suc a" using False n by simp
    then show ?thesis by (simp only: mod_mult_self2) simp
  qed
qed

lemma mod_shift: "(n + k) mod m = n mod m \<Longrightarrow> k < m \<Longrightarrow> k = (0 :: nat)"
  using mod_eq_dvd_iff_nat [of n "n + k" m] by (auto dest: dvd_imp_le)

end
