(* ===== verification/MgSha1.thy ===== *)
theory MgSha1
  imports MgHash
begin

text \<open>
  SHA-1 (common/cs_sha1.c of 3rdLib/mongoose/mongoose.c) on a little-endian machine. The five working variables are a
  list, numbered 0 to 4, and the 80 macro calls a table in the order of the code; the block is expanded in place, in 16
  words. The specification is the one of FIPS 180-4, with its schedule of 80 words.
\<close>

subsection \<open>The block function\<close>

record sha1_ctx =
  sh_state :: "u32 list"
  sh_count :: "u32 \<times> u32"
  sh_buffer :: bytes

text \<open>A read of a word of the block gives the new block and the value.\<close>

definition blk0 :: "u32 list \<Rightarrow> nat \<Rightarrow> u32 list \<times> u32" where
  "blk0 l i = (let v = (rol (l ! i) 24 AND 0xFF00FF00) OR (rol (l ! i) 8 AND 0x00FF00FF) in (l[i := v], v))"

definition blk :: "u32 list \<Rightarrow> nat \<Rightarrow> u32 list \<times> u32" where
  "blk l i = (let v = rol (l ! ((i + 13) mod 16) XOR l ! ((i + 8) mod 16) XOR l ! ((i + 2) mod 16) XOR l ! (i mod 16)) 1
              in (l[i mod 16 := v], v))"

type_synonym sha1_regs = "u32 list \<times> u32 list"
type_synonym sha1_args = "nat \<times> nat \<times> nat \<times> nat \<times> nat \<times> nat"

definition R0 :: "sha1_args \<Rightarrow> sha1_regs \<Rightarrow> sha1_regs" where
  "R0 = (\<lambda>(v, w, x, y, z, i) (r, l).
     let (l, b) = blk0 l i;
         r = r[z := r ! z + (((r ! w AND (r ! x XOR r ! y)) XOR r ! y) + b + 0x5A827999 + rol (r ! v) 5)]
     in (r[w := rol (r ! w) 30], l))"

definition R1 :: "sha1_args \<Rightarrow> sha1_regs \<Rightarrow> sha1_regs" where
  "R1 = (\<lambda>(v, w, x, y, z, i) (r, l).
     let (l, b) = blk l i;
         r = r[z := r ! z + (((r ! w AND (r ! x XOR r ! y)) XOR r ! y) + b + 0x5A827999 + rol (r ! v) 5)]
     in (r[w := rol (r ! w) 30], l))"

definition R2 :: "sha1_args \<Rightarrow> sha1_regs \<Rightarrow> sha1_regs" where
  "R2 = (\<lambda>(v, w, x, y, z, i) (r, l).
     let (l, b) = blk l i;
         r = r[z := r ! z + ((r ! w XOR r ! x XOR r ! y) + b + 0x6ED9EBA1 + rol (r ! v) 5)]
     in (r[w := rol (r ! w) 30], l))"

definition R3 :: "sha1_args \<Rightarrow> sha1_regs \<Rightarrow> sha1_regs" where
  "R3 = (\<lambda>(v, w, x, y, z, i) (r, l).
     let (l, b) = blk l i;
         r = r[z := r ! z + ((((r ! w OR r ! x) AND r ! y) OR (r ! w AND r ! x)) + b + 0x8F1BBCDC + rol (r ! v) 5)]
     in (r[w := rol (r ! w) 30], l))"

definition R4 :: "sha1_args \<Rightarrow> sha1_regs \<Rightarrow> sha1_regs" where
  "R4 = (\<lambda>(v, w, x, y, z, i) (r, l).
     let (l, b) = blk l i;
         r = r[z := r ! z + ((r ! w XOR r ! x XOR r ! y) + b + 0xCA62C1D6 + rol (r ! v) 5)]
     in (r[w := rol (r ! w) 30], l))"

definition sha1_calls :: "((sha1_args \<Rightarrow> sha1_regs \<Rightarrow> sha1_regs) \<times> sha1_args) list" where
  "sha1_calls = (let a = 0; b = 1; c = 2; d = 3; e = 4 in
     [(R0, a, b, c, d, e, 0), (R0, e, a, b, c, d, 1), (R0, d, e, a, b, c, 2), (R0, c, d, e, a, b, 3), (R0, b, c, d, e, a, 4),
      (R0, a, b, c, d, e, 5), (R0, e, a, b, c, d, 6), (R0, d, e, a, b, c, 7), (R0, c, d, e, a, b, 8), (R0, b, c, d, e, a, 9),
      (R0, a, b, c, d, e, 10), (R0, e, a, b, c, d, 11), (R0, d, e, a, b, c, 12), (R0, c, d, e, a, b, 13), (R0, b, c, d, e, a, 14),
      (R0, a, b, c, d, e, 15), (R1, e, a, b, c, d, 16), (R1, d, e, a, b, c, 17), (R1, c, d, e, a, b, 18), (R1, b, c, d, e, a, 19),
      (R2, a, b, c, d, e, 20), (R2, e, a, b, c, d, 21), (R2, d, e, a, b, c, 22), (R2, c, d, e, a, b, 23), (R2, b, c, d, e, a, 24),
      (R2, a, b, c, d, e, 25), (R2, e, a, b, c, d, 26), (R2, d, e, a, b, c, 27), (R2, c, d, e, a, b, 28), (R2, b, c, d, e, a, 29),
      (R2, a, b, c, d, e, 30), (R2, e, a, b, c, d, 31), (R2, d, e, a, b, c, 32), (R2, c, d, e, a, b, 33), (R2, b, c, d, e, a, 34),
      (R2, a, b, c, d, e, 35), (R2, e, a, b, c, d, 36), (R2, d, e, a, b, c, 37), (R2, c, d, e, a, b, 38), (R2, b, c, d, e, a, 39),
      (R3, a, b, c, d, e, 40), (R3, e, a, b, c, d, 41), (R3, d, e, a, b, c, 42), (R3, c, d, e, a, b, 43), (R3, b, c, d, e, a, 44),
      (R3, a, b, c, d, e, 45), (R3, e, a, b, c, d, 46), (R3, d, e, a, b, c, 47), (R3, c, d, e, a, b, 48), (R3, b, c, d, e, a, 49),
      (R3, a, b, c, d, e, 50), (R3, e, a, b, c, d, 51), (R3, d, e, a, b, c, 52), (R3, c, d, e, a, b, 53), (R3, b, c, d, e, a, 54),
      (R3, a, b, c, d, e, 55), (R3, e, a, b, c, d, 56), (R3, d, e, a, b, c, 57), (R3, c, d, e, a, b, 58), (R3, b, c, d, e, a, 59),
      (R4, a, b, c, d, e, 60), (R4, e, a, b, c, d, 61), (R4, d, e, a, b, c, 62), (R4, c, d, e, a, b, 63), (R4, b, c, d, e, a, 64),
      (R4, a, b, c, d, e, 65), (R4, e, a, b, c, d, 66), (R4, d, e, a, b, c, 67), (R4, c, d, e, a, b, 68), (R4, b, c, d, e, a, 69),
      (R4, a, b, c, d, e, 70), (R4, e, a, b, c, d, 71), (R4, d, e, a, b, c, 72), (R4, c, d, e, a, b, 73), (R4, b, c, d, e, a, 74),
      (R4, a, b, c, d, e, 75), (R4, e, a, b, c, d, 76), (R4, d, e, a, b, c, 77), (R4, c, d, e, a, b, 78), (R4, b, c, d, e, a, 79)])"

definition cs_sha1_transform :: "u32 list \<Rightarrow> bytes \<Rightarrow> u32 list" where
  "cs_sha1_transform state buffer =
     map2 (+) state (fst (fold (\<lambda>(f, args). f args) sha1_calls (state, le32_words 16 buffer)))"

subsection \<open>Contexts\<close>

text \<open>A fresh context; its buffer is whatever the memory held.\<close>

definition cs_sha1_init :: "bytes \<Rightarrow> sha1_ctx" where
  "cs_sha1_init junk = \<lparr>sh_state = [0x67452301, 0xEFCDAB89, 0x98BADCFE, 0x10325476, 0xC3D2E1F0], sh_count = (0, 0),
     sh_buffer = junk\<rparr>"

text \<open>The loop over the whole blocks behind the first one; the index is a 32-bit word.\<close>

partial_function (option) sha1_blocks :: "u32 list \<Rightarrow> bytes \<Rightarrow> u32 \<Rightarrow> u32 \<Rightarrow> (u32 list \<times> u32) option" where
  "sha1_blocks st data i len =
     (if i + 63 < len then do {
        b \<leftarrow> mem_read data (unat i) 64;
        sha1_blocks (cs_sha1_transform st b) data (i + 64) len }
      else Some (st, i))"

definition cs_sha1_update :: "sha1_ctx \<Rightarrow> bytes \<Rightarrow> u32 \<Rightarrow> sha1_ctx option" where
  "cs_sha1_update ctx data len =
     (let j = drop_bit 3 (fst (sh_count ctx)) AND 63;
          ctx = ctx\<lparr>sh_count := count_bits len (sh_count ctx)\<rparr>
      in if j + len > 63 then do {
           d \<leftarrow> mem_read data 0 (64 - unat j);
           buf \<leftarrow> mem_copy (sh_buffer ctx) (unat j) d;
           (st, i) \<leftarrow> sha1_blocks (cs_sha1_transform (sh_state ctx) buf) data (64 - j) len;
           d \<leftarrow> mem_read data (unat i) (unat (len - i));
           buf \<leftarrow> mem_copy buf 0 d;
           Some (ctx\<lparr>sh_state := st, sh_buffer := buf\<rparr>) }
         else do {
           d \<leftarrow> mem_read data 0 (unat len);
           buf \<leftarrow> mem_copy (sh_buffer ctx) (unat j) d;
           Some (ctx\<lparr>sh_buffer := buf\<rparr>) })"

partial_function (option) sha1_pad :: "sha1_ctx \<Rightarrow> sha1_ctx option" where
  "sha1_pad ctx =
     (if fst (sh_count ctx) AND 504 \<noteq> 448 then do { ctx \<leftarrow> cs_sha1_update ctx [0] 1; sha1_pad ctx } else Some ctx)"

definition cs_sha1_final :: "sha1_ctx \<Rightarrow> bytes option" where
  "cs_sha1_final ctx =
     (let finalcount = map (\<lambda>i. ucast (drop_bit ((3 - i mod 4) * 8)
            (if i \<ge> 4 then fst (sh_count ctx) else snd (sh_count ctx)) AND 255)) [0..<8]
      in do {
        ctx \<leftarrow> cs_sha1_update ctx [0x80] 1;
        ctx \<leftarrow> sha1_pad ctx;
        ctx \<leftarrow> cs_sha1_update ctx finalcount 8;
        Some (map (\<lambda>i. ucast (drop_bit ((3 - i mod 4) * 8) (sh_state ctx ! (i div 4)) AND 255)) [0..<20]) })"

text \<open>The length of a message is cut to 32 bits on the way.\<close>

primrec sha1_feed :: "bytes list \<Rightarrow> sha1_ctx \<Rightarrow> sha1_ctx option" where
  "sha1_feed [] ctx = Some ctx"
| "sha1_feed (m # ms) ctx = do { ctx \<leftarrow> cs_sha1_update ctx m (of_nat (length m)); sha1_feed ms ctx }"

definition mg_hash_sha1_v :: "bytes \<Rightarrow> bytes list \<Rightarrow> bytes option" where
  "mg_hash_sha1_v junk msgs = do { ctx \<leftarrow> sha1_feed msgs (cs_sha1_init junk); cs_sha1_final ctx }"

declare sha1_blocks.simps [code] sha1_pad.simps [code]

subsection \<open>The specification\<close>

definition be32 :: "bytes \<Rightarrow> u32" where
  "be32 b = push_bit 24 (ucast (b ! 0)) OR push_bit 16 (ucast (b ! 1)) OR push_bit 8 (ucast (b ! 2)) OR ucast (b ! 3)"

definition be32_bytes :: "u32 \<Rightarrow> bytes" where
  "be32_bytes w = map (\<lambda>i. ucast (drop_bit i w)) [24, 16, 8, 0]"

primrec fips_schedule :: "u32 list \<Rightarrow> nat \<Rightarrow> u32 list" where
  "fips_schedule m 0 = m"
| "fips_schedule m (Suc n) = (let w = fips_schedule m n in
     w @ [word_rotl 1 (w ! (n + 13) XOR w ! (n + 8) XOR w ! (n + 2) XOR w ! n)])"

definition fips_f :: "nat \<Rightarrow> u32 \<Rightarrow> u32 \<Rightarrow> u32 \<Rightarrow> u32" where
  "fips_f t x y z =
     (if t < 20 then (x AND y) XOR (NOT x AND z)
      else if 40 \<le> t \<and> t < 60 then (x AND y) XOR (x AND z) XOR (y AND z)
      else x XOR y XOR z)"

definition fips_K :: "nat \<Rightarrow> u32" where
  "fips_K t = (if t < 20 then 0x5A827999 else if t < 40 then 0x6ED9EBA1 else if t < 60 then 0x8F1BBCDC else 0xCA62C1D6)"

definition fips_step :: "u32 list \<Rightarrow> nat \<Rightarrow> u32 \<times> u32 \<times> u32 \<times> u32 \<times> u32 \<Rightarrow> u32 \<times> u32 \<times> u32 \<times> u32 \<times> u32" where
  "fips_step w t = (\<lambda>(a, b, c, d, e). (word_rotl 5 a + fips_f t b c d + e + fips_K t + w ! t, a, word_rotl 30 b, c, d))"

definition fips_compress :: "u32 \<times> u32 \<times> u32 \<times> u32 \<times> u32 \<Rightarrow> bytes \<Rightarrow> u32 \<times> u32 \<times> u32 \<times> u32 \<times> u32" where
  "fips_compress h b =
     (let w = fips_schedule (map (\<lambda>i. be32 (drop (4 * i) b)) [0..<16]) 64;
          (h0, h1, h2, h3, h4) = h; (a, b, c, d, e) = fold (fips_step w) [0..<80] h
      in (h0 + a, h1 + b, h2 + c, h3 + d, h4 + e))"

definition sha1_padding :: "nat \<Rightarrow> bytes" where
  "sha1_padding n = 0x80 # replicate ((119 - n mod 64) mod 64) 0 @ to_be 8 (8 * n)"

definition sha1 :: "bytes \<Rightarrow> bytes" where
  "sha1 m =
     (case fst (absorb fips_compress (0x67452301, 0xEFCDAB89, 0x98BADCFE, 0x10325476, 0xC3D2E1F0) (m @ sha1_padding (length m)))
      of (a, b, c, d, e) \<Rightarrow> concat (map be32_bytes [a, b, c, d, e]))"


subsection \<open>The block function meets its specification\<close>

lemma swap_bytes: "(rol (le32 b) 24 AND 0xFF00FF00) OR (rol (le32 b) 8 AND 0x00FF00FF) = be32 b"
proof (rule bit_word_eqI)
  have high: "bit (b ! i) n = False" if "8 \<le> n" for i n using that by (auto dest: bit_imp_le_length)
  have "\<forall>n \<in> set [0..<32]. bit ((rol (le32 b) 24 AND 0xFF00FF00) OR (rol (le32 b) 8 AND 0x00FF00FF)) n = bit (be32 b) n"
    by (simp add: upt_rec rol_def le32_def be32_def bit_simps high)
  then show "bit ((rol (le32 b) 24 AND 0xFF00FF00) OR (rol (le32 b) 8 AND 0x00FF00FF)) n = bit (be32 b) n"
    if "n < LENGTH(32)" for n using that by simp
qed

lemma choice_eq: "((x AND (y XOR z)) XOR z) = (x AND y) XOR (NOT x AND z)" for x :: u32
  by (rule bit_word_eqI) (auto simp: bit_simps)

lemma majority_eq: "((x OR y) AND z) OR (x AND y) = (x AND y) XOR (x AND z) XOR (y AND z)" for x :: u32
  by (rule bit_word_eqI) (auto simp: bit_simps)

definition sha1_R :: "nat \<Rightarrow> sha1_args \<Rightarrow> sha1_regs \<Rightarrow> sha1_regs" where
  "sha1_R t = (if t < 16 then R0 else if t < 20 then R1 else if t < 40 then R2 else if t < 60 then R3 else R4)"

definition sha1_perm :: "nat \<Rightarrow> sha1_args" where
  "sha1_perm t = (4 * t mod 5, (4 * t + 1) mod 5, (4 * t + 2) mod 5, (4 * t + 3) mod 5, (4 * t + 4) mod 5, t)"

lemma sha1_calls_regular: "sha1_calls = map (\<lambda>t. (sha1_R t, sha1_perm t)) [0..<80]"
  by (simp add: sha1_calls_def upt_rec sha1_R_def sha1_perm_def)

definition sha1_view :: "nat \<Rightarrow> u32 list \<Rightarrow> u32 \<times> u32 \<times> u32 \<times> u32 \<times> u32" where
  "sha1_view t r = (r ! (4 * t mod 5), r ! ((4 * t + 1) mod 5), r ! ((4 * t + 2) mod 5), r ! ((4 * t + 3) mod 5), r ! ((4 * t + 4) mod 5))"

lemma sha1_R_step:
  assumes "(if t < 16 then blk0 l t else blk l t) = (l', w ! t)" "length r = 5"
  shows "\<exists>r'. sha1_R t (sha1_perm t) (r, l) = (r', l') \<and> length r' = 5 \<and> sha1_view (Suc t) r' = fips_step w t (sha1_view t r)"
proof -
  define p where "p = 4 * t mod 5"
  have p: "p < 5" by (simp add: p_def)
  have m: "(4 * t + k) mod 5 = (p + k) mod 5" for k by (simp add: p_def mod_simps)
  have s: "4 * Suc t mod 5 = (p + 4) mod 5" "(4 * Suc t + k) mod 5 = (p + 4 + k) mod 5" for k
    using m [of 4] m [of "4 + k"] by (simp_all add: algebra_simps)
  consider "p = 0" | "p = 1" | "p = 2" | "p = 3" | "p = 4" using p by linarith
  then show ?thesis
    using assms unfolding sha1_perm_def sha1_view_def s m p_def [symmetric]
    by cases (auto simp: sha1_R_def R0_def R1_def R2_def R3_def R4_def fips_step_def fips_f_def fips_K_def Let_def
        choice_eq majority_eq rol_rotl algebra_simps numeral_2_eq_2 split: if_splits)
qed

text \<open>
  Before call \<open>t\<close> the block holds the last sixteen words of the schedule that have been computed, and before that the words
  not yet swapped.
\<close>

definition blk_inv :: "bytes \<Rightarrow> u32 list \<Rightarrow> nat \<Rightarrow> u32 list \<Rightarrow> bool" where
  "blk_inv b w t l \<longleftrightarrow> length l = 16 \<and> (\<forall>s < t. t \<le> s + 16 \<longrightarrow> l ! (s mod 16) = w ! s) \<and>
     (\<forall>i < 16. t \<le> i \<longrightarrow> l ! i = le32 (drop (4 * i) b))"

lemma length_schedule [simp]: "length (fips_schedule m n) = length m + n"
  by (induction n) (auto simp: Let_def)

lemma schedule_nth_old: "i < length m + n \<Longrightarrow> fips_schedule m (n + k) ! i = fips_schedule m n ! i"
  by (induction k) (auto simp: Let_def nth_append)

lemma schedule_nth_first: "i < length m \<Longrightarrow> fips_schedule m n ! i = m ! i"
  using schedule_nth_old [of i m 0 n] by simp

lemma schedule_nth_next:
  assumes "length m = 16" "n < k"
  shows "fips_schedule m k ! (n + 16) = word_rotl 1 (fips_schedule m k ! (n + 13) XOR fips_schedule m k ! (n + 8) XOR
    fips_schedule m k ! (n + 2) XOR fips_schedule m k ! n)"
proof -
  obtain j where j: "k = Suc n + j" using assms(2) less_imp_Suc_add by (metis add_Suc)
  have "fips_schedule m k ! i = fips_schedule m n ! i" if "i < 16 + n" for i
    using schedule_nth_old [of i m n "Suc j"] that assms(1) j by simp
  moreover have "fips_schedule m k ! (n + 16) = fips_schedule m (Suc n) ! (n + 16)"
    using schedule_nth_old [of "n + 16" m "Suc n" j] assms(1) j by simp
  ultimately show ?thesis using assms(1) by (simp add: Let_def nth_append)
qed

definition sha1_words :: "bytes \<Rightarrow> u32 list" where
  "sha1_words b = fips_schedule (map (\<lambda>i. be32 (drop (4 * i) b)) [0..<16]) 64"

lemma blk_step:
  assumes "blk_inv b (sha1_words b) t l" "t < 80"
  shows "\<exists>l'. (if t < 16 then blk0 l t else blk l t) = (l', sha1_words b ! t) \<and> blk_inv b (sha1_words b) (Suc t) l'"
proof (cases "t < 16")
  case True
  have w: "sha1_words b ! t = be32 (drop (4 * t) b)" using True by (simp add: sha1_words_def schedule_nth_first)
  have "l ! t = le32 (drop (4 * t) b)" using assms(1) True by (simp add: blk_inv_def)
  then have "blk0 l t = (l[t := sha1_words b ! t], sha1_words b ! t)" unfolding blk0_def w by (simp add: swap_bytes Let_def)
  moreover have "blk_inv b (sha1_words b) (Suc t) (l[t := sha1_words b ! t])"
    using assms(1) True by (auto simp: blk_inv_def nth_list_update less_Suc_eq)
  ultimately show ?thesis using True by simp
next
  case False
  obtain n where n: "t = n + 16" using False by (metis add.commute le_iff_add not_less)
  have l: "l ! (s mod 16) = sha1_words b ! s" if "s < t" "t \<le> s + 16" for s using assms(1) that by (simp add: blk_inv_def)
  have "(t + 13) mod 16 = (n + 13) mod 16" "(t + 8) mod 16 = (n + 8) mod 16" "(t + 2) mod 16 = (n + 2) mod 16" "t mod 16 = n mod 16"
    using mod_add_self2 [of "n + 13" 16] mod_add_self2 [of "n + 8" 16] mod_add_self2 [of "n + 2" 16] n by (simp_all add: add.commute)
  then have "l ! ((t + 13) mod 16) XOR l ! ((t + 8) mod 16) XOR l ! ((t + 2) mod 16) XOR l ! (t mod 16) =
    sha1_words b ! (n + 13) XOR sha1_words b ! (n + 8) XOR sha1_words b ! (n + 2) XOR sha1_words b ! n"
    using l n by simp
  then have "blk l t = (l[t mod 16 := sha1_words b ! t], sha1_words b ! t)"
    using schedule_nth_next [of "map (\<lambda>i. be32 (drop (4 * i) b)) [0..<16]" n 64] assms(2) n
    by (simp add: blk_def Let_def rol_rotl sha1_words_def)
  moreover have "blk_inv b (sha1_words b) (Suc t) (l[t mod 16 := sha1_words b ! t])"
    unfolding blk_inv_def
  proof (intro conjI allI impI)
    show "length (l[t mod 16 := sha1_words b ! t]) = 16" using assms(1) by (simp add: blk_inv_def)
    fix s assume s: "s < Suc t" "Suc t \<le> s + 16"
    show "l[t mod 16 := sha1_words b ! t] ! (s mod 16) = sha1_words b ! s"
    proof (cases "s = t")
      case True
      then show ?thesis using assms(1) by (simp add: blk_inv_def)
    next
      case ne: False
      then have "s mod 16 \<noteq> t mod 16"
      proof -
        have "s + (t - s) = t" "t - s < 16" "t - s \<noteq> 0" using s ne by linarith+
        then show ?thesis using mod_shift [of s "t - s" 16] by metis
      qed
      then show ?thesis using l [of s] s ne by simp
    qed
  qed (use False in simp)
  ultimately show ?thesis using False by simp
qed

lemma sha1_rounds:
  assumes "length r = 5" "n \<le> 80"
  shows "\<exists>r' l'. fold (\<lambda>(f, args). f args) (map (\<lambda>t. (sha1_R t, sha1_perm t)) [0..<n]) (r, le32_words 16 b) = (r', l') \<and>
    length r' = 5 \<and> blk_inv b (sha1_words b) n l' \<and> sha1_view n r' = fold (fips_step (sha1_words b)) [0..<n] (sha1_view 0 r)"
  using assms(2)
proof (induction n)
  case 0
  show ?case using assms(1) by (simp add: blk_inv_def le32_words_def)
next
  case (Suc n)
  then obtain r1 l1 where 1: "fold (\<lambda>(f, args). f args) (map (\<lambda>t. (sha1_R t, sha1_perm t)) [0..<n]) (r, le32_words 16 b) = (r1, l1)"
    "length r1 = 5" "blk_inv b (sha1_words b) n l1" "sha1_view n r1 = fold (fips_step (sha1_words b)) [0..<n] (sha1_view 0 r)"
    by auto
  obtain l2 where 2: "(if n < 16 then blk0 l1 n else blk l1 n) = (l2, sha1_words b ! n)" "blk_inv b (sha1_words b) (Suc n) l2"
    using blk_step [OF 1(3)] Suc.prems by auto
  from sha1_R_step [OF 2(1) 1(2)] show ?case using 1 2(2) by auto
qed

abbreviation sha1_list :: "u32 \<times> u32 \<times> u32 \<times> u32 \<times> u32 \<Rightarrow> u32 list" where
  "sha1_list h \<equiv> case h of (a, b, c, d, e) \<Rightarrow> [a, b, c, d, e]"

lemma list5: "length r = 5 \<Longrightarrow> r = [r ! 0, r ! 1, r ! 2, r ! 3, r ! 4]"
  by (auto simp: list_eq_iff_nth_eq less_Suc_eq numeral_eq_Suc)

lemma cs_sha1_transform_fips': "cs_sha1_transform (sha1_list h) b = sha1_list (fips_compress h b)"
proof -
  obtain a0 a1 a2 a3 a4 where h: "h = (a0, a1, a2, a3, a4)" by (cases h)
  obtain r l where r: "fold (\<lambda>(f, args). f args) (map (\<lambda>t. (sha1_R t, sha1_perm t)) [0..<80]) (sha1_list h, le32_words 16 b) = (r, l)"
    "length r = 5" "sha1_view 80 r = fold (fips_step (sha1_words b)) [0..<80] (sha1_view 0 (sha1_list h))"
    using sha1_rounds [of "sha1_list h" 80 b] h by auto
  have "sha1_view 80 r = (r ! 0, r ! 1, r ! 2, r ! 3, r ! 4)" "sha1_view 0 (sha1_list h) = h"
    by (simp_all add: sha1_view_def h)
  then have "fold (fips_step (sha1_words b)) [0..<80] h = (r ! 0, r ! 1, r ! 2, r ! 3, r ! 4)" using r(3) by simp
  moreover have "cs_sha1_transform (sha1_list h) b = map2 (+) (sha1_list h) [r ! 0, r ! 1, r ! 2, r ! 3, r ! 4]"
    using r(1) list5 [OF r(2)] by (simp add: cs_sha1_transform_def sha1_calls_regular)
  ultimately show ?thesis by (simp add: fips_compress_def sha1_words_def [symmetric] h)
qed

text \<open>SHA-1's block function, 80 macro calls on rotating variables with the message schedule kept in 16 words in place, computes the compression function of FIPS 180-4, which expands the block to 80 words first.\<close>
theorem cs_sha1_transform_fips:
  "cs_sha1_transform (sha1_list h) b = sha1_list (fips_compress h b)"
  by (rule cs_sha1_transform_fips')

subsection \<open>Contexts meet the contract\<close>

abbreviation sha1_iv :: "u32 \<times> u32 \<times> u32 \<times> u32 \<times> u32" where
  "sha1_iv \<equiv> (0x67452301, 0xEFCDAB89, 0x98BADCFE, 0x10325476, 0xC3D2E1F0)"

definition sha1_absorbed :: "sha1_ctx \<Rightarrow> bytes \<Rightarrow> bool" where
  "sha1_absorbed c d \<longleftrightarrow> (\<exists>h r. absorb fips_compress sha1_iv d = (h, r) \<and> sh_state c = sha1_list h \<and>
     sh_count c = bit_count (length d) \<and> length (sh_buffer c) = 64 \<and> take (length r) (sh_buffer c) = r)"

definition sha1_limit :: nat where "sha1_limit = 2 ^ 32 - 64"

lemma word_of_short: "n < sha1_limit \<Longrightarrow> unat (of_nat n :: u32) = n"
  by (simp add: sha1_limit_def unat_of_nat)

lemma blocks_absorb:
  assumes "absorb fips_compress h (drop (unat i) x) = (h', r)" "unat i \<le> length x" "length x < sha1_limit"
  shows "\<exists>k. sha1_blocks (sha1_list h) x i (of_nat (length x)) = Some (sha1_list h', k) \<and> unat k + length r = length x \<and> drop (unat k) x = r"
  using assms
proof (induction "length x - unat i" arbitrary: h i rule: less_induct)
  case less
  have s: "unat (i + 63) = unat i + 63" using less.prems(2,3) by (simp add: sha1_limit_def unat_plus_if_size word_size)
  then have c: "i + 63 < of_nat (length x) \<longleftrightarrow> unat i + 64 \<le> length x"
    using less.prems(3) by (auto simp: word_less_nat_alt word_of_short)
  show ?case
  proof (cases "unat i + 64 \<le> length x")
    case False
    then have "absorb fips_compress h (drop (unat i) x) = (h, drop (unat i) x)" by (intro absorb_short) simp
    then have "h' = h" "r = drop (unat i) x" using less.prems(1) by auto
    then show ?thesis using False less.prems(2) by (subst sha1_blocks.simps) (simp add: c)
  next
    case True
    then have n64: "\<not> length (drop (unat i) x) < 64" by simp
    let ?b = "take 64 (drop (unat i) x)"
    have i: "unat (i + 64) = unat i + 64" using True less.prems(3) by (simp add: sha1_limit_def unat_plus_if_size word_size)
    have "absorb fips_compress (fips_compress h ?b) (drop (unat (i + 64)) x) = (h', r)"
      using less.prems(1) n64 by (subst (asm) absorb.simps) (simp add: i add.commute)
    moreover have "sha1_blocks (sha1_list h) x i (of_nat (length x)) =
      sha1_blocks (sha1_list (fips_compress h ?b)) x (i + 64) (of_nat (length x))"
      by (subst sha1_blocks.simps) (simp add: c True mem_read_def cs_sha1_transform_fips')
    ultimately show ?thesis using less.hyps [of "i + 64" "fips_compress h ?b"] i True less.prems(3) by simp
  qed
qed

lemma sha1_update_absorbed:
  assumes a: "sha1_absorbed c d" and lx: "length x < sha1_limit"
  shows "\<exists>c'. cs_sha1_update c x (of_nat (length x)) = Some c' \<and> sha1_absorbed c' (d @ x)"
proof -
  obtain h r where c: "absorb fips_compress sha1_iv d = (h, r)" "sh_state c = sha1_list h" "sh_count c = bit_count (length d)"
    "length (sh_buffer c) = 64" "take (length r) (sh_buffer c) = r" using a by (auto simp: sha1_absorbed_def)
  define j where "j = drop_bit 3 (fst (bit_count (length d))) AND 63"
  have r: "length r < 64" "unat j = length r" using absorb_rest [OF c(1)] count_index by (simp_all add: j_def)
  have "unat (j + of_nat (length x)) = length r + length x"
    using lx r by (simp add: unat_plus_if_size word_size word_of_short) (simp add: sha1_limit_def)
  then have big: "j + of_nat (length x) > 63 \<longleftrightarrow> 64 \<le> length r + length x" by (auto simp: word_less_nat_alt)
  have cnt: "count_bits (of_nat (length x)) (sh_count c) = bit_count (length (d @ x))"
    using lx count_bits_add [of "length x" "length d"] by (simp add: c(3) sha1_limit_def)
  have ab: "absorb fips_compress sha1_iv (d @ x) = absorb fips_compress h (r @ x)" by (rule absorb_append [OF c(1)])
  show ?thesis
  proof (cases "64 \<le> length r + length x")
    case False
    have "mem_copy (sh_buffer c) (length r) x = Some (r @ x @ drop (length r + length x) (sh_buffer c))"
      using False c(4,5) by (simp add: mem_copy_def blit_def)
    moreover have "absorb fips_compress h (r @ x) = (h, r @ x)" using False by (intro absorb_short) simp
    ultimately show ?thesis
      using False big cnt c(2-5) r lx ab
      by (auto simp: cs_sha1_update_def Let_def j_def [symmetric] mem_read_def word_of_short sha1_absorbed_def)
  next
    case True
    define n where "n = 64 - length r"
    have n: "n \<le> length x" "length (r @ take n x) = 64" using True r(1) by (auto simp: n_def)
    have u: "unat (64 - j) = n" using r by (simp add: n_def unat_sub_if_size word_size)
    have buf: "mem_copy (sh_buffer c) (length r) (take n x) = Some (r @ take n x)"
      using n c(4,5) by (simp add: mem_copy_def blit_def n_def)
    obtain h' r' where hr: "absorb fips_compress (fips_compress h (r @ take n x)) (drop n x) = (h', r')" by fastforce
    have "absorb fips_compress h (r @ x) = (h', r')"
      using absorb_block [OF n(2), of fips_compress h "drop n x"] hr by simp
    moreover obtain k where k: "sha1_blocks (sha1_list (fips_compress h (r @ take n x))) x (64 - j) (of_nat (length x)) = Some (sha1_list h', k)"
      "unat k + length r' = length x" "drop (unat k) x = r'"
      using blocks_absorb [of "fips_compress h (r @ take n x)" "64 - j" x h' r', unfolded u, OF hr n(1) lx] by blast
    have r': "length r' < 64" using absorb_rest [OF hr] by simp
    have "unat (of_nat (length x) - k) = length r'"
      using k(2) lx by (simp add: unat_sub_if_size word_of_short word_size)
    moreover obtain buf2 where "mem_copy (r @ take n x) 0 r' = Some buf2" "length buf2 = 64" "take (length r') buf2 = r'"
      using r' n(2) by (simp add: mem_copy_def blit_def)
    moreover have "drop_bit 3 (fst (sh_count c)) AND 63 = j" by (simp add: j_def c(3))
    ultimately show ?thesis
      using True big cnt c(2) r(2) k n(1) buf ab u
      by (simp add: cs_sha1_update_def Let_def mem_read_def sha1_absorbed_def cs_sha1_transform_fips' word_of_short [OF lx] flip: n_def)
  qed
qed

lemma pad_test: "fst (bit_count n) AND 504 = 448 \<longleftrightarrow> n mod 64 = 56"
proof -
  have p: "push_bit 3 (drop_bit 3 (w AND 504)) = w AND 504" for w :: u32
  proof (rule bit_word_eqI)
    have "\<not> bit (504 :: u32) i" if "i < 3" for i using that by (auto simp: less_Suc_eq numeral_eq_Suc)
    then show "bit (push_bit 3 (drop_bit 3 (w AND 504))) i = bit (w AND 504) i" if "i < LENGTH(32)" for i
      using that by (cases "3 \<le> i") (simp_all add: bit_simps)
  qed
  have "(fst (bit_count n) AND 504 = 448) = (drop_bit 3 (fst (bit_count n) AND 504) = drop_bit 3 448)"
  proof -
    have "push_bit 3 (drop_bit 3 (448 :: u32)) = 448" by simp
    then show ?thesis using p [of "fst (bit_count n)"] by metis
  qed
  also have "\<dots> \<longleftrightarrow> unat (drop_bit 3 (fst (bit_count n)) AND 63) = 56"
    by (simp add: drop_bit_and word_unat_eq_iff)
  finally show ?thesis unfolding count_index .
qed

lemma sha1_count: "sha1_absorbed c d \<Longrightarrow> sh_count c = bit_count (length d)"
  unfolding sha1_absorbed_def by blast

lemma sha1_pad_absorbed:
  assumes "sha1_absorbed c d" "(length d + k) mod 64 = 56" "k < 64"
  shows "\<exists>c'. sha1_pad c = Some c' \<and> sha1_absorbed c' (d @ replicate k 0)"
  using assms
proof (induction k arbitrary: c d)
  case 0
  then have "fst (sh_count c) AND 504 = 448" unfolding sha1_count [OF 0(1)] pad_test by simp
  then show ?case using 0 by (subst sha1_pad.simps) simp
next
  case (Suc k)
  have "length d mod 64 \<noteq> 56" using Suc.prems(2,3) mod_shift [of "length d" "Suc k" 64] by auto
  then have t: "fst (sh_count c) AND 504 \<noteq> 448" unfolding sha1_count [OF Suc.prems(1)] pad_test .
  obtain c1 where c1: "cs_sha1_update c [0] 1 = Some c1" "sha1_absorbed c1 (d @ [0])"
    using sha1_update_absorbed [OF Suc.prems(1), of "[0]"] by (auto simp: sha1_limit_def)
  obtain c2 where "sha1_pad c1 = Some c2" "sha1_absorbed c2 ((d @ [0]) @ replicate k 0)"
    using Suc.IH [OF c1(2)] Suc.prems(2,3) by auto
  then show ?case using c1 t by (subst sha1_pad.simps) simp
qed

lemma finalcount_bytes:
  "map (\<lambda>i. ucast (drop_bit ((3 - i mod 4) * 8) (if i \<ge> 4 then fst (bit_count n) else snd (bit_count n)) AND 255)) [0..<8] = to_be 8 (8 * n)"
proof -
  define m where "m = 8 * n"
  have "ucast (of_nat x :: u32) = (of_nat x :: byte)" for x using word_of_nat_byte [of 0 x] by simp
  then show ?thesis unfolding bit_count_def m_def [symmetric]
    by (simp add: to_be_8 word_byte word_of_nat_byte upt_rec div_mult2_eq [symmetric])
qed

lemma digest_bytes:
  "map (\<lambda>i. ucast (drop_bit ((3 - i mod 4) * 8) (sha1_list h ! (i div 4)) AND 255)) [0..<20] =
    (case h of (a, b, c, d, e) \<Rightarrow> concat (map be32_bytes [a, b, c, d, e]))"
  by (cases h) (simp add: word_byte be32_bytes_def upt_rec)

lemma sha1_final_spec:
  assumes "sha1_absorbed c d"
  shows "cs_sha1_final c = Some (sha1 d)"
proof -
  let ?k = "(119 - length d mod 64) mod 64" and ?f = "to_be 8 (8 * length d)"
  obtain c1 where c1: "cs_sha1_update c [0x80] 1 = Some c1" "sha1_absorbed c1 (d @ [0x80])"
    using sha1_update_absorbed [OF assms, of "[0x80]"] by (auto simp: sha1_limit_def)
  have "(length (d @ [0x80 :: byte]) + ?k) mod 64 = 56" using pad_zeros [of "length d"] by simp
  then obtain c2 where c2: "sha1_pad c1 = Some c2" "sha1_absorbed c2 ((d @ [0x80]) @ replicate ?k 0)"
    using sha1_pad_absorbed [OF c1(2), of ?k] by auto
  obtain c3 where c3: "cs_sha1_update c2 ?f 8 = Some c3" "sha1_absorbed c3 (((d @ [0x80]) @ replicate ?k 0) @ ?f)"
    using sha1_update_absorbed [OF c2(2), of ?f] by (auto simp: sha1_limit_def)
  obtain h r where h: "absorb fips_compress sha1_iv (d @ sha1_padding (length d)) = (h, r)" "sh_state c3 = sha1_list h"
    using c3(2) by (auto simp: sha1_absorbed_def sha1_padding_def)
  show ?thesis
    unfolding cs_sha1_final_def sha1_count [OF assms] finalcount_bytes Let_def
    using c1(1) c2(1) c3(1) h digest_bytes [of h] by (simp add: sha1_def)
qed

definition sha1_fresh :: "sha1_ctx \<Rightarrow> bool" where
  "sha1_fresh c \<longleftrightarrow> (\<exists>junk. length junk = 64 \<and> c = cs_sha1_init junk)"

interpretation sha1_hash: incremental_hash sha1_fresh "\<lambda>c x. cs_sha1_update c x (of_nat (length x))" cs_sha1_final
  sha1_absorbed sha1 sha1_limit
proof unfold_locales
  fix c d x
  show "sha1_fresh c \<Longrightarrow> sha1_absorbed c []"
    by (auto simp: sha1_fresh_def sha1_absorbed_def cs_sha1_init_def absorb_short bit_count_def)
  show "sha1_absorbed c d \<Longrightarrow> length x < sha1_limit \<Longrightarrow>
      \<exists>c'. cs_sha1_update c x (of_nat (length x)) = Some c' \<and> sha1_absorbed c' (d @ x)"
    by (rule sha1_update_absorbed)
  show "sha1_absorbed c d \<Longrightarrow> cs_sha1_final c = Some (sha1 d)" by (rule sha1_final_spec)
qed

lemma sha1_feed_eq: "sha1_feed ms c = sha1_hash.feed ms c"
  by (induction ms arbitrary: c) simp_all

lemma mg_hash_sha1_v_sha1:
  assumes "length junk = 64" "\<forall>m \<in> set msgs. length m < 2 ^ 32 - 64"
  shows "mg_hash_sha1_v junk msgs = Some (sha1 (concat msgs))"
proof -
  have "sha1_hash.pieces_ok msgs" using assms(2) by (simp add: sha1_hash.pieces_ok_def) (simp add: sha1_limit_def)
  moreover have "sha1_fresh (cs_sha1_init junk)" using assms(1) by (auto simp: sha1_fresh_def)
  ultimately show ?thesis using sha1_hash.hash_concat by (simp add: mg_hash_sha1_v_def sha1_feed_eq)
qed

text \<open>C9: hashing any number of pieces with the incremental interface gives the SHA-1 digest of FIPS 180-4 of their concatenation, however the message is cut and whatever the context's memory held; pieces are shorter than \<open>2\<^sup>3\<^sup>2 - 64\<close> bytes, where the 32-bit index does not wrap.\<close>
theorem mg_hash_sha1_v_spec:
  assumes "length junk = 64" "\<forall>m \<in> set msgs. length m < 2 ^ 32 - 64"
  shows "mg_hash_sha1_v junk msgs = Some (sha1 (concat msgs))"
  by (rule mg_hash_sha1_v_sha1 [OF assms])

lemma mg_hash_sha1_v_spec_witness:
  "mg_hash_sha1_v (replicate 64 7) [cstr ''ab'', cstr ''c''] = Some (sha1 (cstr ''abc'')) \<and>
   mg_hash_sha1_v (replicate 64 7) [cstr ''ab'', cstr ''c''] = mg_hash_sha1_v (replicate 64 9) [cstr ''abc'']"
  using mg_hash_sha1_v_spec [of "replicate 64 7" "[cstr ''ab'', cstr ''c'']"] mg_hash_sha1_v_spec [of "replicate 64 9" "[cstr ''abc'']"]
  by simp


subsection \<open>HMAC\<close>

text \<open>
  A key longer than a block is replaced by its digest. \<open>junk\<close> is what the context's buffer holds on the stack; a finished
  context is all zeros.
\<close>

definition cs_hmac_sha1 :: "bytes \<Rightarrow> bytes \<Rightarrow> bytes \<Rightarrow> bytes option" where
  "cs_hmac_sha1 junk key data = do {
     (junk, key) \<leftarrow> (if length key > 64 then do {
         ctx \<leftarrow> cs_sha1_update (cs_sha1_init junk) key (of_nat (length key));
         tmp_key \<leftarrow> cs_sha1_final ctx;
         Some (replicate 64 0, tmp_key) }
       else Some (junk, key));
     let buf1 = map (\<lambda>c. c XOR 0x36) (blit (replicate 64 0) 0 key);
     let buf2 = map (\<lambda>c. c XOR 0x5c) (blit (replicate 64 0) 0 key);
     ctx \<leftarrow> cs_sha1_update (cs_sha1_init junk) buf1 64;
     ctx \<leftarrow> cs_sha1_update ctx data (of_nat (length data));
     out \<leftarrow> cs_sha1_final ctx;
     ctx \<leftarrow> cs_sha1_update (cs_sha1_init (replicate 64 0)) buf2 64;
     ctx \<leftarrow> cs_sha1_update ctx out 20;
     cs_sha1_final ctx }"

text \<open>HMAC-SHA-1 of RFC 2104.\<close>

definition hmac_key :: "bytes \<Rightarrow> bytes" where
  "hmac_key key = (let k = (if length key > 64 then sha1 key else key) in k @ replicate (64 - length k) 0)"

definition hmac_sha1 :: "bytes \<Rightarrow> bytes \<Rightarrow> bytes" where
  "hmac_sha1 key data =
     sha1 (map (\<lambda>c. c XOR 0x5c) (hmac_key key) @ sha1 (map (\<lambda>c. c XOR 0x36) (hmac_key key) @ data))"

lemma length_sha1: "length (sha1 m) = 20"
  by (simp add: sha1_def be32_bytes_def split: prod.split)

lemma length_hmac_key: "length (hmac_key key) = 64"
  by (simp add: hmac_key_def length_sha1 Let_def)

text \<open>C33: \<open>cs_hmac_sha1\<close> computes HMAC-SHA-1 as RFC 2104 defines it, for keys shorter and longer than a block.\<close>

theorem cs_hmac_sha1_spec:
  assumes "length junk = 64" "length key < 2 ^ 32 - 64" "length data < 2 ^ 32 - 64"
  shows "cs_hmac_sha1 junk key data = Some (hmac_sha1 key data)"
proof -
  have key: "blit (replicate 64 0) 0 (if length key > 64 then sha1 key else key) = hmac_key key"
    by (simp add: blit_def hmac_key_def length_sha1 Let_def)
  obtain j where j: "length j = 64" "(if length key > 64 then do {
         ctx \<leftarrow> cs_sha1_update (cs_sha1_init junk) key (of_nat (length key));
         tmp_key \<leftarrow> cs_sha1_final ctx;
         Some (replicate 64 0, tmp_key) }
       else Some (junk, key)) = Some (j, if length key > 64 then sha1 key else key)"
  proof (cases "length key > 64")
    case True
    have "mg_hash_sha1_v junk [key] = Some (sha1 key)" using mg_hash_sha1_v_sha1 [of junk "[key]"] assms(1,2) by simp
    then have "do { ctx \<leftarrow> cs_sha1_update (cs_sha1_init junk) key (of_nat (length key));
         tmp_key \<leftarrow> cs_sha1_final ctx; Some (replicate 64 (0 :: byte), tmp_key) } = Some (replicate 64 0, sha1 key)"
      by (auto simp: mg_hash_sha1_v_def split: bind_splits)
    with True that [of "replicate 64 0"] show thesis by simp
  qed (use that [of junk] assms(1) in simp)
  have inner: "mg_hash_sha1_v j [map (\<lambda>c. c XOR 0x36) (hmac_key key), data] = Some (sha1 (map (\<lambda>c. c XOR 0x36) (hmac_key key) @ data))"
    using mg_hash_sha1_v_sha1 [OF j(1), of "[map (\<lambda>c. c XOR 0x36) (hmac_key key), data]"] assms(3) by (simp add: length_hmac_key)
  have out: "mg_hash_sha1_v (replicate 64 0) [map (\<lambda>c. c XOR 0x5c) (hmac_key key), sha1 m] =
      Some (sha1 (map (\<lambda>c. c XOR 0x5c) (hmac_key key) @ sha1 m))" for m
    using mg_hash_sha1_v_sha1 [of "replicate 64 0" "[map (\<lambda>c. c XOR 0x5c) (hmac_key key), sha1 m]"] by (simp add: length_sha1 length_hmac_key)
  have "\<exists>c c'. cs_sha1_update (cs_sha1_init j) (map (\<lambda>c. c XOR 0x36) (hmac_key key)) 64 = Some c \<and>
      cs_sha1_update c data (of_nat (length data)) = Some c' \<and>
      cs_sha1_final c' = Some (sha1 (map (\<lambda>c. c XOR 0x36) (hmac_key key) @ data))"
    using inner by (simp add: mg_hash_sha1_v_def length_hmac_key split: bind_splits)
  moreover have "\<exists>c c'. cs_sha1_update (cs_sha1_init (replicate 64 0)) (map (\<lambda>c. c XOR 0x5c) (hmac_key key)) 64 = Some c \<and>
      cs_sha1_update c (sha1 m) 20 = Some c' \<and>
      cs_sha1_final c' = Some (sha1 (map (\<lambda>c. c XOR 0x5c) (hmac_key key) @ sha1 m))" for m
    using out [of m] by (simp add: mg_hash_sha1_v_def length_hmac_key length_sha1 split: bind_splits)
  ultimately show ?thesis
    unfolding cs_hmac_sha1_def j(2) using key by (auto simp: Let_def hmac_sha1_def)
qed

lemma cs_hmac_sha1_spec_witness:
  "cs_hmac_sha1 (replicate 64 3) (cstr ''key'') (cstr ''data'') = Some (hmac_sha1 (cstr ''key'') (cstr ''data'')) \<and>
   cs_hmac_sha1 (replicate 64 3) (replicate 70 1) [] = Some (hmac_sha1 (sha1 (replicate 70 1)) [])"
  using cs_hmac_sha1_spec [of "replicate 64 3" "cstr ''key''" "cstr ''data''"] cs_hmac_sha1_spec [of "replicate 64 3" "replicate 70 1" "[]"]
  by (simp add: hmac_sha1_def hmac_key_def length_sha1)
end
