(* ===== verification/MgMd5.thy ===== *)
theory MgMd5
  imports MgHash
begin

text \<open>
  MD5 (common/cs_md5.c of 3rdLib/mongoose/mongoose.c) on a little-endian machine, where byteReverse does nothing. The four
  working variables are a list, numbered 0 to 3, and the 64 macro calls a table in the order of the code. The specification
  is the one of RFC 1321, with its functions F, G, H and I written out.
\<close>

subsection \<open>The block function\<close>

record md5_ctx =
  md_buf :: "u32 list"
  md_bits :: "u32 \<times> u32"
  md_in :: bytes

definition F1 :: "u32 \<Rightarrow> u32 \<Rightarrow> u32 \<Rightarrow> u32" where "F1 x y z = z XOR (x AND (y XOR z))"
definition F2 :: "u32 \<Rightarrow> u32 \<Rightarrow> u32 \<Rightarrow> u32" where "F2 x y z = F1 z x y"
definition F3 :: "u32 \<Rightarrow> u32 \<Rightarrow> u32 \<Rightarrow> u32" where "F3 x y z = x XOR y XOR z"
definition F4 :: "u32 \<Rightarrow> u32 \<Rightarrow> u32 \<Rightarrow> u32" where "F4 x y z = y XOR (x OR NOT z)"

type_synonym md5_call = "(u32 \<Rightarrow> u32 \<Rightarrow> u32 \<Rightarrow> u32) \<times> nat \<times> nat \<times> nat \<times> nat \<times> nat \<times> u32 \<times> nat"

text \<open>A call: the function, the four variables, the index of the input word, the constant and the rotation.\<close>

definition MD5STEP :: "u32 list \<Rightarrow> md5_call \<Rightarrow> u32 list \<Rightarrow> u32 list" where
  "MD5STEP inp = (\<lambda>(f, w, x, y, z, i, k, s) r.
     let r = r[w := r ! w + (f (r ! x) (r ! y) (r ! z) + (inp ! i + k))];
         r = r[w := rol (r ! w) s]
     in r[w := r ! w + r ! x])"

definition md5_calls :: "md5_call list" where
  "md5_calls = (let a = 0; b = 1; c = 2; d = 3 in
     [(F1, a, b, c, d, 0, 0xd76aa478, 7), (F1, d, a, b, c, 1, 0xe8c7b756, 12), (F1, c, d, a, b, 2, 0x242070db, 17), (F1, b, c, d, a, 3, 0xc1bdceee, 22),
      (F1, a, b, c, d, 4, 0xf57c0faf, 7), (F1, d, a, b, c, 5, 0x4787c62a, 12), (F1, c, d, a, b, 6, 0xa8304613, 17), (F1, b, c, d, a, 7, 0xfd469501, 22),
      (F1, a, b, c, d, 8, 0x698098d8, 7), (F1, d, a, b, c, 9, 0x8b44f7af, 12), (F1, c, d, a, b, 10, 0xffff5bb1, 17), (F1, b, c, d, a, 11, 0x895cd7be, 22),
      (F1, a, b, c, d, 12, 0x6b901122, 7), (F1, d, a, b, c, 13, 0xfd987193, 12), (F1, c, d, a, b, 14, 0xa679438e, 17), (F1, b, c, d, a, 15, 0x49b40821, 22),
      (F2, a, b, c, d, 1, 0xf61e2562, 5), (F2, d, a, b, c, 6, 0xc040b340, 9), (F2, c, d, a, b, 11, 0x265e5a51, 14), (F2, b, c, d, a, 0, 0xe9b6c7aa, 20),
      (F2, a, b, c, d, 5, 0xd62f105d, 5), (F2, d, a, b, c, 10, 0x02441453, 9), (F2, c, d, a, b, 15, 0xd8a1e681, 14), (F2, b, c, d, a, 4, 0xe7d3fbc8, 20),
      (F2, a, b, c, d, 9, 0x21e1cde6, 5), (F2, d, a, b, c, 14, 0xc33707d6, 9), (F2, c, d, a, b, 3, 0xf4d50d87, 14), (F2, b, c, d, a, 8, 0x455a14ed, 20),
      (F2, a, b, c, d, 13, 0xa9e3e905, 5), (F2, d, a, b, c, 2, 0xfcefa3f8, 9), (F2, c, d, a, b, 7, 0x676f02d9, 14), (F2, b, c, d, a, 12, 0x8d2a4c8a, 20),
      (F3, a, b, c, d, 5, 0xfffa3942, 4), (F3, d, a, b, c, 8, 0x8771f681, 11), (F3, c, d, a, b, 11, 0x6d9d6122, 16), (F3, b, c, d, a, 14, 0xfde5380c, 23),
      (F3, a, b, c, d, 1, 0xa4beea44, 4), (F3, d, a, b, c, 4, 0x4bdecfa9, 11), (F3, c, d, a, b, 7, 0xf6bb4b60, 16), (F3, b, c, d, a, 10, 0xbebfbc70, 23),
      (F3, a, b, c, d, 13, 0x289b7ec6, 4), (F3, d, a, b, c, 0, 0xeaa127fa, 11), (F3, c, d, a, b, 3, 0xd4ef3085, 16), (F3, b, c, d, a, 6, 0x04881d05, 23),
      (F3, a, b, c, d, 9, 0xd9d4d039, 4), (F3, d, a, b, c, 12, 0xe6db99e5, 11), (F3, c, d, a, b, 15, 0x1fa27cf8, 16), (F3, b, c, d, a, 2, 0xc4ac5665, 23),
      (F4, a, b, c, d, 0, 0xf4292244, 6), (F4, d, a, b, c, 7, 0x432aff97, 10), (F4, c, d, a, b, 14, 0xab9423a7, 15), (F4, b, c, d, a, 5, 0xfc93a039, 21),
      (F4, a, b, c, d, 12, 0x655b59c3, 6), (F4, d, a, b, c, 3, 0x8f0ccc92, 10), (F4, c, d, a, b, 10, 0xffeff47d, 15), (F4, b, c, d, a, 1, 0x85845dd1, 21),
      (F4, a, b, c, d, 8, 0x6fa87e4f, 6), (F4, d, a, b, c, 15, 0xfe2ce6e0, 10), (F4, c, d, a, b, 6, 0xa3014314, 15), (F4, b, c, d, a, 13, 0x4e0811a1, 21),
      (F4, a, b, c, d, 4, 0xf7537e82, 6), (F4, d, a, b, c, 11, 0xbd3af235, 10), (F4, c, d, a, b, 2, 0x2ad7d2bb, 15), (F4, b, c, d, a, 9, 0xeb86d391, 21)])"

definition cs_md5_transform :: "u32 list \<Rightarrow> u32 list \<Rightarrow> u32 list" where
  "cs_md5_transform buf inp = map2 (+) buf (fold (MD5STEP inp) md5_calls buf)"

subsection \<open>Contexts\<close>

text \<open>A fresh context; its input buffer is whatever the memory held.\<close>

definition cs_md5_init :: "bytes \<Rightarrow> md5_ctx" where
  "cs_md5_init junk = \<lparr>md_buf = [0x67452301, 0xefcdab89, 0x98badcfe, 0x10325476], md_bits = (0, 0), md_in = junk\<rparr>"

text \<open>The loop over whole blocks, each copied into the context first; the bytes that are left are copied behind it.\<close>

function md5_blocks :: "bytes \<Rightarrow> md5_ctx \<Rightarrow> md5_ctx" where
  "md5_blocks buf ctx =
     (if length buf \<ge> 64 then
        let inp = blit (md_in ctx) 0 (take 64 buf)
        in md5_blocks (drop 64 buf) (ctx\<lparr>md_in := inp, md_buf := cs_md5_transform (md_buf ctx) (le32_words 16 inp)\<rparr>)
      else ctx\<lparr>md_in := blit (md_in ctx) 0 buf\<rparr>)"
  by pat_completeness auto
termination by (relation "measure (\<lambda>(buf, ctx). length buf)") auto

declare md5_blocks.simps [simp del]

definition cs_md5_update :: "bytes \<Rightarrow> md5_ctx \<Rightarrow> md5_ctx" where
  "cs_md5_update buf ctx =
     (let t = unat (drop_bit 3 (fst (md_bits ctx)) AND 0x3f);
          ctx = ctx\<lparr>md_bits := count_bits (of_nat (length buf)) (md_bits ctx)\<rparr>
      in if t \<noteq> 0 then
           (let n = 64 - t in
            if length buf < n then ctx\<lparr>md_in := blit (md_in ctx) t buf\<rparr>
            else
              let inp = blit (md_in ctx) t (take n buf)
              in md5_blocks (drop n buf) (ctx\<lparr>md_in := inp, md_buf := cs_md5_transform (md_buf ctx) (le32_words 16 inp)\<rparr>))
         else md5_blocks buf ctx)"

definition cs_md5_final :: "md5_ctx \<Rightarrow> bytes" where
  "cs_md5_final ctx =
     (let count = unat (drop_bit 3 (fst (md_bits ctx)) AND 0x3F);
          inp = blit (md_in ctx) count [0x80];
          p = count + 1;
          n = 64 - 1 - count;
          (buf, inp) =
            (if n < 8 then
               let inp = blit inp p (replicate n 0)
               in (cs_md5_transform (md_buf ctx) (le32_words 16 inp), blit inp 0 (replicate 56 0))
             else (md_buf ctx, blit inp p (replicate (n - 8) 0)));
          a = (le32_words 16 inp)[14 := fst (md_bits ctx), 15 := snd (md_bits ctx)]
      in le32_bytes (cs_md5_transform buf a))"

definition mg_hash_md5_v :: "bytes \<Rightarrow> bytes list \<Rightarrow> bytes" where
  "mg_hash_md5_v junk msgs = cs_md5_final (fold cs_md5_update msgs (cs_md5_init junk))"

subsection \<open>The specification\<close>

definition rfc_f :: "nat \<Rightarrow> u32 \<Rightarrow> u32 \<Rightarrow> u32 \<Rightarrow> u32" where
  "rfc_f t x y z =
     (if t < 16 then (x AND y) OR (NOT x AND z)
      else if t < 32 then (x AND z) OR (y AND NOT z)
      else if t < 48 then x XOR y XOR z
      else y XOR (x OR NOT z))"

definition rfc_index :: "nat \<Rightarrow> nat" where
  "rfc_index t = (if t < 16 then t else if t < 32 then (5 * t + 1) mod 16 else if t < 48 then (3 * t + 5) mod 16 else 7 * t mod 16)"

definition rfc_shift :: "nat \<Rightarrow> nat" where
  "rfc_shift t = [[7, 12, 17, 22], [5, 9, 14, 20], [4, 11, 16, 23], [6, 10, 15, 21]] ! (t div 16) ! (t mod 4)"

text \<open>The table T of the RFC: the whole part of \<open>2\<^sup>3\<^sup>2\<close> times the absolute sine of 1 to 64.\<close>

definition rfc_T :: "u32 list" where
  "rfc_T =
    [0xd76aa478, 0xe8c7b756, 0x242070db, 0xc1bdceee, 0xf57c0faf, 0x4787c62a, 0xa8304613, 0xfd469501,
     0x698098d8, 0x8b44f7af, 0xffff5bb1, 0x895cd7be, 0x6b901122, 0xfd987193, 0xa679438e, 0x49b40821,
     0xf61e2562, 0xc040b340, 0x265e5a51, 0xe9b6c7aa, 0xd62f105d, 0x02441453, 0xd8a1e681, 0xe7d3fbc8,
     0x21e1cde6, 0xc33707d6, 0xf4d50d87, 0x455a14ed, 0xa9e3e905, 0xfcefa3f8, 0x676f02d9, 0x8d2a4c8a,
     0xfffa3942, 0x8771f681, 0x6d9d6122, 0xfde5380c, 0xa4beea44, 0x4bdecfa9, 0xf6bb4b60, 0xbebfbc70,
     0x289b7ec6, 0xeaa127fa, 0xd4ef3085, 0x04881d05, 0xd9d4d039, 0xe6db99e5, 0x1fa27cf8, 0xc4ac5665,
     0xf4292244, 0x432aff97, 0xab9423a7, 0xfc93a039, 0x655b59c3, 0x8f0ccc92, 0xffeff47d, 0x85845dd1,
     0x6fa87e4f, 0xfe2ce6e0, 0xa3014314, 0x4e0811a1, 0xf7537e82, 0xbd3af235, 0x2ad7d2bb, 0xeb86d391]"

definition rfc_step :: "u32 list \<Rightarrow> nat \<Rightarrow> u32 \<times> u32 \<times> u32 \<times> u32 \<Rightarrow> u32 \<times> u32 \<times> u32 \<times> u32" where
  "rfc_step x t = (\<lambda>(a, b, c, d).
     (d, b + word_rotl (rfc_shift t) (a + rfc_f t b c d + x ! rfc_index t + rfc_T ! t), b, c))"

definition rfc_compress :: "u32 \<times> u32 \<times> u32 \<times> u32 \<Rightarrow> bytes \<Rightarrow> u32 \<times> u32 \<times> u32 \<times> u32" where
  "rfc_compress h blk =
     (let (h0, h1, h2, h3) = h; (a, b, c, d) = fold (rfc_step (le32_words 16 blk)) [0..<64] h
      in (h0 + a, h1 + b, h2 + c, h3 + d))"

definition md5_padding :: "nat \<Rightarrow> bytes" where
  "md5_padding n = 0x80 # replicate ((119 - n mod 64) mod 64) 0 @ rev (to_be 8 (8 * n))"

definition md5 :: "bytes \<Rightarrow> bytes" where
  "md5 m =
     (case fst (absorb rfc_compress (0x67452301, 0xefcdab89, 0x98badcfe, 0x10325476) (m @ md5_padding (length m)))
      of (a, b, c, d) \<Rightarrow> le32_bytes [a, b, c, d])"


subsection \<open>The block function meets its specification\<close>

lemma F_choice: "F1 x y z = (x AND y) OR (NOT x AND z)" "F2 x y z = (x AND z) OR (y AND NOT z)"
  by (rule bit_word_eqI, auto simp: F2_def F1_def bit_simps)+

definition md5_call_at :: "nat \<Rightarrow> md5_call" where
  "md5_call_at t = ((if t < 16 then F1 else if t < 32 then F2 else if t < 48 then F3 else F4),
     3 * t mod 4, (3 * t + 1) mod 4, (3 * t + 2) mod 4, (3 * t + 3) mod 4, rfc_index t, rfc_T ! t, rfc_shift t)"

lemma md5_calls_regular: "md5_calls = map md5_call_at [0..<64]"
  by (simp add: md5_calls_def upt_rec md5_call_at_def rfc_index_def rfc_T_def rfc_shift_def)

definition md5_view :: "nat \<Rightarrow> u32 list \<Rightarrow> u32 \<times> u32 \<times> u32 \<times> u32" where
  "md5_view t r = (r ! (3 * t mod 4), r ! ((3 * t + 1) mod 4), r ! ((3 * t + 2) mod 4), r ! ((3 * t + 3) mod 4))"

lemma rfc_f_eq: "(if t < 16 then F1 else if t < 32 then F2 else if t < 48 then F3 else F4) x y z = rfc_f t x y z"
  unfolding rfc_f_def by (simp add: F_choice F3_def F4_def)

lemma rfc_shift_range: "t < 64 \<Longrightarrow> 0 < rfc_shift t \<and> rfc_shift t < 32"
proof -
  assume t: "t < 64"
  have "\<forall>t \<in> set [0..<64]. 0 < rfc_shift t \<and> rfc_shift t < 32" by (simp add: upt_rec rfc_shift_def)
  then show ?thesis using t by simp
qed

lemma MD5STEP_view:
  assumes "length r = 4" "t < 64"
  shows "length (MD5STEP inp (md5_call_at t) r) = 4 \<and> md5_view (Suc t) (MD5STEP inp (md5_call_at t) r) = rfc_step inp t (md5_view t r)"
proof -
  define p where "p = 3 * t mod 4"
  have p: "p < 4" by (simp add: p_def)
  have m: "(3 * t + k) mod 4 = (p + k) mod 4" for k by (simp add: p_def mod_simps)
  have s: "3 * Suc t mod 4 = (p + 3) mod 4" "(3 * Suc t + k) mod 4 = (p + 3 + k) mod 4" for k
    using m [of 3] m [of "3 + k"] by (simp_all add: algebra_simps)
  consider "p = 0" | "p = 1" | "p = 2" | "p = 3" using p by linarith
  then show ?thesis
    using assms(1) rfc_shift_range [OF assms(2)] unfolding md5_call_at_def md5_view_def s m p_def [symmetric]
    by cases (simp_all add: MD5STEP_def rfc_step_def Let_def rfc_f_eq rol_rotl algebra_simps numeral_2_eq_2,
        simp add: numeral_3_eq_3)
qed

lemma md5_rounds:
  assumes "length r = 4" "n \<le> 64"
  shows "length (fold (MD5STEP inp) (map md5_call_at [0..<n]) r) = 4 \<and>
    md5_view n (fold (MD5STEP inp) (map md5_call_at [0..<n]) r) = fold (rfc_step inp) [0..<n] (md5_view 0 r)"
  using assms(2)
proof (induction n)
  case (Suc n)
  then show ?case using MD5STEP_view [of _ n inp] by simp
qed (use assms(1) in simp)

abbreviation md5_list :: "u32 \<times> u32 \<times> u32 \<times> u32 \<Rightarrow> u32 list" where
  "md5_list h \<equiv> case h of (a, b, c, d) \<Rightarrow> [a, b, c, d]"

lemma list4: "length r = 4 \<Longrightarrow> r = [r ! 0, r ! 1, r ! 2, r ! 3]"
  by (auto simp: list_eq_iff_nth_eq less_Suc_eq numeral_eq_Suc)

lemma md5_transform_rfc: "cs_md5_transform (md5_list h) (le32_words 16 b) = md5_list (rfc_compress h b)"
proof -
  obtain a0 a1 a2 a3 where h: "h = (a0, a1, a2, a3)" by (cases h)
  define r where "r = fold (MD5STEP (le32_words 16 b)) (map md5_call_at [0..<64]) (md5_list h)"
  have r: "length r = 4" "md5_view 64 r = fold (rfc_step (le32_words 16 b)) [0..<64] (md5_view 0 (md5_list h))"
    using md5_rounds [of "md5_list h" 64 "le32_words 16 b"] by (simp_all add: h r_def)
  have "md5_view 64 r = (r ! 0, r ! 1, r ! 2, r ! 3)" "md5_view 0 (md5_list h) = h" by (simp_all add: md5_view_def h)
  then have "fold (rfc_step (le32_words 16 b)) [0..<64] h = (r ! 0, r ! 1, r ! 2, r ! 3)" using r(2) by simp
  moreover have "cs_md5_transform (md5_list h) (le32_words 16 b) = map2 (+) (md5_list h) [r ! 0, r ! 1, r ! 2, r ! 3]"
    unfolding cs_md5_transform_def md5_calls_regular r_def [symmetric] using list4 [OF r(1)] by (rule arg_cong)
  ultimately show ?thesis by (simp add: rfc_compress_def h)
qed

subsection \<open>Contexts meet the contract\<close>

abbreviation md5_iv :: "u32 \<times> u32 \<times> u32 \<times> u32" where
  "md5_iv \<equiv> (0x67452301, 0xefcdab89, 0x98badcfe, 0x10325476)"

definition md5_absorbed :: "md5_ctx \<Rightarrow> bytes \<Rightarrow> bool" where
  "md5_absorbed c d \<longleftrightarrow> (\<exists>h r. absorb rfc_compress md5_iv d = (h, r) \<and> md_buf c = md5_list h \<and>
     md_bits c = bit_count (length d) \<and> length (md_in c) = 64 \<and> take (length r) (md_in c) = r)"

definition md5_limit :: nat where "md5_limit = 2 ^ 32"

lemma md5_blocks_absorb:
  assumes "absorb rfc_compress h x = (h', r)" "md_buf c = md5_list h" "length (md_in c) = 64"
  shows "md_buf (md5_blocks x c) = md5_list h' \<and> md_bits (md5_blocks x c) = md_bits c \<and> length (md_in (md5_blocks x c)) = 64 \<and>
    take (length r) (md_in (md5_blocks x c)) = r"
  using assms
proof (induction x c arbitrary: h rule: md5_blocks.induct)
  case (1 x c)
  show ?case
  proof (cases "length x \<ge> 64")
    case False
    then have "absorb rfc_compress h x = (h, x)" by (intro absorb_short) simp
    then show ?thesis using False "1.prems" by (subst (1 2 3 4) md5_blocks.simps) (simp add: blit_def)
  next
    case True
    then have i: "blit (md_in c) 0 (take 64 x) = take 64 x" using "1.prems"(3) by (simp add: blit_def)
    let ?c = "c\<lparr>md_in := take 64 x, md_buf := md5_list (rfc_compress h (take 64 x))\<rparr>"
    have e: "md5_blocks x c = md5_blocks (drop 64 x) ?c"
      by (subst md5_blocks.simps) (use True in \<open>simp add: i Let_def "1.prems"(2) md5_transform_rfc\<close>)
    have "absorb rfc_compress (rfc_compress h (take 64 x)) (drop 64 x) = (h', r)"
      using "1.prems"(1) True by (simp add: absorb.simps [of rfc_compress h x])
    then show ?thesis
      unfolding e using "1.IH" [OF True refl, of "rfc_compress h (take 64 x)"] True "1.prems"(2)
      by (simp add: i md5_transform_rfc)
  qed
qed

lemma md5_update_absorbed:
  assumes a: "md5_absorbed c d" and lx: "length x < md5_limit"
  shows "md5_absorbed (cs_md5_update x c) (d @ x)"
proof -
  obtain h r where c: "absorb rfc_compress md5_iv d = (h, r)" "md_buf c = md5_list h" "md_bits c = bit_count (length d)"
    "length (md_in c) = 64" "take (length r) (md_in c) = r" using a by (auto simp: md5_absorbed_def)
  have r: "length r < 64" "unat (drop_bit 3 (fst (md_bits c)) AND 0x3f) = length r"
    using absorb_rest [OF c(1)] count_index by (simp_all add: c(3))
  have cnt: "count_bits (of_nat (length x)) (md_bits c) = bit_count (length (d @ x))"
    using lx count_bits_add [of "length x" "length d"] by (simp add: c(3) md5_limit_def)
  let ?c = "c\<lparr>md_bits := bit_count (length (d @ x))\<rparr>"
  have ab: "absorb rfc_compress md5_iv (d @ x) = absorb rfc_compress h (r @ x)" by (rule absorb_append [OF c(1)])
  have blocks: "md5_absorbed (md5_blocks y k) (d @ x)"
    if "absorb rfc_compress md5_iv (d @ x) = absorb rfc_compress g y" "md_buf k = md5_list g" "length (md_in k) = 64"
      "md_bits k = bit_count (length (d @ x))" for y k g
  proof -
    obtain h' r' where hr: "absorb rfc_compress g y = (h', r')" by fastforce
    from md5_blocks_absorb [OF hr that(2,3)] show ?thesis using that(1,4) hr by (auto simp: md5_absorbed_def)
  qed
  consider (empty) "r = []" | (part) "r \<noteq> []" "length x < 64 - length r" | (full) "r \<noteq> []" "64 - length r \<le> length x" by linarith
  then show ?thesis
  proof cases
    case empty
    then have "cs_md5_update x c = md5_blocks x ?c" using r(2) cnt by (simp add: cs_md5_update_def Let_def)
    then show ?thesis using blocks [of h x ?c] ab c(2,4) empty by simp
  next
    case part
    then have u: "cs_md5_update x c = ?c\<lparr>md_in := blit (md_in c) (length r) x\<rparr>"
      unfolding cs_md5_update_def Let_def r(2) cnt by simp
    have "absorb rfc_compress h (r @ x) = (h, r @ x)" using part by (intro absorb_short) simp
    then show ?thesis using part u c(2,4,5) ab by (auto simp: md5_absorbed_def blit_def)
  next
    case full
    define n where "n = 64 - length r"
    have n: "length (r @ take n x) = 64" "n \<le> length x" using full r(1) by (auto simp: n_def)
    have buf: "blit (md_in c) (length r) (take n x) = r @ take n x" using n c(4,5) by (simp add: blit_def n_def)
    let ?k = "?c\<lparr>md_in := r @ take n x, md_buf := md5_list (rfc_compress h (r @ take n x))\<rparr>"
    have "cs_md5_update x c = md5_blocks (drop n x) ?k"
      unfolding cs_md5_update_def Let_def r(2) cnt n_def [symmetric] using full n(2)
      by (simp add: buf c(2) md5_transform_rfc)
    moreover have "absorb rfc_compress h (r @ x) = absorb rfc_compress (rfc_compress h (r @ take n x)) (drop n x)"
      using absorb_block [OF n(1), of rfc_compress h "drop n x"] by simp
    ultimately show ?thesis using blocks [of "rfc_compress h (r @ take n x)" "drop n x" ?k] ab n(1) by simp
  qed
qed

text \<open>The length at the end of the last block, least significant byte first.\<close>

lemma bit_word_of_nat: "bit (of_nat x :: 'a :: len word) i \<longleftrightarrow> i < LENGTH('a) \<and> bit x i"
  using bit_word_of_int_iff [of "int x" i, where 'a = 'a] by (simp add: bit_of_nat_iff)

lemma le32_of_nat:
  assumes "b ! 0 = of_nat m" "b ! 1 = of_nat (m div 2 ^ 8)" "b ! 2 = of_nat (m div 2 ^ 16)" "b ! 3 = of_nat (m div 2 ^ 24)"
  shows "le32 b = of_nat m"
proof (rule bit_word_eqI)
  have "\<forall>n \<in> set [0..<32]. bit (le32 b) n = bit (of_nat m :: u32) n"
    unfolding le32_def assms drop_bit_eq_div [symmetric] by (simp add: upt_rec bit_simps bit_word_of_nat) (simp add: numeral_eq_Suc)
  then show "bit (le32 b) n = bit (of_nat m :: u32) n" if "n < LENGTH(32)" for n using that by simp
qed

lemma le32_cong: "\<forall>k < 4. a ! k = b ! k \<Longrightarrow> le32 a = le32 b"
  by (simp add: le32_def)

lemma le32_words_length:
  assumes "length p = 56" "length inp = 64" "take 56 inp = p"
  shows "le32_words 16 (p @ rev (to_be 8 m)) = (le32_words 16 inp)[14 := of_nat m, 15 := of_nat (m div 2 ^ 32)]"
proof (rule nth_equalityI)
  let ?b = "p @ rev (to_be 8 m)"
  show "le32_words 16 ?b ! i = (le32_words 16 inp)[14 := of_nat m, 15 := of_nat (m div 2 ^ 32)] ! i"
    if "i < length (le32_words 16 ?b)" for i
  proof -
    have i: "i < 16" using that by (simp add: le32_words_def)
    consider "i < 14" | "i = 14" | "i = 15" using i by linarith
    then show ?thesis
    proof cases
      case 1
      have "drop (4 * i) ?b ! k = drop (4 * i) inp ! k" if "k < 4" for k
      proof -
        have "4 * i + k < 56" using 1 that by simp
        then have "?b ! (4 * i + k) = inp ! (4 * i + k)" using assms nth_take [of "4 * i + k" 56 inp] by (simp add: nth_append)
        moreover have "drop (4 * i) ?b ! k = ?b ! (4 * i + k)" by (rule nth_drop) (use 1 assms in simp)
        moreover have "drop (4 * i) inp ! k = inp ! (4 * i + k)" by (rule nth_drop) (use 1 assms in simp)
        ultimately show ?thesis by simp
      qed
      then have "le32 (drop (4 * i) ?b) = le32 (drop (4 * i) inp)" by (intro le32_cong) simp
      then show ?thesis using 1 by (simp add: le32_words_def)
    next
      case 2
      then show ?thesis using assms(1) le32_of_nat [of "drop 56 ?b" m]
        by (simp add: le32_words_def to_be_8)
    next
      case 3
      then show ?thesis using assms(1) le32_of_nat [of "drop 60 ?b" "m div 2 ^ 32"]
        by (simp add: le32_words_def to_be_8 div_mult2_eq [symmetric])
    qed
  qed
qed (simp add: le32_words_def)

lemma md5_final_spec:
  assumes "md5_absorbed c d"
  shows "cs_md5_final c = md5 d"
proof -
  obtain h r where c: "absorb rfc_compress md5_iv d = (h, r)" "md_buf c = md5_list h" "md_bits c = bit_count (length d)"
    "length (md_in c) = 64" "take (length r) (md_in c) = r" using assms by (auto simp: md5_absorbed_def)
  define q and m where "q = length r" and "m = 8 * length d"
  have q: "q < 64" "length d mod 64 = q" "unat (drop_bit 3 (fst (md_bits c)) AND 0x3F) = q"
    using absorb_rest [OF c(1)] count_index by (simp_all add: c(3) q_def)
  have bc: "md_bits c = (of_nat m, of_nat (m div 2 ^ 32))" by (simp only: c(3) bit_count_def m_def)
  have last: "cs_md5_transform (md5_list g) ((le32_words 16 inp)[14 := of_nat m, 15 := of_nat (m div 2 ^ 32)]) =
      md5_list (fst (absorb rfc_compress g (p @ rev (to_be 8 m))))"
    if "length p = 56" "length inp = 64" "take 56 inp = p" for g p inp
  proof -
    have "absorb rfc_compress g (p @ rev (to_be 8 m)) = (rfc_compress g (p @ rev (to_be 8 m)), [])"
      using absorb_block [of "p @ rev (to_be 8 m)" rfc_compress g "[]"] that(1) by (simp add: absorb_short)
    then show ?thesis using le32_words_length [OF that, of m] md5_transform_rfc [of g "p @ rev (to_be 8 m)"] by simp
  qed
  have b1: "blit (md_in c) q [0x80] = r @ 0x80 # drop (Suc q) (md_in c)" using c(4,5) by (simp add: blit_def q_def)
  have "cs_md5_final c = le32_bytes (md5_list (fst (absorb rfc_compress h (r @ md5_padding (length d)))))"
  proof (cases "q \<le> 55")
    case True
    then have k: "(119 - length d mod 64) mod 64 = 55 - q" "\<not> 63 - q < 8" "63 - q - 8 = 55 - q" using q(2) by (simp_all add: mod_if)
    let ?p = "r @ 0x80 # replicate (55 - q) 0"
    have b2: "blit (r @ 0x80 # drop (Suc q) (md_in c)) (Suc q) (replicate (55 - q) 0) = ?p @ drop 56 (md_in c)"
      using True c(4) by (simp add: blit_def q_def drop_Cons')
    have "cs_md5_final c = le32_bytes (cs_md5_transform (md5_list h)
        ((le32_words 16 (?p @ drop 56 (md_in c)))[14 := of_nat m, 15 := of_nat (m div 2 ^ 32)]))"
      unfolding cs_md5_final_def q(3) by (simp add: bc k(2,3) c(2) b1 b2 Let_def)
    also have "\<dots> = le32_bytes (md5_list (fst (absorb rfc_compress h (?p @ rev (to_be 8 m)))))"
    proof (rule arg_cong [OF last])
      show l: "length ?p = 56" using True by (simp add: q_def)
      show "length (?p @ drop 56 (md_in c)) = 64" unfolding length_append [of ?p] l using c(4) by simp
      show "take 56 (?p @ drop 56 (md_in c)) = ?p" by (metis append_eq_conv_conj l)
    qed
    finally show ?thesis unfolding md5_padding_def k(1) m_def [symmetric] by simp
  next
    case False
    then have k: "(119 - length d mod 64) mod 64 = (63 - q) + 56" "63 - q < 8" using q(1,2) by (simp_all add: mod_if)
    let ?b = "r @ 0x80 # replicate (63 - q) 0"
    have b: "length ?b = 64" using q(1) by (simp add: q_def)
    have b2: "blit (r @ 0x80 # drop (Suc q) (md_in c)) (Suc q) (replicate (63 - q) 0) = ?b"
      using q(1) c(4) by (simp add: blit_def q_def)
    have b3: "blit ?b 0 (replicate 56 0) = replicate 56 0 @ drop 56 ?b" by (simp add: blit_def)
    have "cs_md5_final c = le32_bytes (cs_md5_transform (md5_list (rfc_compress h ?b))
        ((le32_words 16 (replicate 56 0 @ drop 56 ?b))[14 := of_nat m, 15 := of_nat (m div 2 ^ 32)]))"
      unfolding cs_md5_final_def q(3) using b3 by (simp add: bc k(2) c(2) b1 b2 Let_def md5_transform_rfc)
    then show ?thesis
      using last [of "replicate 56 0" "replicate 56 0 @ drop 56 ?b" "rfc_compress h ?b"] b absorb_block [OF b, of rfc_compress h]
      by (simp add: md5_padding_def k(1) replicate_add m_def)
  qed
  moreover have "md5 d = le32_bytes (md5_list (fst (absorb rfc_compress h (r @ md5_padding (length d)))))"
    unfolding md5_def absorb_append [OF c(1)] by (simp split: prod.split)
  ultimately show ?thesis by simp
qed

definition md5_fresh :: "md5_ctx \<Rightarrow> bool" where
  "md5_fresh c \<longleftrightarrow> (\<exists>junk. length junk = 64 \<and> c = cs_md5_init junk)"

interpretation md5_hash: incremental_hash md5_fresh "\<lambda>c x. Some (cs_md5_update x c)" "\<lambda>c. Some (cs_md5_final c)"
  md5_absorbed md5 md5_limit
proof unfold_locales
  fix c d x
  show "md5_fresh c \<Longrightarrow> md5_absorbed c []"
    by (auto simp: md5_fresh_def md5_absorbed_def cs_md5_init_def absorb_short bit_count_def)
  show "md5_absorbed c d \<Longrightarrow> length x < md5_limit \<Longrightarrow> \<exists>c'. Some (cs_md5_update x c) = Some c' \<and> md5_absorbed c' (d @ x)"
    using md5_update_absorbed by blast
  show "md5_absorbed c d \<Longrightarrow> Some (cs_md5_final c) = Some (md5 d)" using md5_final_spec by simp
qed

lemma md5_feed_eq: "md5_hash.feed ms c = Some (fold cs_md5_update ms c)"
  by (induction ms arbitrary: c) simp_all

lemma mg_hash_md5_v_md5:
  assumes "length junk = 64" "\<forall>m \<in> set msgs. length m < 2 ^ 32"
  shows "mg_hash_md5_v junk msgs = md5 (concat msgs)"
proof -
  have "md5_hash.pieces_ok msgs" using assms(2) by (simp add: md5_hash.pieces_ok_def) (simp add: md5_limit_def)
  moreover have "md5_fresh (cs_md5_init junk)" using assms(1) by (auto simp: md5_fresh_def)
  ultimately show ?thesis using md5_hash.hash_concat [of "cs_md5_init junk" msgs] by (simp add: mg_hash_md5_v_def md5_feed_eq)
qed

text \<open>C10: hashing any number of pieces, each shorter than \<open>2\<^sup>3\<^sup>2\<close> bytes, with the incremental interface gives the MD5 digest of RFC 1321 of their concatenation, however the message is cut, on every one of the paths of update and final, and whatever the context's memory held.\<close>
theorem mg_hash_md5_v_spec:
  assumes "length junk = 64" "\<forall>m \<in> set msgs. length m < 2 ^ 32"
  shows "mg_hash_md5_v junk msgs = md5 (concat msgs)"
  by (rule mg_hash_md5_v_md5 [OF assms])

lemma mg_hash_md5_v_spec_witness:
  "mg_hash_md5_v (replicate 64 7) [cstr ''ab'', cstr ''c''] = md5 (cstr ''abc'') \<and>
   mg_hash_md5_v (replicate 64 7) [cstr ''ab'', cstr ''c''] = mg_hash_md5_v (replicate 64 9) [cstr ''abc'']"
  using mg_hash_md5_v_spec [of "replicate 64 7" "[cstr ''ab'', cstr ''c'']"] mg_hash_md5_v_spec [of "replicate 64 9" "[cstr ''abc'']"]
  by simp

end
