(* ===== verification/MgHttpAuth.thy ===== *)
theory MgHttpAuth
  imports MgHttp MgHttpCoding MgMd5
begin

text \<open>
  HTTP digest authentication (mongoose/src/mg_http.c of 3rdLib/mongoose/mongoose.c): the header a client sends, the check
  of a request against a file of htdigest lines, and the choice of that file. The clock is the number \<open>now\<close> of seconds, a
  file its bytes, and \<open>mem\<close> is what the uninitialised local arrays hold, by name. Pointers that are passed are not null.
\<close>

subsection \<open>Responses\<close>

definition local_array :: "(string \<Rightarrow> nat \<Rightarrow> byte) \<Rightarrow> string \<Rightarrow> nat \<Rightarrow> bytes" where
  "local_array mem x n = map (mem x) [0..<n]"

text \<open>The pieces are collected in arrays of 20 elements; the string that is written, without its zero.\<close>

definition cs_md5 :: "(string \<Rightarrow> nat \<Rightarrow> byte) \<Rightarrow> bytes list \<Rightarrow> bytes option" where
  "cs_md5 mem msgs =
     (if length msgs > 20 then None else Some (butlast (cs_to_hex (mg_hash_md5_v (local_array mem ''md5'' 64) msgs))))"

definition mg_mkmd5resp ::
    "(string \<Rightarrow> nat \<Rightarrow> byte) \<Rightarrow> bytes \<Rightarrow> bytes \<Rightarrow> bytes \<Rightarrow> bytes \<Rightarrow> bytes \<Rightarrow> bytes \<Rightarrow> bytes \<Rightarrow> bytes option" where
  "mg_mkmd5resp mem mth uri ha1 nonce nc cnonce qop = do {
     ha2 \<leftarrow> cs_md5 mem [mth, cstr '':'', uri];
     cs_md5 mem [ha1, cstr '':'', nonce, cstr '':'', nc, cstr '':'', cnonce, cstr '':'', qop, cstr '':'', ha2] }"

text \<open>\<open>%lx\<close>, and what snprintf stores in \<open>n\<close> bytes before the zero, with the length it returns.\<close>

fun fmt_lx :: "nat \<Rightarrow> bytes" where
  "fmt_lx n = (if n < 16 then [hex_digits ! n] else fmt_lx (n div 16) @ [hex_digits ! (n mod 16)])"

declare fmt_lx.simps [simp del]

definition snprintf :: "nat \<Rightarrow> bytes \<Rightarrow> bytes \<times> nat" where
  "snprintf n s = (take (n - 1) s, length s)"

definition mg_http_create_digest_auth_header ::
    "(string \<Rightarrow> nat \<Rightarrow> byte) \<Rightarrow> nat \<Rightarrow> nat \<Rightarrow> bytes \<Rightarrow> bytes \<Rightarrow> bytes \<Rightarrow> bytes \<Rightarrow> bytes \<Rightarrow> bytes \<Rightarrow> (bytes \<times> nat) option" where
  "mg_http_create_digest_auth_header mem now buf_len mth uri auth_domain user passwd nonce = do {
     let qop = cstr ''auth'';
     let cnonce = fst (snprintf 40 (fmt_lx now));
     ha1 \<leftarrow> cs_md5 mem [user, cstr '':'', auth_domain, cstr '':'', passwd];
     resp \<leftarrow> mg_mkmd5resp mem mth uri ha1 nonce (cstr ''1'') cnonce qop;
     Some (snprintf buf_len
       (cstr ''Authorization: Digest username='' @ [34] @ user @ [34, 44] @ cstr ''realm='' @ [34] @ auth_domain @ [34, 44] @
        cstr ''uri='' @ [34] @ uri @ [34, 44] @ cstr ''qop='' @ qop @ cstr '',nc=1,cnonce='' @ cnonce @ cstr '',nonce='' @ nonce @
        cstr '',response='' @ resp @ [13, 10])) }"

subsection \<open>The check\<close>

definition hex_value :: "byte \<Rightarrow> nat" where
  "hex_value c = (if isdigit c then unat c - 48 else unat (tolower c) - 87)"

text \<open>strtoul with base 16 on a C string: blanks, a sign, an optional 0x before a digit; it saturates, and a minus negates modulo \<open>2\<^sup>6\<^sup>4\<close>.\<close>

definition strtoul16 :: "bytes \<Rightarrow> nat" where
  "strtoul16 s =
     (let s = dropWhile isspace (c_string s);
          (neg, s) = (if s \<noteq> [] \<and> hd s = 45 then (True, tl s) else if s \<noteq> [] \<and> hd s = 43 then (False, tl s) else (False, s));
          s = (if length s > 2 \<and> s ! 0 = 48 \<and> tolower (s ! 1) = 120 \<and> isxdigit (s ! 2) then drop 2 s else s);
          v = fold (\<lambda>c v. v * 16 + hex_value c) (takeWhile isxdigit s) 0
      in if v \<ge> 2 ^ 64 then 2 ^ 64 - 1 else if neg then (2 ^ 64 - v) mod 2 ^ 64 else v)"

definition mg_check_nonce :: "nat \<Rightarrow> bytes \<Rightarrow> bool" where
  "mg_check_nonce now nonce = (let val = strtoul16 nonce in now \<ge> val \<and> now - val < 60 * 60)"

text \<open>fgets with a buffer of \<open>sz\<close> bytes: the line and the rest of the file.\<close>

definition fgets :: "nat \<Rightarrow> bytes \<Rightarrow> (bytes \<times> bytes) option" where
  "fgets sz f =
     (if f = [] then None
      else let k = min (length (takeWhile (\<lambda>c. c \<noteq> 10) f) + 1) (sz - 1) in Some (take k f, drop k f))"

text \<open>sscanf with the format \<open>%[^:]:%[^:]:%s\<close>, when all three conversions succeed.\<close>

definition sscanf_htdigest :: "bytes \<Rightarrow> (bytes \<times> bytes \<times> bytes) option" where
  "sscanf_htdigest s =
     (let s = c_string s; u = takeWhile (\<lambda>c. c \<noteq> 58) s; s = drop (length u) s
      in if u = [] \<or> s = [] then None
         else let s = tl s; d = takeWhile (\<lambda>c. c \<noteq> 58) s; s = drop (length d) s
           in if d = [] \<or> s = [] then None
              else let h = takeWhile (\<lambda>c. \<not> isspace c) (dropWhile isspace (tl s))
                in if h = [] then None else Some (u, d, h))"

lemma fgets_shorter: "fgets sz f = Some (line, f') \<Longrightarrow> 1 < sz \<Longrightarrow> length f' < length f"
  by (cases f) (auto simp: fgets_def Let_def split: if_splits)

text \<open>The hash of the first line for the user and the domain.\<close>

function passwd_lookup :: "bytes \<Rightarrow> bytes \<Rightarrow> bytes \<Rightarrow> bytes option" where
  "passwd_lookup username auth_domain fp =
     (case fgets 128 fp of
        None \<Rightarrow> None
      | Some (buf, fp) \<Rightarrow>
          (case sscanf_htdigest buf of
             Some (f_user, f_domain, f_ha1) \<Rightarrow>
               if mg_vcmp username f_user = 0 \<and> mg_vcmp auth_domain f_domain = 0 then Some f_ha1
               else passwd_lookup username auth_domain fp
           | None \<Rightarrow> passwd_lookup username auth_domain fp))"
  by pat_completeness auto
termination by (relation "measure (\<lambda>(u, d, fp). length fp)") (auto dest: fgets_shorter)

declare passwd_lookup.simps [simp del]

definition mg_check_digest_auth ::
    "(string \<Rightarrow> nat \<Rightarrow> byte) \<Rightarrow> bytes \<Rightarrow> bytes \<Rightarrow> bytes \<Rightarrow> bytes \<Rightarrow> bytes \<Rightarrow> bytes \<Rightarrow> bytes \<Rightarrow> bytes \<Rightarrow> bytes \<Rightarrow> bytes \<Rightarrow> bool option" where
  "mg_check_digest_auth mem mth uri username cnonce response qop nc nonce auth_domain fp =
     (case passwd_lookup username auth_domain fp of
        None \<Rightarrow> Some False
      | Some f_ha1 \<Rightarrow> do {
          expected_response \<leftarrow> mg_mkmd5resp mem mth uri f_ha1 nonce nc cnonce qop;
          Some (mg_ncasecmp response expected_response (length response) = 0) })"

text \<open>
  A parameter of the header, read into a local array or a new buffer: \<open>None\<close> inside when it is missing or empty. All of a
  list are read in turn, up to the first one that is missing.
\<close>

definition auth_param :: "allocator \<Rightarrow> (string \<Rightarrow> nat \<Rightarrow> byte) \<Rightarrow> bytes \<times> bytes \<Rightarrow> string \<Rightarrow> nat \<Rightarrow> bytes option option" where
  "auth_param al mem hdr name sz = do {
     (n, b, _) \<leftarrow> mg_http_parse_header2 al (Some hdr) (cstr name) (local_array mem name sz);
     Some (if n = 0 then None else Some (c_string b)) }"

fun auth_params :: "allocator \<Rightarrow> (string \<Rightarrow> nat \<Rightarrow> byte) \<Rightarrow> bytes \<times> bytes \<Rightarrow> (string \<times> nat) list \<Rightarrow> bytes list option option" where
  "auth_params al mem hdr [] = Some (Some [])"
| "auth_params al mem hdr ((name, sz) # ps) = do {
     v \<leftarrow> auth_param al mem hdr name sz;
     (case v of
        None \<Rightarrow> Some None
      | Some v \<Rightarrow> do { vs \<leftarrow> auth_params al mem hdr ps; Some (map_option ((#) v) vs) }) }"

definition auth_buffers :: "(string \<times> nat) list" where
  "auth_buffers = [(''username'', 50), (''cnonce'', 64), (''response'', 40), (''uri'', 200), (''qop'', 20), (''nc'', 20), (''nonce'', 16)]"

text \<open>The request's URI goes on with the query string, which stands behind it.\<close>

definition request_uri :: "bytes \<Rightarrow> http_message \<Rightarrow> bytes" where
  "request_uri buf hm =
     (let q = length (opt_str buf (hm_query_string hm))
      in case hm_uri hm of None \<Rightarrow> [] | Some (p, n) \<Rightarrow> ref_str buf (p, n + (if q \<noteq> 0 then q + 1 else 0)))"

definition mg_http_check_digest_auth ::
    "allocator \<Rightarrow> (string \<Rightarrow> nat \<Rightarrow> byte) \<Rightarrow> nat \<Rightarrow> bytes \<Rightarrow> http_message \<Rightarrow> bytes \<Rightarrow> bytes option \<Rightarrow> bool option" where
  "mg_http_check_digest_auth al mem now buf hm auth_domain fp =
     (case (fp, mg_get_http_header buf hm (cstr ''Authorization'')) of
        (Some f, Some r) \<Rightarrow> do {
          vs \<leftarrow> auth_params al mem (ref_str buf r, drop (fst r + snd r) buf) auth_buffers;
          (case vs of
             Some [username, cnonce, response, uri, qop, nc, nonce] \<Rightarrow>
               if \<not> mg_check_nonce now nonce then Some False
               else mg_check_digest_auth mem (opt_str buf (hm_method hm)) (request_uri buf hm) username cnonce response qop nc nonce
                 auth_domain f
           | _ \<Rightarrow> Some False) }
      | _ \<Rightarrow> Some False)"

definition MG_AUTH_FLAG_IS_DIRECTORY :: u32 where "MG_AUTH_FLAG_IS_DIRECTORY = push_bit 0 1"
definition MG_AUTH_FLAG_IS_GLOBAL_PASS_FILE :: u32 where "MG_AUTH_FLAG_IS_GLOBAL_PASS_FILE = push_bit 1 1"
definition MG_AUTH_FLAG_ALLOW_MISSING_FILE :: u32 where "MG_AUTH_FLAG_ALLOW_MISSING_FILE = push_bit 2 1"
definition MG_MAX_PATH :: nat where "MG_MAX_PATH = 4096"

text \<open>
  The name of the password file; \<open>z\<close> is the memory behind the path. The path before its last slash is taken from the C
  string that starts at the path.
\<close>

definition auth_file :: "bytes \<Rightarrow> bytes \<Rightarrow> bytes \<Rightarrow> u32 \<Rightarrow> bytes" where
  "auth_file path z passwords_file flags =
     (if flags AND MG_AUTH_FLAG_IS_GLOBAL_PASS_FILE \<noteq> 0 then passwords_file
      else if flags AND MG_AUTH_FLAG_IS_DIRECTORY \<noteq> 0 then
        fst (snprintf MG_MAX_PATH (c_string path @ [47] @ passwords_file))
      else
        let s = c_string (path @ z);
            p = length s - length (takeWhile (\<lambda>c. c \<noteq> 47) (rev s));
            p = (if 47 \<in> set s then p - 1 else 0)
        in fst (snprintf MG_MAX_PATH (take p s @ [47] @ passwords_file)))"

definition mg_http_is_authorized ::
    "allocator \<Rightarrow> (string \<Rightarrow> nat \<Rightarrow> byte) \<Rightarrow> nat \<Rightarrow> (bytes \<Rightarrow> bytes option) \<Rightarrow> bytes \<Rightarrow> http_message \<Rightarrow> bytes \<Rightarrow> bytes \<Rightarrow>
      bytes option \<Rightarrow> bytes option \<Rightarrow> u32 \<Rightarrow> bool option" where
  "mg_http_is_authorized al mem now mg_fopen buf hm path z domain passwords_file flags =
     (case (domain, passwords_file) of
        (Some d, Some pf) \<Rightarrow>
          (case mg_fopen (auth_file path z pf flags) of
             Some f \<Rightarrow> mg_http_check_digest_auth al mem now buf hm d (Some f)
           | None \<Rightarrow> Some (flags AND MG_AUTH_FLAG_ALLOW_MISSING_FILE \<noteq> 0))
      | _ \<Rightarrow> Some True)"


subsection \<open>What a response is\<close>

definition md5_hex :: "bytes \<Rightarrow> bytes" where
  "md5_hex m = butlast (cs_to_hex (md5 m))"

definition digest_response :: "bytes \<Rightarrow> bytes \<Rightarrow> bytes \<Rightarrow> bytes \<Rightarrow> bytes \<Rightarrow> bytes \<Rightarrow> bytes \<Rightarrow> bytes" where
  "digest_response mth uri ha1 nonce nc cnonce qop =
     md5_hex (ha1 @ [58] @ nonce @ [58] @ nc @ [58] @ cnonce @ [58] @ qop @ [58] @ md5_hex (mth @ [58] @ uri))"

definition digest_ha1 :: "bytes \<Rightarrow> bytes \<Rightarrow> bytes \<Rightarrow> bytes" where
  "digest_ha1 user auth_domain passwd = md5_hex (user @ [58] @ auth_domain @ [58] @ passwd)"

lemma hex_digit_in: "n < 16 \<Longrightarrow> hex_digits ! n \<in> set hex_digits"
  by (rule nth_mem) (simp add: hex_digits_def)

lemma hex_digits_plain: "c \<in> set hex_digits \<Longrightarrow> c \<notin> {0, 9, 10, 11, 12, 13, 32, 34, 39, 44, 58, 59, 61} \<and> tolower c = c \<and> \<not> isspace c"
  by (auto simp: hex_digits_def tolower_def isspace_def)

lemma nibble_bounds: "unat (drop_bit 4 (x :: byte)) < 16" "unat (x AND 15 :: byte) < 16"
proof -
  have "unat x < 256" using unsigned_less [of x] by simp
  then show "unat (drop_bit 4 x) < 16" unfolding unat_drop_bit_eq unfolding drop_bit_eq_div by simp
  have "x AND 15 = take_bit 4 x" using take_bit_eq_mask [of 4 x] by (simp add: mask_eq_exp_minus_1)
  then show "unat (x AND 15) < 16" by (simp add: unsigned_take_bit_eq take_bit_nat_less_exp [of 4, simplified])
qed

lemma md5_hex_props: "length (md5_hex m) = 32" "set (md5_hex m) \<subseteq> set hex_digits"
proof -
  have "length (md5 m) = 16" by (simp add: md5_def le32_bytes_def split: prod.split)
  moreover have "length (concat (map (\<lambda>x. [f x, g x]) xs)) = 2 * length xs" for f g :: "byte \<Rightarrow> byte" and xs
    by (induction xs) auto
  ultimately show "length (md5_hex m) = 32" by (simp add: md5_hex_def cs_to_hex_def)
  show "set (md5_hex m) \<subseteq> set hex_digits"
    using nibble_bounds by (auto simp: md5_hex_def cs_to_hex_def butlast_append intro!: hex_digit_in)
qed

lemma cs_md5_hex: "length msgs \<le> 20 \<Longrightarrow> \<forall>m \<in> set msgs. length m < 2 ^ 32 \<Longrightarrow> cs_md5 mem msgs = Some (md5_hex (concat msgs))"
  by (simp add: cs_md5_def md5_hex_def mg_hash_md5_v_md5 local_array_def)

definition short :: "bytes \<Rightarrow> bool" where
  "short s \<longleftrightarrow> length s < 2 ^ 32"

lemma mkmd5resp_response:
  assumes "short mth" "short uri" "short ha1" "short nonce" "short nc" "short cnonce" "short qop"
  shows "mg_mkmd5resp mem mth uri ha1 nonce nc cnonce qop = Some (digest_response mth uri ha1 nonce nc cnonce qop)"
  using assms by (simp add: mg_mkmd5resp_def cs_md5_hex digest_response_def short_def md5_hex_props(1))

lemma sscanf_length: "sscanf_htdigest s = Some (u, d, h) \<Longrightarrow> length h \<le> length s"
proof -
  assume a: "sscanf_htdigest s = Some (u, d, h)"
  define s1 where "s1 = drop (length (takeWhile (\<lambda>c. c \<noteq> 58) (c_string s))) (c_string s)"
  define s2 where "s2 = drop (length (takeWhile (\<lambda>c. c \<noteq> 58) (tl s1))) (tl s1)"
  have "h = takeWhile (\<lambda>c. \<not> isspace c) (dropWhile isspace (tl s2))"
    using a by (auto simp: sscanf_htdigest_def Let_def s1_def s2_def split: if_splits)
  then have "length h \<le> length (tl s2)" using length_takeWhile_le length_dropWhile_le le_trans by metis
  moreover have "length s2 \<le> length s1" "length s1 \<le> length (c_string s)" by (simp_all add: s1_def s2_def)
  moreover have "length (c_string s) \<le> length s" by (simp add: c_string_def length_takeWhile_le)
  ultimately show ?thesis by simp
qed

lemma lookup_length: "passwd_lookup u d fp = Some h \<Longrightarrow> length h < 128"
proof (induction u d fp rule: passwd_lookup.induct)
  case (1 u d fp)
  obtain line rest where l: "fgets 128 fp = Some (line, rest)" using "1.prems" by (subst (asm) passwd_lookup.simps) (auto split: option.splits)
  have len: "length line \<le> 127" using l by (auto simp: fgets_def Let_def split: if_splits)
  show ?case
  proof (cases "sscanf_htdigest line")
    case None
    then show ?thesis using "1.prems" "1.IH"(1) [OF l refl None] l by (subst (asm) passwd_lookup.simps) simp
  next
    case (Some x)
    obtain fu fd fh where x: "x = (fu, fd, fh)" by (cases x)
    have "length fh < 128" using sscanf_length [OF Some [unfolded x]] len by simp
    then show ?thesis using "1.prems" "1.IH"(2) [OF l refl Some [unfolded x] refl refl] l Some x
      by (subst (asm) passwd_lookup.simps) (auto split: if_splits)
  qed
qed

subsection \<open>The comparison\<close>

lemma digest_check_eq:
  assumes "short mth" "short uri" "short nonce" "short nc" "short cnonce" "short qop" "0 \<notin> set response"
  shows "mg_check_digest_auth mem mth uri username cnonce response qop nc nonce auth_domain fp =
    Some (case passwd_lookup username auth_domain fp of None \<Rightarrow> False
      | Some ha1 \<Rightarrow> length response \<le> 32 \<and>
          map tolower response = take (length response) (digest_response mth uri ha1 nonce nc cnonce qop))"
proof (cases "passwd_lookup username auth_domain fp")
  case None
  then show ?thesis by (simp add: mg_check_digest_auth_def)
next
  case (Some ha1)
  have "short ha1" using lookup_length [OF Some] by (simp add: short_def)
  then have r: "mg_mkmd5resp mem mth uri ha1 nonce nc cnonce qop = Some (digest_response mth uri ha1 nonce nc cnonce qop)"
    by (rule mkmd5resp_response [OF assms(1,2) _ assms(3-6)])
  have "map tolower (take k (digest_response mth uri ha1 nonce nc cnonce qop)) = take k (digest_response mth uri ha1 nonce nc cnonce qop)" for k
  proof (rule map_idI)
    fix c assume "c \<in> set (take k (digest_response mth uri ha1 nonce nc cnonce qop))"
    then have "c \<in> set hex_digits" using md5_hex_props(2) by (auto simp: digest_response_def dest: in_set_takeD)
    then show "tolower c = c" using hex_digits_plain by blast
  qed
  moreover have "length (digest_response mth uri ha1 nonce nc cnonce qop) = 32" by (simp add: digest_response_def md5_hex_props)
  ultimately show ?thesis
    using Some r ncasecmp_prefix_iff [OF assms(7), of "digest_response mth uri ha1 nonce nc cnonce qop"]
    by (simp add: mg_check_digest_auth_def)
qed

text \<open>C18: the check accepts exactly when the first password line for the user and the domain gives a response of which the client's is a prefix, up to the case of letters: a client that sends one hexadecimal digit is right once in sixteen times, because the number of characters compared is the length the client chose.\<close>
theorem digest_check_spec:
  assumes "short mth" "short uri" "short nonce" "short nc" "short cnonce" "short qop" "0 \<notin> set response"
  shows "mg_check_digest_auth mem mth uri username cnonce response qop nc nonce auth_domain fp =
    Some (case passwd_lookup username auth_domain fp of None \<Rightarrow> False
      | Some ha1 \<Rightarrow> length response \<le> 32 \<and>
          map tolower response = take (length response) (digest_response mth uri ha1 nonce nc cnonce qop))"
  by (rule digest_check_eq [OF assms])


subsection \<open>Password files\<close>

type_synonym htdigest_entry = "bytes \<times> bytes \<times> bytes"

definition entry_line :: "htdigest_entry \<Rightarrow> bytes" where
  "entry_line = (\<lambda>(u, d, h). u @ [58] @ d @ [58] @ h @ [10])"

definition entry_ok :: "htdigest_entry \<Rightarrow> bool" where
  "entry_ok = (\<lambda>(u, d, h). u \<noteq> [] \<and> d \<noteq> [] \<and> h \<noteq> [] \<and> set u \<inter> {0, 10, 58} = {} \<and> set d \<inter> {0, 10, 58} = {} \<and>
     (\<forall>c \<in> set h. c \<noteq> 0 \<and> \<not> isspace c) \<and> length u + length d + length h \<le> 124)"

lemma fgets_line: "10 \<notin> set x \<Longrightarrow> length x \<le> 126 \<Longrightarrow> fgets 128 (x @ 10 # rest) = Some (x @ [10], rest)"
proof -
  assume x: "10 \<notin> set x" "length x \<le> 126"
  have "takeWhile (\<lambda>c. c \<noteq> 10) (x @ 10 # rest) = x" using x(1) by (subst takeWhile_append2) auto
  then show ?thesis using x(2) by (simp add: fgets_def Let_def)
qed

lemma fgets_entry: "entry_ok e \<Longrightarrow> fgets 128 (entry_line e @ rest) = Some (entry_line e, rest)"
proof (cases e)
  case (fields u d h)
  assume "entry_ok e"
  then have "10 \<notin> set (u @ [58] @ d @ [58] @ h)" "length (u @ [58] @ d @ [58] @ h) \<le> 126"
    by (auto simp: fields entry_ok_def isspace_def)
  from fgets_line [OF this] show ?thesis by (simp add: fields entry_line_def)
qed

lemma sscanf_entry:
  assumes "entry_ok (u, d, h)"
  shows "sscanf_htdigest (entry_line (u, d, h)) = Some (u, d, h)"
proof -
  have z: "c_string (entry_line (u, d, h)) = u @ 58 # d @ 58 # h @ [10]"
    unfolding c_string_def entry_line_def using assms by (auto simp: takeWhile_eq_all_conv entry_ok_def)
  have u: "takeWhile (\<lambda>c. c \<noteq> 58) (u @ 58 # s) = u" for s using assms by (subst takeWhile_append2) (auto simp: entry_ok_def)
  have d: "takeWhile (\<lambda>c. c \<noteq> 58) (d @ 58 # s) = d" for s using assms by (subst takeWhile_append2) (auto simp: entry_ok_def)
  have "\<not> isspace (hd h)" using assms by (auto simp: entry_ok_def)
  then have w: "dropWhile isspace (h @ [10]) = h @ [10]" using assms by (cases h) (auto simp: entry_ok_def)
  have "takeWhile (\<lambda>c. \<not> isspace c) (h @ [10]) = h" using assms by (subst takeWhile_append2) (auto simp: entry_ok_def isspace_def)
  then show ?thesis unfolding sscanf_htdigest_def z Let_def u using assms by (simp add: d w entry_ok_def)
qed

lemma lookup_entries:
  assumes "\<forall>e \<in> set es. entry_ok e"
  shows "passwd_lookup user realm (concat (map entry_line es)) = map_option (\<lambda>(u, d, h). h) (find (\<lambda>(u, d, h). u = user \<and> d = realm) es)"
  using assms
proof (induction es)
  case Nil
  show ?case by (subst passwd_lookup.simps) (simp add: fgets_def)
next
  case (Cons e es)
  obtain u d h where e: "e = (u, d, h)" by (cases e)
  have ok: "entry_ok (u, d, h)" using Cons.prems e by simp
  have v: "mg_vcmp user u = 0 \<longleftrightarrow> user = u" "mg_vcmp realm d = 0 \<longleftrightarrow> realm = d" using ok by (auto simp: entry_ok_def mg_vcmp_eq)
  show ?case
    by (subst passwd_lookup.simps) (use fgets_entry [OF ok] sscanf_entry [OF ok] Cons v in \<open>auto simp: e\<close>)
qed

subsection \<open>Parameters without quotes\<close>

lemma param_scan_plain:
  assumes "set v \<inter> {32, 44, 59} = {}" "(n = length v \<or> length v < n \<and> hd s \<in> {32, 44, 59} \<and> s \<noteq> [])"
  shows "fst (param_scan 32 44 59 (v @ s) n) = v"
  using assms
proof (induction v arbitrary: n)
  case Nil
  then show ?case by (cases n; cases s) (auto simp: cchar_def)
next
  case (Cons c v)
  then obtain m where "n = Suc m" by (cases n) auto
  then show ?case using Cons by (auto simp: cchar_def split: prod.split) (metis fst_conv)+
qed

lemma header_internal_plain:
  assumes "al_total al" "altbuf_inv [] ab" "ab_user_buf_size ab < 2 ^ 50 \<and> length v < 2 ^ 49" "v \<noteq> []" "set v \<inter> {32, 44, 59} = {}" "hd v \<notin> {34, 39}"
    and "hdr = pre @ name @ [61] @ v @ post" "post = [] \<or> hd post \<in> {32, 44, 59}"
    and "pre = [] \<or> last pre \<in> {32, 44, 59}" "\<forall>s < length pre. \<not> param_at hdr name s"
  shows "\<exists>ab'. mg_http_parse_header_internal al hdr z name ab = Some ab' \<and> altbuf_inv (v @ [0]) ab' \<and>
    ab_user_buf_size ab' = ab_user_buf_size ab"
proof -
  let ?s = "length pre" and ?n = "length name"
  have at: "param_at hdr name ?s"
    using assms(7,9) strncmp_refl [of name] by (cases pre rule: rev_cases) (auto simp: param_at_def nth_append)
  have f: "find (param_at hdr name) [0..<length hdr] = Some ?s"
    by (rule find_first [OF at _ assms(10)]) (use at in \<open>simp add: param_at_def\<close>)
  have q: "hdr ! Suc (?s + ?n) = hd v" "drop (Suc (?s + ?n)) hdr = v @ post"
    "length hdr = ?s + ?n + 1 + length v + length post"
    using assms(4) by (simp_all add: assms(7) nth_append hd_conv_nth)
  have "fst (param_scan 32 44 59 (v @ post @ z) (length v + length post)) = v"
    by (rule param_scan_plain [OF assms(5)]) (use assms(8) in \<open>cases post; auto\<close>)
  then obtain e where scan: "param_scan 32 44 59 (v @ post @ z) (length v + length post) = (v, e)"
    by (cases "param_scan 32 44 59 (v @ post @ z) (length v + length post)") auto
  obtain ab1 where 1: "altbuf_appends al v ab = Some ab1" "altbuf_inv v ab1" "ab_user_buf_size ab1 = ab_user_buf_size ab"
    using altbuf_appends_inv [OF assms(1,2), of v] assms(3) by auto
  then obtain ab2 where 2: "altbuf_append al 0 ab1 = Some ab2" "altbuf_inv (v @ [0]) ab2" "ab_user_buf_size ab2 = ab_user_buf_size ab"
    using altbuf_append_inv [OF assms(1) 1(2), of 0] assms(3) by auto
  have len: "ab_len ab1 > 0" using 1(2) assms(4) by (simp add: altbuf_inv_def)
  have "mg_http_parse_header_internal al hdr z name ab = Some ab2"
    unfolding mg_http_parse_header_internal_def f using q scan 1(1) 2(1) len assms(4,6) by (simp add: Let_def)
  with 2 show ?thesis by blast
qed

subsection \<open>The right parameter is found\<close>

definition name_ok :: "bytes \<Rightarrow> bool" where
  "name_ok k \<longleftrightarrow> k \<noteq> [] \<and> set k \<inter> {0, 32, 44, 59, 61} = {}"

definition fields_ok :: "(bytes \<times> bytes) list \<Rightarrow> bool" where
  "fields_ok ps \<longleftrightarrow> (\<forall>(k, v) \<in> set ps. name_ok k \<and> (61 \<notin> set v \<or> set v \<inter> {32, 44, 59} = {}))"

definition fields_wire :: "(bytes \<times> bytes) list \<Rightarrow> bytes" where
  "fields_wire ps = concat (map (\<lambda>(k, v). k @ [61] @ v @ [44]) ps)"

lemma param_at_name:
  assumes "param_at hdr name s" "name_ok name"
  shows "\<forall>i < length name. hdr ! (s + i) = name ! i" "s + length name < length hdr" "hdr ! (s + length name) = 61"
    "s = 0 \<or> hdr ! (s - 1) \<in> {32, 44, 59}"
proof -
  have p: "s + length name < length hdr" "strncmp (drop s hdr) name (length name) = 0" using assms(1) by (auto simp: param_at_def)
  then have "take (length name) (drop s hdr) = name" using assms(2) strncmp_take [of name "length name" "drop s hdr"] by (simp add: name_ok_def)
  note eq = this
  show "\<forall>i < length name. hdr ! (s + i) = name ! i"
  proof (intro allI impI)
    fix i assume "i < length name"
    then have "take (length name) (drop s hdr) ! i = hdr ! (s + i)" using p(1) by simp
    then show "hdr ! (s + i) = name ! i" unfolding eq by simp
  qed
qed (use assms(1) in \<open>auto simp: param_at_def\<close>)

lemma name_char: "name_ok k \<Longrightarrow> i < length k \<Longrightarrow> k ! i \<notin> {0, 32, 44, 59, 61}"
  using nth_mem [of i k] unfolding name_ok_def by blast

text \<open>A parameter found where the next field's name, value or comma is, is that field.\<close>

lemma param_in_field:
  assumes at: "param_at hdr name s" and name: "name_ok name" and k: "name_ok k" "61 \<notin> set v \<or> set v \<inter> {32, 44, 59} = {}"
    and hdr: "hdr = pre @ (k @ [61] @ v @ [44]) @ rest" and pre: "pre \<noteq> []" "last pre \<in> {32, 44, 59}"
    and s: "length pre \<le> s + length name" "s + length name < length pre + length (k @ [61] @ v @ [44])"
  shows "name = k"
proof -
  let ?p = "length pre" and ?n = "length name"
  note n = param_at_name [OF at name]
  have clean: "hdr ! j \<notin> {32, 44, 59, 61}" if "s \<le> j" "j < s + ?n" for j
  proof -
    have "hdr ! j = name ! (j - s)" "j - s < ?n" using n(1) that by (auto dest: spec [of _ "j - s"])
    then show ?thesis using name_char [OF name, of "j - s"] by auto
  qed
  have fld: "hdr ! (?p + i) = (k @ [61] @ v @ [44]) ! i" if "i < length (k @ [61] @ v @ [44])" for i
    unfolding hdr using that by (metis nth_append nth_append_length_plus)
  have lastp: "hdr ! (?p - 1) \<in> {32, 44, 59}" using pre unfolding hdr by (simp add: nth_append last_conv_nth)
  have sp: "?p \<le> s"
  proof (rule ccontr)
    assume "\<not> ?p \<le> s"
    moreover have "0 < ?p" using pre(1) by simp
    ultimately have "s \<le> ?p - 1" "?p - 1 < s + ?n" using s(1) by linarith+
    then show False using clean [of "?p - 1"] lastp by auto
  qed
  obtain i where i: "s = ?p + i" using sp le_iff_add by blast
  have eq: "(k @ [61] @ v @ [44]) ! (i + ?n) = 61" using n(3) fld [of "i + ?n"] s(2) i by (simp add: add.assoc)
  have inner: "(k @ [61] @ v @ [44]) ! j \<notin> {32, 44, 59, 61}" if "i \<le> j" "j < i + ?n" for j
    using clean [of "?p + j"] fld [of j] that s(2) i by simp
  show ?thesis
  proof (cases "i \<le> length k")
    case True
    have "i = 0"
    proof (rule ccontr)
      assume "i \<noteq> 0"
      then have "hdr ! (?p + (i - 1)) \<in> {32, 44, 59}" using n(4) i by auto
      moreover have l: "i - 1 < length k" using True \<open>i \<noteq> 0\<close> by simp
      then have "hdr ! (?p + (i - 1)) = k ! (i - 1)" using fld [of "i - 1"] by (simp add: nth_append)
      ultimately show False using name_char [OF k(1), of "i - 1"] True \<open>i \<noteq> 0\<close> by auto
    qed
    have "\<not> length k < ?n" using inner [of "length k"] True \<open>i = 0\<close> by (auto simp: nth_append)
    moreover have "\<not> ?n < length k"
    proof
      assume "?n < length k"
      then have "k ! ?n = 61" using eq \<open>i = 0\<close> by (simp add: nth_append)
      then show False using name_char [OF k(1) \<open>?n < length k\<close>] by simp
    qed
    ultimately have ln: "?n = length k" by simp
    show ?thesis
    proof (rule nth_equalityI [OF ln])
      fix j assume j: "j < ?n"
      then have "hdr ! (s + j) = k ! j" using fld [of j] i \<open>i = 0\<close> ln by (simp add: nth_append)
      then show "name ! j = k ! j" using n(1) j by simp
    qed
  next
    case False
    then have ge: "Suc (length k) \<le> i" by simp
    have in_v: "(k @ [61] @ v @ [44]) ! j \<in> set v" if "Suc (length k) \<le> j" "j < Suc (length k) + length v" for j
    proof -
      define x where "x = j - Suc (length k)"
      have x: "j = Suc (length k) + x" "x < length v" using that unfolding x_def by linarith+
      then have "(k @ [61] @ v @ [44]) ! j = v ! x" by (simp add: nth_append)
      then show ?thesis using x(2) by simp
    qed
    have "i + ?n \<noteq> Suc (length k) + length v" using eq by (auto simp: nth_append)
    then have "i + ?n < Suc (length k) + length v" using s(2) i by simp
    then have e: "61 \<in> set v" using in_v [of "i + ?n"] eq ge by (metis trans_le_add1)
    have sepp: "(k @ [61] @ v @ [44]) ! (i - 1) \<in> {32, 44, 59}"
    proof -
      have "s - 1 = ?p + (i - 1)" "s \<noteq> 0" "i - 1 < length (k @ [61] @ v @ [44])" using i ge s(2) by simp_all
      then show ?thesis using n(4) fld [of "i - 1"] by metis
    qed
    then have "i - 1 \<noteq> length k" by (auto simp: nth_append)
    then have "Suc (length k) \<le> i - 1" "i - 1 < Suc (length k) + length v" using ge \<open>i + ?n < Suc (length k) + length v\<close> by linarith+
    then have "(k @ [61] @ v @ [44]) ! (i - 1) \<in> set v" by (rule in_v)
    then show ?thesis using e sepp k(2) by blast
  qed
qed

lemma no_earlier_field:
  assumes "61 \<notin> set lead" "lead \<noteq> []" "last lead \<in> {32, 44, 59}" "fields_ok ps" "name_ok name" "\<forall>(k, v) \<in> set ps. k \<noteq> name"
  shows "s + length name < length (lead @ fields_wire ps) \<Longrightarrow> \<not> param_at ((lead @ fields_wire ps) @ rest) name s"
  using assms(4,6)
proof (induction ps arbitrary: rest rule: rev_induct)
  case Nil
  then have "(lead @ rest) ! (s + length name) \<in> set lead" by (simp add: fields_wire_def nth_append)
  then have "(lead @ rest) ! (s + length name) \<noteq> 61" using assms(1) by metis
  then show ?case using param_at_name(3) [OF _ assms(5)] by (auto simp: fields_wire_def)
next
  case (snoc p ps)
  obtain k v where p: "p = (k, v)" by (cases p)
  let ?pre = "lead @ fields_wire ps" and ?f = "k @ [61] @ v @ [44]"
  have w: "(lead @ fields_wire (ps @ [p])) @ rest = ?pre @ ?f @ rest" by (simp add: fields_wire_def p)
  have ok: "fields_ok ps" "name_ok k" "61 \<notin> set v \<or> set v \<inter> {32, 44, 59} = {}" "k \<noteq> name" "\<forall>(k, v) \<in> set ps. k \<noteq> name"
    using snoc.prems(2,3) by (auto simp: fields_ok_def p)
  show ?case
  proof (cases "s + length name < length ?pre")
    case True
    then show ?thesis using snoc.IH [OF True ok(1,5), of "?f @ rest"] w by simp
  next
    case False
    have "last ?pre \<in> {32, 44, 59}" using assms(2,3) by (cases ps rule: rev_cases) (auto simp: fields_wire_def split: prod.splits)
    moreover have "s + length name < length ?pre + length ?f" using snoc.prems(1) by (simp add: fields_wire_def p)
    ultimately show ?thesis
      using param_in_field [of _ name s k v ?pre rest] assms(2,5) ok False unfolding w by (auto simp del: append.simps)
  qed
qed

lemma first_field:
  assumes "61 \<notin> set lead" "lead \<noteq> []" "last lead \<in> {32, 44, 59}" "fields_ok ps" "name_ok name" "\<forall>(k, v) \<in> set ps. k \<noteq> name"
  shows "\<forall>s < length (lead @ fields_wire ps). \<not> param_at ((lead @ fields_wire ps) @ name @ rest) name s"
proof (intro allI impI notI)
  fix s assume s: "s < length (lead @ fields_wire ps)" and at: "param_at ((lead @ fields_wire ps) @ name @ rest) name s"
  let ?pre = "lead @ fields_wire ps"
  show False
  proof (cases "s + length name < length ?pre")
    case True
    then show ?thesis using no_earlier_field [OF assms True, of "name @ rest"] at by simp
  next
    case False
    then obtain j where j: "s + length name = length ?pre + j" using le_Suc_ex by (metis not_less)
    then have "j < length name" using s by linarith
    then have "(?pre @ name @ rest) ! (s + length name) = name ! j" unfolding j by (metis nth_append nth_append_length_plus)
    then show ?thesis using param_at_name(3) [OF at assms(5)] name_char [OF assms(5) \<open>j < length name\<close>] by simp
  qed
qed

subsection \<open>A client's header is accepted\<close>

lemma field_split:
  assumes "i < length fs" "fs ! i = (k, w)"
  shows "lead @ fields_wire fs @ tail = (lead @ fields_wire (take i fs)) @ k @ [61] @ w @ 44 # fields_wire (drop (Suc i) fs) @ tail"
proof -
  have "fs = take i fs @ (k, w) # drop (Suc i) fs" using assms id_take_nth_drop by metis
  then have "fields_wire fs = fields_wire (take i fs @ (k, w) # drop (Suc i) fs)" by simp
  then show ?thesis by (simp add: fields_wire_def)
qed

definition quoted :: "bytes \<Rightarrow> bytes" where
  "quoted v = [34] @ v @ [34]"

text \<open>How a value stands in a header: in quotes, without any of its own, or bare.\<close>

definition value_at :: "bytes \<Rightarrow> bytes \<Rightarrow> bool" where
  "value_at v w \<longleftrightarrow> v \<noteq> [] \<and> 0 \<notin> set v \<and>
     (w = quoted v \<and> 34 \<notin> set v \<and> last v \<noteq> 92 \<or> w = v \<and> set v \<inter> {32, 44, 59} = {} \<and> hd v \<notin> {34, 39})"

lemma quote_param_id: "34 \<notin> set v \<Longrightarrow> quote_param v = v"
  by (induction v) (auto simp: quote_param_def)

lemma auth_param_value:
  assumes al: "al_total al" "sz < 2 ^ 50" and v: "value_at v w \<and> length v < 2 ^ 49" and lead: "61 \<notin> set lead" "lead \<noteq> []" "last lead \<in> {32, 44, 59}"
    and fs: "fields_ok fs" "name_ok (cstr nm)" "\<forall>(k, v) \<in> set fs. k \<noteq> cstr nm"
    and post: "post = [] \<or> hd post \<in> {32, 44, 59}"
  shows "auth_param al mem ((lead @ fields_wire fs) @ cstr nm @ [61] @ w @ post, z) nm sz = Some (Some v)"
proof -
  note len = conjunct2 [OF v] and v = conjunct1 [OF v]
  let ?pre = "lead @ fields_wire fs" and ?buf = "local_array mem nm sz"
  let ?ab = "altbuf_init al (if ?buf \<noteq> [] then ?buf[0 := 0] else ?buf)"
  have s: "ab_user_buf_size ?ab = length ?buf" "length ?buf < 2 ^ 50" using al(2) by (simp_all add: altbuf_init_def local_array_def)
  have last: "last ?pre \<in> {32, 44, 59}" using lead(2,3) by (cases fs rule: rev_cases) (auto simp: fields_wire_def split: prod.splits)
  have first: "\<forall>s < length ?pre. \<not> param_at (?pre @ cstr nm @ [61] @ w @ post) (cstr nm) s"
    using first_field [OF lead fs(1,2,3), of "[61] @ w @ post"] by simp
  have "\<exists>ab. mg_http_parse_header_internal al (?pre @ cstr nm @ [61] @ w @ post) z (cstr nm) ?ab = Some ab \<and> altbuf_inv (v @ [0]) ab \<and>
      ab_user_buf_size ab = ab_user_buf_size ?ab"
  proof (cases "w = quoted v \<and> 34 \<notin> set v \<and> last v \<noteq> 92")
    case True
    then show ?thesis using v last first s len
      by (intro header_internal_quoted [OF al(1) altbuf_init_inv, where pre = ?pre and post = post])
        (auto simp: quoted_def quote_param_id value_at_def)
  next
    case False
    then have "w = v \<and> set v \<inter> {32, 44, 59} = {} \<and> hd v \<notin> {34, 39}" using v by (auto simp: value_at_def)
    then show ?thesis using v last first s len post
      by (intro header_internal_plain [OF al(1) altbuf_init_inv, where pre = ?pre and post = post]) (auto simp: value_at_def)
  qed
  then obtain ab where ab: "mg_http_parse_header_internal al (?pre @ cstr nm @ [61] @ w @ post) z (cstr nm) ?ab = Some ab"
    "altbuf_inv (v @ [0]) ab" "ab_user_buf_size ab = length ?buf" using s(1) by metis
  from header2_internal [OF ab] obtain b m where
    b: "mg_http_parse_header2 al (Some (?pre @ cstr nm @ [61] @ w @ post, z)) (cstr nm) ?buf = Some (length v, b, m)" "take (length v + 1) b = v @ [0]"
    by blast
  then have "b = v @ 0 # drop (length v + 1) b" by (metis append.assoc append_Cons append_Nil append_take_drop_id)
  then have "c_string b = v" using v unfolding c_string_def value_at_def
    by (metis (mono_tags, lifting) append_Nil2 takeWhile.simps(2) takeWhile_append2)
  then show ?thesis using b(1) v by (simp add: auth_param_def value_at_def)
qed

lemma auth_param_field:
  assumes "al_total al" "sz < 2 ^ 50" "61 \<notin> set lead" "lead \<noteq> []" "last lead \<in> {32, 44, 59}" "fields_ok fs"
    and "i < length fs" "fs ! i = (cstr nm, w)" "value_at v w \<and> length v < 2 ^ 49" "\<forall>(k, v) \<in> set (take i fs). k \<noteq> cstr nm"
  shows "auth_param al mem (lead @ fields_wire fs @ tail, z) nm sz = Some (Some v)"
proof -
  have "fields_ok (take i fs)" using assms(6) by (auto simp: fields_ok_def dest: in_set_takeD)
  moreover have "name_ok (cstr nm)" using assms(6,7,8) nth_mem [of i fs] by (auto simp: fields_ok_def)
  ultimately show ?thesis
    unfolding field_split [OF assms(7,8)]
    by (intro auth_param_value [OF assms(1,2,9,3,4,5)]) (use assms(10) in auto)
qed

definition digest_cnonce :: "nat \<Rightarrow> bytes" where
  "digest_cnonce now = take 39 (fmt_lx now)"

definition digest_fields :: "bytes \<Rightarrow> bytes \<Rightarrow> bytes \<Rightarrow> bytes \<Rightarrow> nat \<Rightarrow> (bytes \<times> bytes) list" where
  "digest_fields uri realm user nonce now =
     [(cstr ''username'', quoted user), (cstr ''realm'', quoted realm), (cstr ''uri'', quoted uri), (cstr ''qop'', cstr ''auth''),
      (cstr ''nc'', cstr ''1''), (cstr ''cnonce'', digest_cnonce now), (cstr ''nonce'', nonce)]"

text \<open>The value of the header a client sends.\<close>

definition digest_value :: "bytes \<Rightarrow> bytes \<Rightarrow> bytes \<Rightarrow> bytes \<Rightarrow> bytes \<Rightarrow> bytes \<Rightarrow> nat \<Rightarrow> bytes" where
  "digest_value mth uri realm user passwd nonce now =
     cstr ''Digest '' @ fields_wire (digest_fields uri realm user nonce now) @ cstr ''response'' @ [61] @
     digest_response mth uri (digest_ha1 user realm passwd) nonce (cstr ''1'') (digest_cnonce now) (cstr ''auth'')"

lemma fmt_lx_props: "fmt_lx n \<noteq> [] \<and> set (fmt_lx n) \<subseteq> set hex_digits"
proof (induction n rule: fmt_lx.induct)
  case (1 n)
  have "hex_digits ! (n mod 16) \<in> set hex_digits" by (rule hex_digit_in) simp
  then show ?case using 1 hex_digit_in by (subst (1 2) fmt_lx.simps) auto
qed

lemma create_digest_header:
  assumes "short mth" "short uri" "short realm" "short user" "short passwd" "short nonce"
  shows "mg_http_create_digest_auth_header mem now buf_len mth uri realm user passwd nonce =
    Some (snprintf buf_len (cstr ''Authorization: '' @ digest_value mth uri realm user passwd nonce now @ [13, 10]))"
proof -
  have s: "short (digest_ha1 user realm passwd)" "short (digest_cnonce now)" "short (cstr ''1'')" "short (cstr ''auth'')"
    by (simp_all add: short_def digest_ha1_def md5_hex_props digest_cnonce_def)
  have h: "cs_md5 mem [user, cstr '':'', realm, cstr '':'', passwd] = Some (digest_ha1 user realm passwd)"
    using assms by (simp add: cs_md5_hex digest_ha1_def short_def)
  show ?thesis
    unfolding mg_http_create_digest_auth_header_def h Let_def
    using mkmd5resp_response [OF assms(1,2) s(1) assms(6) s(3,2,4)]
    by (simp add: snprintf_def digest_cnonce_def digest_value_def digest_fields_def fields_wire_def quoted_def)
qed

definition quotable :: "bytes \<Rightarrow> bool" where
  "quotable v \<longleftrightarrow> v \<noteq> [] \<and> set v \<inter> {0, 34} = {} \<and> last v \<noteq> 92 \<and> (61 \<notin> set v \<or> set v \<inter> {32, 44, 59} = {}) \<and> short v"

definition bare :: "bytes \<Rightarrow> bool" where
  "bare v \<longleftrightarrow> v \<noteq> [] \<and> set v \<inter> {0, 32, 44, 59} = {} \<and> hd v \<notin> {34, 39} \<and> short v"

lemma hex_bare: "v \<noteq> [] \<Longrightarrow> set v \<subseteq> set hex_digits \<Longrightarrow> short v \<Longrightarrow> bare v"
proof -
  assume v: "v \<noteq> []" "set v \<subseteq> set hex_digits" "short v"
  have "c \<notin> {0, 32, 44, 59, 34, 39}" if "c \<in> set v" for c using that v(2) hex_digits_plain [of c] by auto
  then show ?thesis using v hd_in_set [of v] by (auto simp: bare_def)
qed

text \<open>C11: the digest credentials a client computes from its password are accepted by the server, which only knows the hash of its user's first line: the header is taken apart into the same user, URI, nonce and counters, so both sides hash the same response; the request must name the method and URI that were signed, and the nonce must be fresh.\<close>
theorem digest_auth_roundtrip:
  assumes al: "al_total al" and ok: "quotable user" "quotable realm" "quotable uri" "bare nonce" "short mth" "short passwd"
    and fresh: "mg_check_nonce later nonce"
    and req: "mg_get_http_header buf hm (cstr ''Authorization'') = Some r"
      "ref_str buf r = digest_value mth uri realm user passwd nonce now"
      "opt_str buf (hm_method hm) = mth" "request_uri buf hm = uri"
    and pwd: "\<forall>e \<in> set es. entry_ok e" "find (\<lambda>(u, d, h). u = user \<and> d = realm) es = Some (user, realm, digest_ha1 user realm passwd)"
  shows "mg_http_create_digest_auth_header mem now buf_len mth uri realm user passwd nonce =
      Some (snprintf buf_len (cstr ''Authorization: '' @ digest_value mth uri realm user passwd nonce now @ [13, 10])) \<and>
    mg_http_check_digest_auth al mem' later buf hm realm (Some (concat (map entry_line es))) = Some True"
proof -
  let ?fs = "digest_fields uri realm user nonce now" and ?z = "drop (fst r + snd r) buf"
  define resp where "resp = digest_response mth uri (digest_ha1 user realm passwd) nonce (cstr ''1'') (digest_cnonce now) (cstr ''auth'')"
  have sh: "short uri" "short realm" "short user" "short nonce" using ok by (auto simp: quotable_def bare_def)
  have resp: "length resp = 32" "set resp \<subseteq> set hex_digits" by (simp_all add: resp_def digest_response_def md5_hex_props)
  have cn: "bare (digest_cnonce now)"
    using fmt_lx_props [of now] by (intro hex_bare) (auto simp: digest_cnonce_def short_def dest: in_set_takeD)
  have rb: "bare resp" using resp by (intro hex_bare) (auto simp: short_def)
  have vq: "value_at v (quoted v) \<and> length v < 2 ^ 49" if "quotable v" for v
    using that by (auto simp: value_at_def quotable_def short_def)
  have vb: "value_at v v \<and> length v < 2 ^ 49" if "bare v" for v using that by (auto simp: value_at_def bare_def short_def)
  have fs: "fields_ok ?fs" using ok cn
    by (auto simp: fields_ok_def digest_fields_def name_ok_def quoted_def quotable_def bare_def)
  have lead: "61 \<notin> set (cstr ''Digest '')" "cstr ''Digest '' \<noteq> []" "last (cstr ''Digest '') \<in> {32, 44, 59}" by simp_all
  have hdr: "ref_str buf r = cstr ''Digest '' @ fields_wire ?fs @ cstr ''response'' @ [61] @ resp" by (simp add: req(2) digest_value_def resp_def)
  note field = auth_param_field [OF al _ lead fs, where tail = "cstr ''response'' @ [61] @ resp" and mem = mem' and z = ?z]
  have p0: "auth_param al mem' (ref_str buf r, ?z) ''username'' 50 = Some (Some user)"
    unfolding hdr by (rule field [where i = 0 and w = "quoted user"]) (simp_all add: digest_fields_def vq [simplified] ok)
  have p5: "auth_param al mem' (ref_str buf r, ?z) ''cnonce'' 64 = Some (Some (digest_cnonce now))"
    unfolding hdr by (rule field [where i = 5 and w = "digest_cnonce now"]) (simp_all add: digest_fields_def vb [simplified] cn)
  have p2: "auth_param al mem' (ref_str buf r, ?z) ''uri'' 200 = Some (Some uri)"
    unfolding hdr by (rule field [where i = 2 and w = "quoted uri"]) (simp_all add: digest_fields_def vq [simplified] ok)
  have p3: "auth_param al mem' (ref_str buf r, ?z) ''qop'' 20 = Some (Some (cstr ''auth''))"
    unfolding hdr by (rule field [where i = 3 and w = "cstr ''auth''"]) (simp_all add: digest_fields_def vb [simplified] bare_def short_def)
  have p4: "auth_param al mem' (ref_str buf r, ?z) ''nc'' 20 = Some (Some (cstr ''1''))"
    unfolding hdr by (rule field [where i = 4 and w = "cstr ''1''"]) (simp_all add: digest_fields_def vb [simplified] bare_def short_def)
  have p6: "auth_param al mem' (ref_str buf r, ?z) ''nonce'' 16 = Some (Some nonce)"
    unfolding hdr by (rule field [where i = 6 and w = nonce]) (simp_all add: digest_fields_def vb [simplified] ok)
  have rs: "auth_param al mem' (ref_str buf r, ?z) ''response'' 40 = Some (Some resp)"
    using auth_param_value [OF al _ vb [OF rb] lead fs, of 40 "''response''" "[]" mem' ?z] unfolding hdr
    by (simp add: digest_fields_def name_ok_def)
  have "auth_params al mem' (ref_str buf r, ?z) auth_buffers =
      Some (Some [user, digest_cnonce now, resp, uri, cstr ''auth'', cstr ''1'', nonce])"
    by (simp add: auth_buffers_def p0 p2 p3 p4 p5 p6 rs)
  moreover have "mg_check_digest_auth mem' mth uri user (digest_cnonce now) resp (cstr ''auth'') (cstr ''1'') nonce realm
      (concat (map entry_line es)) = Some True"
  proof -
    have s: "short (digest_cnonce now)" "short (cstr ''1'')" "short (cstr ''auth'')" using cn by (simp_all add: bare_def short_def)
    have "0 \<notin> set resp" using rb by (simp add: bare_def)
    moreover have "map tolower resp = resp" using resp(2) hex_digits_plain by (intro map_idI) blast
    ultimately show ?thesis
      using digest_check_eq [OF ok(5) sh(1,4) s(2,1,3), of resp mem' user realm "concat (map entry_line es)"]
        lookup_entries [OF pwd(1), of user realm] pwd(2) by (simp add: resp_def digest_response_def md5_hex_props)
  qed
  ultimately show ?thesis
    using create_digest_header [OF ok(5) sh(1,2,3) ok(6) sh(4)] req(1,3,4) fresh by (simp add: mg_http_check_digest_auth_def)
qed

definition auth_request :: "bytes \<Rightarrow> http_message" where
  "auth_request value = (no_message 0)\<lparr>hm_uri := Some (13, 1), hm_headers := [((0, 13), (14, length value))]\<rparr>"

definition demo_value :: bytes where
  "demo_value = digest_value [] [47] [100] [117] [112] [50] 7"

lemma digest_auth_roundtrip_witness:
  "mg_http_create_digest_auth_header (\<lambda>_ _. 0) 7 1000 [] [47] [100] [117] [112] [50] = Some (snprintf 1000 (cstr ''Authorization: '' @ demo_value @ [13, 10])) \<and>
    mg_http_check_digest_auth al_big (\<lambda>_ _. 0) 5 (cstr ''Authorization'' @ [47] @ demo_value) (auth_request demo_value) [100]
      (Some (entry_line ([120], [100], [49]) @ entry_line ([117], [100], digest_ha1 [117] [100] [112]))) = Some True"
proof -
  let ?es = "[([120], [100], [49]), ([117], [100], digest_ha1 [117] [100] [112])]" and ?buf = "cstr ''Authorization'' @ [47] @ demo_value"
  have al: "al_total al_big" by (simp add: al_total_def al_big_def)
  have ok: "quotable [117]" "quotable [100]" "quotable [47]" "bare [50]" "short []" "short [112]"
    by (simp_all add: quotable_def bare_def short_def)
  have fresh: "mg_check_nonce 5 [50]"
    by (simp add: mg_check_nonce_def strtoul16_def c_string_def isspace_def isxdigit_def isdigit_def hex_value_def Let_def)
  have l: "length (cstr ''Authorization'') = 13" by simp
  have "mg_ncasecmp ?buf (cstr ''Authorization'') 13 = 0"
    using ncasecmp_prefix [of "cstr ''Authorization''" "[47] @ demo_value"] unfolding l .
  then have h: "mg_get_http_header ?buf (auth_request demo_value) (cstr ''Authorization'') = Some (14, length demo_value)"
    by (simp add: mg_get_http_header_def auth_request_def eval_nat_numeral)
  have r: "ref_str ?buf (14, length demo_value) = digest_value [] [47] [100] [117] [112] [50] 7" by (simp add: ref_str_def demo_value_def)
  have m: "opt_str ?buf (hm_method (auth_request demo_value)) = []" "request_uri ?buf (auth_request demo_value) = [47]"
    by (simp_all add: opt_str_def request_uri_def auth_request_def no_message_def ref_str_def)
  have e: "\<forall>e \<in> set ?es. entry_ok e"
  proof -
    have "c \<noteq> 0 \<and> \<not> isspace c" if "c \<in> set (md5_hex x)" for c x using that md5_hex_props(2) hex_digits_plain [of c] by blast
    moreover have "md5_hex x \<noteq> []" for x using md5_hex_props(1) [of x] by auto
    ultimately show ?thesis using md5_hex_props(1) by (auto simp: entry_ok_def digest_ha1_def isspace_def)
  qed
  show ?thesis
    using digest_auth_roundtrip [OF al ok fresh h r m e, of "\<lambda>_ _. 0" 1000 "\<lambda>_ _. 0"] by (simp add: demo_value_def)
qed

lemma digest_check_spec_witness:
  "mg_check_digest_auth (\<lambda>_ _. 0) [71] [47] [117] [53] (take 1 (digest_response [71] [47] [97, 98] [50] [49] [53] [113])) [113] [49] [50] [100]
    (entry_line ([117], [100], [97, 98])) = Some True"
proof -
  let ?r = "digest_response [71] [47] [97, 98] [50] [49] [53] [113]"
  have r: "length ?r = 32" "set (take 1 ?r) \<subseteq> set hex_digits"
    using md5_hex_props by (auto simp: digest_response_def dest: in_set_takeD)
  have s: "0 \<notin> set (take 1 ?r)" "map tolower (take 1 ?r) = take 1 ?r" using r(2) hex_digits_plain by (auto intro!: map_idI)
  have l: "passwd_lookup [117] [100] (entry_line ([117], [100], [97, 98])) = Some [97, 98]"
    using lookup_entries [of "[([117], [100], [97, 98])]" "[117]" "[100]"] by (simp add: entry_ok_def isspace_def)
  show ?thesis
    using digest_check_spec [OF _ _ _ _ _ _ s(1), of "[71]" "[47]" "[50]" "[49]" "[53]" "[113]" "\<lambda>_ _. 0" "[117]" "[100]"
        "entry_line ([117], [100], [97, 98])"] l s(2) r(1) by (simp add: short_def)
qed

end
