(* ===== verification/MgHttpReply.thy ===== *)
theory MgHttpReply
  imports MgHttpAuth
begin

text \<open>
  What the HTTP side sends (mongoose/src/mg_http.c of 3rdLib/mongoose/mongoose.c): status lines, errors, redirects, the request
  for digest credentials, and files with ranges. A function that prints is the bytes it appends to the send buffer. The file
  system is a parameter, a stream its bytes and the position in them; the clock is a parameter. The build is the one with
  all optional parts off but the file system.
\<close>

subsection \<open>Heads\<close>

definition mg_status_message :: "int \<Rightarrow> bytes" where
  "mg_status_message code =
     (if code = 206 then cstr ''Partial Content''
      else if code = 301 then cstr ''Moved''
      else if code = 302 then cstr ''Found''
      else if code = 400 then cstr ''Bad Request''
      else if code = 401 then cstr ''Unauthorized''
      else if code = 403 then cstr ''Forbidden''
      else if code = 404 then cstr ''Not Found''
      else if code = 416 then cstr ''Requested Range Not Satisfiable''
      else if code = 418 then cstr ''I'' @ [39] @ cstr ''m a teapot''
      else if code = 500 then cstr ''Internal Server Error''
      else if code = 502 then cstr ''Bad Gateway''
      else if code = 503 then cstr ''Service Unavailable''
      else cstr ''OK'')"

definition mg_version_header :: bytes where "mg_version_header = cstr ''Mongoose/6.13''"

definition mg_send_response_line_s :: "int \<Rightarrow> bytes \<Rightarrow> bytes" where
  "mg_send_response_line_s status_code extra_headers =
     cstr ''HTTP/1.1 '' @ cstr (sprintf_d status_code) @ [32] @ mg_status_message status_code @ crlf @
     cstr ''Server: '' @ mg_version_header @ crlf @
     (if length extra_headers > 0 then c_string extra_headers @ crlf else [])"

definition mg_send_response_line :: "int \<Rightarrow> bytes \<Rightarrow> bytes" where
  "mg_send_response_line status_code extra_headers = mg_send_response_line_s status_code (c_string extra_headers)"

definition mg_http_send_redirect :: "int \<Rightarrow> bytes \<Rightarrow> bytes \<Rightarrow> bytes" where
  "mg_http_send_redirect status_code location extra_headers =
     (let pbody = cstr ''<p>Moved <a href='' @ [39] @ c_string location @ [39] @ cstr ''>here</a>.'' @ crlf;
          phead = cstr ''Location: '' @ c_string location @ crlf @ cstr ''Content-Type: text/html'' @ crlf @
            cstr ''Content-Length: '' @ cstr (sprintf_d (int (length pbody))) @ crlf @ cstr ''Cache-Control: no-cache'' @ crlf @
            c_string extra_headers @ (if length extra_headers > 0 then crlf else [])
      in mg_send_response_line status_code phead @ pbody)"

definition mg_send_head :: "int \<Rightarrow> int \<Rightarrow> bytes \<Rightarrow> bytes" where
  "mg_send_head status_code cl extra_headers =
     mg_send_response_line status_code extra_headers @
     (if cl < 0 then cstr ''Transfer-Encoding: chunked'' @ crlf
      else cstr ''Content-Length: '' @ cstr (sprintf_d cl) @ crlf) @ crlf"

text \<open>The bytes; the connection is closed once they are sent.\<close>

definition mg_http_send_error :: "int \<Rightarrow> bytes option \<Rightarrow> bytes" where
  "mg_http_send_error code reason =
     (let reason = (case reason of None \<Rightarrow> mg_status_message code | Some r \<Rightarrow> c_string r) in
      mg_send_head code (int (length reason)) (cstr ''Content-Type: text/plain'' @ crlf @ cstr ''Connection: close'') @ reason)"

definition mg_http_send_digest_auth_request :: "nat \<Rightarrow> bytes \<Rightarrow> bytes" where
  "mg_http_send_digest_auth_request now domain =
     cstr ''HTTP/1.1 401 Unauthorized'' @ crlf @ cstr ''WWW-Authenticate: Digest qop='' @ [34] @ cstr ''auth'' @ [34] @ cstr '', '' @
     cstr ''realm='' @ [34] @ c_string domain @ [34] @ cstr '', nonce='' @ [34] @ fmt_lx now @ [34] @ crlf @
     cstr ''Content-Length: 0'' @ crlf @ crlf"

subsection \<open>Dates\<close>

text \<open>gmtime and strftime: years are counted from 1970 within the 400 years after which the calendar repeats.\<close>

definition leap :: "int \<Rightarrow> bool" where "leap y \<longleftrightarrow> y mod 4 = 0 \<and> (y mod 100 \<noteq> 0 \<or> y mod 400 = 0)"

definition year_days :: "int \<Rightarrow> nat" where "year_days y = (if leap y then 366 else 365)"

definition month_days :: "int \<Rightarrow> nat list" where
  "month_days y = [31, if leap y then 29 else 28, 31, 30, 31, 30, 31, 31, 30, 31, 30, 31]"

function year_loop :: "int \<Rightarrow> nat \<Rightarrow> int \<times> nat" where
  "year_loop y d = (if d < year_days y then (y, d) else year_loop (y + 1) (d - year_days y))"
  by pat_completeness auto
termination by (relation "measure snd") (auto simp: year_days_def split: if_splits)

fun month_loop :: "nat list \<Rightarrow> nat \<Rightarrow> nat \<Rightarrow> nat \<times> nat" where
  "month_loop [] m d = (m, d)"
| "month_loop (n # ns) m d = (if d < n then (m, d) else month_loop ns (Suc m) (d - n))"

definition gmtime_date :: "int \<Rightarrow> int \<times> nat \<times> nat" where
  "gmtime_date days =
     (let (y, d) = year_loop 1970 (nat (days mod 146097)); (m, d) = month_loop (month_days y) 0 d
      in (y + 400 * (days div 146097), m, d + 1))"

definition two_digits :: "nat \<Rightarrow> bytes" where "two_digits n = [of_nat (48 + n div 10), of_nat (48 + n mod 10)]"

definition day_names :: "string list" where
  "day_names = [''Sun'', ''Mon'', ''Tue'', ''Wed'', ''Thu'', ''Fri'', ''Sat'']"

definition month_names :: "string list" where
  "month_names = [''Jan'', ''Feb'', ''Mar'', ''Apr'', ''May'', ''Jun'', ''Jul'', ''Aug'', ''Sep'', ''Oct'', ''Nov'', ''Dec'']"

text \<open>When the result does not fit, strftime leaves the buffer undefined.\<close>

definition mg_gmt_time_string :: "nat \<Rightarrow> int \<Rightarrow> bytes option" where
  "mg_gmt_time_string buf_len t =
     (let days = t div 86400; s = nat (t mod 86400); (y, m, d) = gmtime_date days;
          r = cstr (day_names ! nat ((days + 4) mod 7)) @ cstr '', '' @ two_digits d @ [32] @ cstr (month_names ! m) @ [32] @
            cstr (sprintf_d y) @ [32] @ two_digits (s div 3600) @ [58] @ two_digits (s div 60 mod 60) @ [58] @
            two_digits (s mod 60) @ cstr '' GMT''
      in if length r < buf_len then Some r else None)"

subsection \<open>Types of files\<close>

definition mg_static_builtin_mime_types :: "(string \<times> string) list" where
  "mg_static_builtin_mime_types =
     [(''html'', ''text/html''), (''html'', ''text/html''), (''htm'', ''text/html''), (''shtm'', ''text/html''),
      (''shtml'', ''text/html''), (''css'', ''text/css''), (''js'', ''application/x-javascript''), (''ico'', ''image/x-icon''),
      (''gif'', ''image/gif''), (''jpg'', ''image/jpeg''), (''jpeg'', ''image/jpeg''), (''png'', ''image/png''),
      (''svg'', ''image/svg+xml''), (''txt'', ''text/plain''), (''torrent'', ''application/x-bittorrent''),
      (''wav'', ''audio/x-wav''), (''mp3'', ''audio/x-mp3''), (''mid'', ''audio/mid''), (''m3u'', ''audio/x-mpegurl''),
      (''ogg'', ''application/ogg''), (''ram'', ''audio/x-pn-realaudio''), (''xml'', ''text/xml''),
      (''ttf'', ''application/x-font-ttf''), (''json'', ''application/json''), (''xslt'', ''application/xml''),
      (''xsl'', ''application/xml''), (''ra'', ''audio/x-pn-realaudio''), (''doc'', ''application/msword''),
      (''exe'', ''application/octet-stream''), (''zip'', ''application/x-zip-compressed''), (''xls'', ''application/excel''),
      (''tgz'', ''application/x-tar-gz''), (''tar'', ''application/x-tar''), (''gz'', ''application/x-gunzip''),
      (''arj'', ''application/x-arj-compressed''), (''rar'', ''application/x-rar-compressed''), (''rtf'', ''application/rtf''),
      (''pdf'', ''application/pdf''), (''swf'', ''application/x-shockwave-flash''), (''mpg'', ''video/mpeg''),
      (''webm'', ''video/webm''), (''mpeg'', ''video/mpeg''), (''mov'', ''video/quicktime''), (''mp4'', ''video/mp4''),
      (''m4v'', ''video/x-m4v''), (''asf'', ''video/x-ms-asf''), (''avi'', ''video/x-msvideo''), (''bmp'', ''image/bmp'')]"

function mime_overrides :: "bytes \<Rightarrow> bytes \<Rightarrow> bytes option" where
  "mime_overrides overrides path =
     (case mg_next_comma_list_entry_n overrides True of
        None \<Rightarrow> None
      | Some (k, v, rest) \<Rightarrow>
          (if length path > length k \<and> mg_vcasecmp k (drop (length path - length k) path) = 0
           then Some (case v of None \<Rightarrow> [] | Some v \<Rightarrow> v)
           else mime_overrides rest path))"
  by pat_completeness auto
termination
  by (relation "measure (\<lambda>(l, p). length l)")
    (auto simp: mg_next_comma_list_entry_n_def Let_def split: if_splits option.splits)

fun mime_builtin :: "(string \<times> string) list \<Rightarrow> bytes \<Rightarrow> bytes option" where
  "mime_builtin [] path = None"
| "mime_builtin ((e, t) # types) path =
     (let i = length path - length e in
      if length path > length e \<and> path ! (i - 1) = 46 \<and> mg_casecmp (drop i path) (cstr e) = 0 then Some (cstr t)
      else mime_builtin types path)"

definition mg_get_mime_type :: "bytes \<Rightarrow> bytes \<Rightarrow> bytes \<Rightarrow> bytes" where
  "mg_get_mime_type path dflt custom_mime_types =
     (case mime_overrides custom_mime_types path of
        Some v \<Rightarrow> v
      | None \<Rightarrow> (case mime_builtin mg_static_builtin_mime_types path of Some t \<Rightarrow> t | None \<Rightarrow> dflt))"

subsection \<open>Ranges\<close>

text \<open>A \<open>%lld\<close> of scanf: blanks, a sign, at least one digit; what is left. Values saturate as in strtoll.\<close>

definition scan_lld :: "bytes \<Rightarrow> (int \<times> bytes) option" where
  "scan_lld s =
     (let s = dropWhile isspace s; d = (if s \<noteq> [] \<and> (hd s = 45 \<or> hd s = 43) then tl s else s) in
      if takeWhile isdigit d = [] then None else Some (strtoll s, dropWhile isdigit d))"

text \<open>The number of conversions (-1 at the end of the input before the first one) and the two numbers, 0 unless read.\<close>

definition mg_http_parse_range_header :: "bytes \<Rightarrow> int \<times> int \<times> int" where
  "mg_http_parse_range_header hdr =
     (let p = c_string hdr in
      if take 6 p \<noteq> cstr ''bytes='' then (if length p < 6 \<and> p = take (length p) (cstr ''bytes='') then (-1, 0, 0) else (0, 0, 0))
      else case scan_lld (drop 6 p) of
        None \<Rightarrow> (if dropWhile isspace (drop 6 p) = [] then (-1, 0, 0) else (0, 0, 0))
      | Some (a, s) \<Rightarrow>
          (if s = [] \<or> hd s \<noteq> 45 then (1, a, 0)
           else case scan_lld (tl s) of None \<Rightarrow> (1, a, 0) | Some (b, _) \<Rightarrow> (2, a, b)))"

subsection \<open>Files\<close>

datatype file_type = DATA_NONE | DATA_FILE | DATA_PUT

text \<open>A stream is its bytes and a position.\<close>

record http_file =
  fl_fp :: "(bytes \<times> nat) option"
  fl_cl :: int
  fl_sent :: int
  fl_keepalive :: bool
  fl_type :: file_type

record file_conn =
  fc_recv :: bytes
  fc_send :: bytes
  fc_send_and_close :: bool
  fc_file :: http_file

definition MG_MAX_HTTP_SEND_MBUF :: nat where "MG_MAX_HTTP_SEND_MBUF = 4096"

definition mg_http_free_proto_data_file :: http_file where
  "mg_http_free_proto_data_file = \<lparr>fl_fp = None, fl_cl = 0, fl_sent = 0, fl_keepalive = False, fl_type = DATA_NONE\<rparr>"

definition fread :: "nat \<Rightarrow> bytes \<times> nat \<Rightarrow> bytes \<times> (bytes \<times> nat)" where
  "fread n fp = (let d = take n (drop (snd fp) (fst fp)) in (d, (fst fp, snd fp + length d)))"

text \<open>A write of which the system takes \<open>n\<close> bytes.\<close>

definition fwrite :: "nat \<Rightarrow> bytes \<Rightarrow> bytes \<times> nat \<Rightarrow> bytes \<times> nat" where
  "fwrite n d fp = (blit (fst fp @ replicate (snd fp - length (fst fp)) 0) (snd fp) (take n d), snd fp + n)"

definition file_done :: "file_conn \<Rightarrow> file_conn" where
  "file_done c = c\<lparr>fc_send_and_close := fc_send_and_close c \<or> \<not> fl_keepalive (fc_file c), fc_file := mg_http_free_proto_data_file\<rparr>"

text \<open>\<open>taken\<close> is how many of the bytes offered the file system writes, at most all of them. The number of bytes left is a size_t.\<close>

definition mg_http_transfer_file_data :: "(nat \<Rightarrow> nat) \<Rightarrow> file_conn \<Rightarrow> file_conn option" where
  "mg_http_transfer_file_data taken c =
     (let f = fc_file c; left = unat (word_of_int (fl_cl f - fl_sent f) :: u64) in
      case fl_type f of
        DATA_FILE \<Rightarrow> do {
          let to_read = (if length (fc_send c) \<ge> MG_MAX_HTTP_SEND_MBUF then 0 else MG_MAX_HTTP_SEND_MBUF - length (fc_send c));
          let to_read = (if to_read > left then left else to_read);
          c \<leftarrow> (if to_read > 0 then do {
                 fp \<leftarrow> fl_fp f;
                 let (buf, fp) = fread to_read fp;
                 Some (c\<lparr>fc_send := fc_send c @ buf, fc_file := f\<lparr>fl_fp := Some fp, fl_sent := fl_sent f + int (length buf)\<rparr>\<rparr>) }
               else Some c);
          Some (if fl_sent (fc_file c) \<ge> fl_cl (fc_file c) then file_done c else c) }
      | DATA_PUT \<Rightarrow> do {
          let to_write = (if left < length (fc_recv c) then left else length (fc_recv c));
          fp \<leftarrow> fl_fp f;
          let n = min (taken to_write) to_write;
          let c = (if n > 0 then c\<lparr>fc_recv := drop n (fc_recv c), fc_file := f\<lparr>fl_fp := Some (fwrite n (fc_recv c) fp),
              fl_sent := fl_sent f + int n\<rparr>\<rparr> else c);
          Some (if n = 0 \<or> fl_sent (fc_file c) \<ge> fl_cl (fc_file c) then file_done c else c) }
      | DATA_NONE \<Rightarrow> Some c)"

datatype errno = EACCES | ENOENT | OTHER_ERROR

record file_stat =
  st_mtime :: int
  st_size :: int

definition mg_http_construct_etag :: "nat \<Rightarrow> file_stat \<Rightarrow> bytes" where
  "mg_http_construct_etag buf_len st =
     fst (snprintf buf_len ([34] @ fmt_lx (unat (word_of_int (st_mtime st) :: u64)) @ [46] @ cstr (sprintf_d (st_size st)) @ [34]))"

text \<open>The status code, the content length, the line about the range, and where the stream starts.\<close>

definition serve_range :: "bytes option \<Rightarrow> int \<Rightarrow> int \<times> int \<times> bytes \<times> nat" where
  "serve_range range_hdr fsize =
     (case range_hdr of
        None \<Rightarrow> (200, fsize, [], 0)
      | Some hdr \<Rightarrow>
          (case mg_http_parse_range_header hdr of (n, r1, r2) \<Rightarrow>
             if \<not> (n > 0 \<and> r1 \<ge> 0 \<and> r2 \<ge> 0) then (200, fsize, [], 0)
             else
               let r2 = (if n = 1 then fsize - 1 else r2) in
               if r1 > r2 \<or> r2 \<ge> fsize then
                 (416, 0, fst (snprintf 70 (cstr ''Content-Range: bytes */'' @ cstr (sprintf_d fsize) @ crlf)), 0)
               else
                 (206, r2 - r1 + 1, fst (snprintf 70 (cstr ''Content-Range: bytes '' @ cstr (sprintf_d r1) @ cstr ''-'' @
                    cstr (sprintf_d (r1 + (r2 - r1 + 1) - 1)) @ cstr ''/'' @ cstr (sprintf_d fsize) @ crlf)), nat r1)))"

definition keep_alive :: "bytes option \<Rightarrow> bytes \<Rightarrow> bool" where
  "keep_alive conn_hdr proto =
     (case conn_hdr of Some v \<Rightarrow> mg_vcasecmp v (cstr ''keep-alive'') = 0 | None \<Rightarrow> mg_vcmp proto (cstr ''HTTP/1.1'') = 0)"

text \<open>
  \<open>fs\<close> opens a path: its status and bytes, or the error and whether it was fopen that failed, which leaves no stream. The
  message's strings point into \<open>buf\<close>.
\<close>

definition mg_http_serve_file ::
    "(bytes \<Rightarrow> errno \<times> bool + file_stat \<times> bytes) \<Rightarrow> int \<Rightarrow> bytes \<Rightarrow> http_message \<Rightarrow> bytes \<Rightarrow> bytes \<Rightarrow> bytes \<Rightarrow> file_conn \<Rightarrow> file_conn option" where
  "mg_http_serve_file fs now buf hm path mime_type extra_headers c =
     (case fs path of
        Inl (err, at_open) \<Rightarrow>
          (let code = (case err of EACCES \<Rightarrow> 403 | ENOENT \<Rightarrow> 404 | OTHER_ERROR \<Rightarrow> 500) in
           Some (c\<lparr>fc_send := fc_send c @ mg_http_send_error code (Some (cstr ''Open failed'')), fc_send_and_close := True,
             fc_file := (if at_open then (fc_file c)\<lparr>fl_fp := None\<rparr> else fc_file c)\<rparr>))
      | Inr (st, content) \<Rightarrow> do {
          let header = (\<lambda>name. map_option (ref_str buf) (mg_get_http_header buf hm (cstr name)));
          let (status_code, cl, rng, pos) = serve_range (header ''Range'') (st_size st);
          let keepalive = keep_alive (header ''Connection'') (opt_str buf (hm_proto hm));
          let etag = mg_http_construct_etag 50 st;
          current_time \<leftarrow> mg_gmt_time_string 50 now;
          last_modified \<leftarrow> mg_gmt_time_string 50 (st_mtime st);
          let head = mg_send_response_line_s status_code extra_headers @
            cstr ''Date: '' @ current_time @ crlf @ cstr ''Last-Modified: '' @ last_modified @ crlf @
            cstr ''Accept-Ranges: bytes'' @ crlf @ cstr ''Content-Type: '' @ c_string mime_type @ crlf @
            cstr ''Connection: '' @ (if keepalive then cstr ''keep-alive'' else cstr ''close'') @ crlf @
            cstr ''Content-Length: '' @ cstr (dec_nat (unat (word_of_int cl :: u64))) @ crlf @
            rng @ cstr ''Etag: '' @ etag @ crlf @ crlf;
          mg_http_transfer_file_data id (c\<lparr>fc_send := fc_send c @ head,
            fc_file := (fc_file c)\<lparr>fl_fp := Some (content, pos), fl_cl := cl, fl_keepalive := keepalive, fl_type := DATA_FILE\<rparr>\<rparr>) })"


subsection \<open>Decimal numbers\<close>

lemma cstr_append: "cstr (a @ b) = cstr a @ cstr b"
  by (simp add: cstr_def)

lemma cstr_dec_nat:
  "cstr (dec_nat n) = (if n < 10 then [digit_byte n] else cstr (dec_nat (n div 10)) @ [digit_byte (n mod 10)])"
proof -
  have c: "cstr [char_of (48 + d)] = [digit_byte d]" if "d < 10" for d :: nat
    using that by (simp add: digit_byte_def)
  show ?thesis by (subst dec_nat.simps) (simp add: cstr_append c del: cstr_Cons)
qed

lemma dec_nat_digits:
  "(\<forall>c \<in> set (cstr (dec_nat n)). isdigit c) \<and> cstr (dec_nat n) \<noteq> [] \<and>
   fold (\<lambda>c v. v * 10 + (uint c - 48)) (cstr (dec_nat n)) 0 = int n"
proof (induction n rule: dec_nat.induct)
  case (1 n)
  show ?case
  proof (cases "n < 10")
    case True
    then show ?thesis using digit_byte [of n] by (subst (1 2 3) cstr_dec_nat) simp
  next
    case False
    have "int n = int (n div 10) * 10 + int (n mod 10)" by presburger
    then show ?thesis
      using False "1.IH" [OF False] digit_byte [of "n mod 10"] by (subst (1 2 3) cstr_dec_nat) simp
  qed
qed

lemma isdigit_props: "isdigit c \<Longrightarrow> isprint c \<and> c \<notin> {0, 32, 43, 45, 58} \<and> \<not> isspace c"
proof -
  assume "isdigit c"
  then have "48 \<le> unat c" "unat c \<le> 57" by (simp_all add: isdigit_def word_le_nat_alt)
  moreover have "unat (0 :: byte) = 0" "unat (32 :: byte) = 32" "unat (43 :: byte) = 43" "unat (45 :: byte) = 45" "unat (58 :: byte) = 58"
    by simp_all
  ultimately show ?thesis by (auto simp: isprint_def isspace_def word_le_nat_alt)
qed



subsection \<open>Errors are understood\<close>








subsection \<open>A range lies in the file\<close>

lemma serve_range_within:
  assumes "serve_range range_hdr fsize = (status_code, cl, rng, pos)" "0 \<le> fsize"
  shows "0 \<le> cl \<and> int pos + cl \<le> fsize"
  using assms by (auto simp: serve_range_def Let_def split: option.splits if_splits prod.splits)

subsection \<open>Which bytes a request asks for\<close>

text \<open>What a request's Range header asks for, printed, and what is then to be served of a file: the status, the line about the
range and the bytes. Ranges counted from the end and other units are not understood, and the whole file is served.\<close>

datatype asked = Whole | From nat | Between nat nat | Last nat | Other_unit bytes

fun range_value :: "asked \<Rightarrow> bytes option" where
  "range_value Whole = None"
| "range_value (From a) = Some (cstr ''bytes='' @ cstr (dec_nat a) @ cstr ''-'')"
| "range_value (Between a b) = Some (cstr ''bytes='' @ cstr (dec_nat a) @ cstr ''-'' @ cstr (dec_nat b))"
| "range_value (Last n) = Some (cstr ''bytes=-'' @ cstr (dec_nat n))"
| "range_value (Other_unit v) = Some v"

fun asked_ok :: "asked \<Rightarrow> bool" where
  "asked_ok Whole = True"
| "asked_ok (From a) = (a < 2 ^ 63)"
| "asked_ok (Between a b) = (a < 2 ^ 63 \<and> b < 2 ^ 63)"
| "asked_ok (Last n) = (0 < n \<and> n < 2 ^ 63)"
| "asked_ok (Other_unit v) = (0 \<notin> set v \<and> take 6 v \<noteq> cstr ''bytes='')"

definition content_range :: "bytes \<Rightarrow> nat \<Rightarrow> bytes" where
  "content_range r n = cstr ''Content-Range: bytes '' @ r @ cstr ''/'' @ cstr (dec_nat n) @ crlf"

definition bytes_of :: "bytes \<Rightarrow> nat \<Rightarrow> nat \<Rightarrow> bytes" where
  "bytes_of content a b = map (\<lambda>i. content ! i) [a..<Suc b]"

definition served_slice :: "bytes \<Rightarrow> nat \<Rightarrow> nat \<Rightarrow> int \<times> bytes \<times> bytes" where
  "served_slice content a b =
     (if a \<le> b \<and> b < length content then
        (206, content_range (cstr (dec_nat a) @ cstr ''-'' @ cstr (dec_nat b)) (length content), bytes_of content a b)
      else (416, content_range (cstr ''*'') (length content), []))"

fun served :: "bytes \<Rightarrow> asked \<Rightarrow> int \<times> bytes \<times> bytes" where
  "served content (From a) = (if a < length content then served_slice content a (length content - 1)
      else (416, content_range (cstr ''*'') (length content), []))"
| "served content (Between a b) = served_slice content a b"
| "served content _ = (200, [], content)"

lemma dec_nat_length: "0 < d \<Longrightarrow> n < 10 ^ d \<Longrightarrow> length (dec_nat n) \<le> d"
proof (induction d arbitrary: n)
  case (Suc d)
  show ?case
  proof (cases "n < 10")
    case False
    then have "d \<noteq> 0" using Suc.prems by (cases d) auto
    moreover have "n div 10 < 10 ^ d" using Suc.prems(2) by (simp add: less_mult_imp_div_less mult.commute)
    ultimately have "length (dec_nat (n div 10)) \<le> d" using Suc.IH by blast
    then show ?thesis using False by (subst dec_nat.simps) simp
  qed (subst dec_nat.simps, simp)
qed simp

lemma scan_dec:
  assumes "n < 2 ^ 63" "rest = [] \<or> \<not> isdigit (hd rest)"
  shows "scan_lld (cstr (dec_nat n) @ rest) = Some (int n, rest)"
    and "scan_lld (45 # cstr (dec_nat n) @ rest) = Some (- int n, rest)"
proof -
  let ?s = "cstr (dec_nat n)"
  have d: "\<forall>c \<in> set ?s. isdigit c" "?s \<noteq> []" "fold (\<lambda>c v. v * 10 + (uint c - 48)) ?s 0 = int n"
    using dec_nat_digits [of n] by auto
  then have h: "isdigit (hd ?s)" by simp
  have sp: "dropWhile isspace (?s @ rest) = ?s @ rest" using d(2) isdigit_props [OF h] by (cases ?s) auto
  have t: "takeWhile isdigit (?s @ rest) = ?s" "dropWhile isdigit (?s @ rest) = rest"
    using d(1) assms(2) by (auto simp: takeWhile_append dropWhile_append takeWhile_eq_Nil_iff, cases rest, auto)
  have hd: "hd (?s @ rest) \<noteq> 45" "hd (?s @ rest) \<noteq> 43" using isdigit_props [OF h] d(2) by auto
  have m: "\<not> isspace 45" by (simp add: isspace_def)
  show "scan_lld (?s @ rest) = Some (int n, rest)"
    using d(2,3) sp t hd assms(1) by (simp add: scan_lld_def strtoll_def Let_def)
  show "scan_lld (45 # ?s @ rest) = Some (- int n, rest)"
    using d(2,3) t m assms(1) by (simp add: scan_lld_def strtoll_def Let_def)
qed


lemma range_value_string:
  assumes "asked_ok r" "range_value r = Some v"
  shows "c_string v = v"
proof -
  have "0 \<notin> set (cstr (dec_nat n))" for n using dec_nat_digits [of n] isdigit_props by blast
  then have "0 \<notin> set v" using assms by (cases r) auto
  then show ?thesis by (auto simp: c_string_def takeWhile_eq_all_conv)
qed

lemma parse_range:
  "a < 2 ^ 63 \<Longrightarrow> mg_http_parse_range_header (cstr ''bytes='' @ cstr (dec_nat a) @ cstr ''-'') = (1, int a, 0)"
  "a < 2 ^ 63 \<Longrightarrow> b < 2 ^ 63 \<Longrightarrow>
    mg_http_parse_range_header (cstr ''bytes='' @ cstr (dec_nat a) @ cstr ''-'' @ cstr (dec_nat b)) = (2, int a, int b)"
  "a < 2 ^ 63 \<Longrightarrow> mg_http_parse_range_header (cstr ''bytes=-'' @ cstr (dec_nat a)) = (1, - int a, 0)"
proof -
  have m: "\<not> isdigit 45" by (simp add: isdigit_def)
  assume a: "a < 2 ^ 63"
  have c: "c_string (cstr ''bytes='' @ cstr (dec_nat a) @ cstr ''-'') = cstr ''bytes='' @ cstr (dec_nat a) @ cstr ''-''"
    by (rule range_value_string [of "From a"]) (use a in simp_all)
  have "scan_lld [] = None" by (simp add: scan_lld_def)
  then show "mg_http_parse_range_header (cstr ''bytes='' @ cstr (dec_nat a) @ cstr ''-'') = (1, int a, 0)"
    using scan_dec(1) [OF a, of "[45]"] m unfolding mg_http_parse_range_header_def c Let_def by simp
  have "0 \<notin> set (cstr (dec_nat a))" using dec_nat_digits [of a] isdigit_props by blast
  then have c0: "c_string (cstr ''bytes=-'' @ cstr (dec_nat a)) = cstr ''bytes=-'' @ cstr (dec_nat a)"
    by (auto simp: c_string_def takeWhile_eq_all_conv)
  show "mg_http_parse_range_header (cstr ''bytes=-'' @ cstr (dec_nat a)) = (1, - int a, 0)"
    using scan_dec(2) [OF a, of "[]"] unfolding mg_http_parse_range_header_def c0 Let_def by simp
  assume b: "b < 2 ^ 63"
  have c: "c_string (cstr ''bytes='' @ cstr (dec_nat a) @ cstr ''-'' @ cstr (dec_nat b)) =
      cstr ''bytes='' @ cstr (dec_nat a) @ cstr ''-'' @ cstr (dec_nat b)"
    by (rule range_value_string [of "Between a b"]) (use a b in simp_all)
  show "mg_http_parse_range_header (cstr ''bytes='' @ cstr (dec_nat a) @ cstr ''-'' @ cstr (dec_nat b)) = (2, int a, int b)"
    using scan_dec(1) [OF a, of "45 # cstr (dec_nat b)"] scan_dec(1) [OF b, of "[]"] m
    unfolding mg_http_parse_range_header_def c Let_def by simp
qed

lemma range_line:
  assumes "length r \<le> 29" "n < 10 ^ 14"
  shows "fst (snprintf 70 (content_range r n)) = content_range r n"
proof -
  have "length (dec_nat n) \<le> 14" using assms(2) by (intro dec_nat_length) simp_all
  then show ?thesis using assms(1) by (simp add: snprintf_def content_range_def length_cstr crlf_def)
qed

lemma bytes_of_slice: "a \<le> b \<Longrightarrow> b < length content \<Longrightarrow> bytes_of content a b = take (b - a + 1) (drop a content)"
  unfolding bytes_of_def by (rule nth_equalityI) (simp_all del: upt_Suc)

lemma serve_range_slice:
  assumes "mg_http_parse_range_header v = (k, int a, b')" "k = 1 \<and> b' = 0 \<and> int b = int (length content) - 1 \<or> k = 2 \<and> b' = int b"
    and "length content < 10 ^ 14" "served_slice content a b = (status_code, rng, body)"
  shows "\<exists>pos. serve_range (Some v) (int (length content)) = (status_code, int (length body), rng, pos) \<and>
    body = take (length body) (drop pos content) \<and> pos + length body \<le> length content"
proof -
  let ?n = "length content"
  have r2: "(if k = 1 then int ?n - 1 else b') = int b" using assms(2) by auto
  have sr: "serve_range (Some v) (int ?n) = (if int a > int b \<or> int b \<ge> int ?n then
        (416, 0, fst (snprintf 70 (content_range (cstr ''*'') ?n)), 0)
      else (206, int b - int a + 1, fst (snprintf 70 (content_range (cstr (dec_nat a) @ cstr ''-'' @ cstr (dec_nat b)) ?n)), a))"
    unfolding serve_range_def option.case assms(1) prod.case Let_def r2 using assms(2)
    by (auto simp: content_range_def sprintf_d_def)
  show ?thesis
  proof (cases "a \<le> b \<and> b < ?n")
    case True
    then have "length (dec_nat a) \<le> 14" "length (dec_nat b) \<le> 14" using assms(3) by (auto intro!: dec_nat_length)
    then have "fst (snprintf 70 (content_range (cstr (dec_nat a) @ cstr ''-'' @ cstr (dec_nat b)) ?n)) =
        content_range (cstr (dec_nat a) @ cstr ''-'' @ cstr (dec_nat b)) ?n"
      by (intro range_line assms(3)) (simp add: length_cstr)
    moreover have s: "body = take (b - a + 1) (drop a content)" using assms(4) True bytes_of_slice by (simp add: served_slice_def)
    moreover have "length body = b - a + 1" using s True by (auto simp: min_def)
    ultimately show ?thesis using sr True assms(4) by (intro exI [of _ a]) (auto simp: served_slice_def)
  next
    case False
    have "fst (snprintf 70 (content_range (cstr ''*'') ?n)) = content_range (cstr ''*'') ?n"
      by (intro range_line assms(3)) simp
    then show ?thesis using sr False assms(4) by (intro exI [of _ 0]) (auto simp: served_slice_def)
  qed
qed

lemma serve_range_served:
  assumes "asked_ok r" "length content < 10 ^ 14" "served content r = (status_code, rng, body)"
  shows "\<exists>pos. serve_range (range_value r) (int (length content)) = (status_code, int (length body), rng, pos) \<and>
    body = take (length body) (drop pos content) \<and> pos + length body \<le> length content"
proof (cases r)
  case (From a)
  show ?thesis
  proof (cases "a < length content")
    case True
    have p: "mg_http_parse_range_header (the (range_value r)) = (1, int a, 0)" using From assms(1) parse_range(1) [of a] by simp
    have "served_slice content a (length content - 1) = (status_code, rng, body)" using True From assms(3) by simp
    from serve_range_slice [OF p _ assms(2) this] show ?thesis using True From by auto
  next
    case False
    then have "fst (snprintf 70 (content_range (cstr ''*'') (length content))) = content_range (cstr ''*'') (length content)"
      by (intro range_line assms(2)) simp
    then show ?thesis
      using False From assms parse_range(1) [of a] by (simp add: serve_range_def sprintf_d_def content_range_def)
  qed
next
  case (Between a b)
  then have p: "mg_http_parse_range_header (the (range_value r)) = (2, int a, int b)" using assms(1) parse_range(2) [of a b] by simp
  have "served_slice content a b = (status_code, rng, body)" using Between assms(3) by simp
  from serve_range_slice [OF p _ assms(2) this] show ?thesis using Between by auto
next
  case (Other_unit v)
  then show ?thesis using assms range_value_string [of r v]
    by (auto simp: serve_range_def mg_http_parse_range_header_def)
next
  case (Last n)
  then show ?thesis using assms parse_range(3) [of n] by (auto simp: serve_range_def)
qed (use assms in \<open>auto simp: serve_range_def\<close>)

text \<open>The connection is kept when the request says so, and without a word about it when it is HTTP/1.1.\<close>

definition keeps :: "bytes option \<Rightarrow> bytes \<Rightarrow> bool" where
  "keeps conn_hdr proto \<longleftrightarrow>
     (case conn_hdr of Some v \<Rightarrow> map tolower v = cstr ''keep-alive'' | None \<Rightarrow> proto = cstr ''HTTP/1.1'')"

lemma keep_alive_keeps: "keep_alive conn_hdr proto = keeps conn_hdr proto"
proof -
  have l: "map tolower (cstr ''keep-alive'') = cstr ''keep-alive''" by code_simp
  have "0 \<notin> set (cstr ''keep-alive'')" "0 \<notin> set (cstr ''HTTP/1.1'')" by simp_all
  then show ?thesis using mg_vcasecmp_iff [of "cstr ''keep-alive''"] mg_vcmp_eq [of "cstr ''HTTP/1.1''"]
    unfolding keep_alive_def keeps_def l by (simp split: option.split)
qed

subsection \<open>A file is sent whole\<close>

text \<open>The network takes some bytes from the send buffer and the connection is polled, again and again; \<open>out\<close> has been sent.\<close>

fun file_pump :: "nat list \<Rightarrow> bytes \<Rightarrow> file_conn \<Rightarrow> (bytes \<times> file_conn) option" where
  "file_pump [] out c = Some (out, c)"
| "file_pump (k # ks) out c = do {
     c' \<leftarrow> mg_http_transfer_file_data id (c\<lparr>fc_send := drop k (fc_send c)\<rparr>);
     file_pump ks (out @ take k (fc_send c)) c' }"

text \<open>The bytes \<open>data\<close> of the file are still to be sent, or all has been sent and the file is closed.\<close>

definition sending :: "bytes \<Rightarrow> bool \<Rightarrow> file_conn \<Rightarrow> bool" where
  "sending data keep c \<longleftrightarrow>
     (let f = fc_file c in
      fl_type f = DATA_FILE \<and> fl_keepalive f = keep \<and> 0 \<le> fl_sent f \<and> fl_cl f - fl_sent f = int (length data) \<and>
      fl_cl f < 2 ^ 63 \<and> (\<exists>content pos rest. fl_fp f = Some (content, pos) \<and> drop pos content = data @ rest))"

definition sent_all :: "bool \<Rightarrow> file_conn \<Rightarrow> bool" where
  "sent_all keep c \<longleftrightarrow> fc_file c = mg_http_free_proto_data_file \<and> (keep \<or> fc_send_and_close c)"

lemma transfer_sending:
  assumes "sending data keep c"
  shows "\<exists>d data' c'. mg_http_transfer_file_data id c = Some c' \<and> data = d @ data' \<and>
    length d = min (MG_MAX_HTTP_SEND_MBUF - length (fc_send c)) (length data) \<and>
    fc_send c' = fc_send c @ d \<and> fc_recv c' = fc_recv c \<and> (if data' = [] then sent_all keep c' else sending data' keep c')"
proof -
  let ?f = "fc_file c"
  obtain content pos rest where f: "fl_type ?f = DATA_FILE" "fl_keepalive ?f = keep" "0 \<le> fl_sent ?f"
      "fl_cl ?f - fl_sent ?f = int (length data)" "fl_cl ?f < 2 ^ 63" "fl_fp ?f = Some (content, pos)" "drop pos content = data @ rest"
    using assms by (auto simp: sending_def Let_def)
  have "int (length data) < 2 ^ 63" using f(3,4,5) by linarith
  then have small: "length data < 2 ^ 64" by simp
  have left: "unat (word_of_int (fl_cl ?f - fl_sent ?f) :: u64) = length data"
    unfolding f(4) using small by (simp add: unat_of_nat)
  define n where "n = min (MG_MAX_HTTP_SEND_MBUF - length (fc_send c)) (length data)"
  have room: "(if length (fc_send c) \<ge> MG_MAX_HTTP_SEND_MBUF then 0 else MG_MAX_HTTP_SEND_MBUF - length (fc_send c)) =
      MG_MAX_HTTP_SEND_MBUF - length (fc_send c)" by simp
  have cut: "(if MG_MAX_HTTP_SEND_MBUF - length (fc_send c) > length data then length data
      else MG_MAX_HTTP_SEND_MBUF - length (fc_send c)) = n" by (simp add: n_def)
  define c1 where "c1 = (if n > 0 then c\<lparr>fc_send := fc_send c @ take n data, fc_file := ?f\<lparr>fl_fp := Some (content, pos + n),
      fl_sent := fl_sent ?f + int n\<rparr>\<rparr> else c)"
  have n: "n \<le> length data" by (simp add: n_def)
  have "take n (drop pos content) = take n data" using n by (simp add: f(7))
  then have rd: "fread n (content, pos) = (take n data, (content, pos + n))" using n by (simp add: fread_def Let_def del: length_drop)
  have step: "mg_http_transfer_file_data id c = Some (if fl_sent (fc_file c1) \<ge> fl_cl (fc_file c1) then file_done c1 else c1)"
    using n f(1,6) unfolding mg_http_transfer_file_data_def left Let_def room cut
    by (simp add: rd c1_def)
  have c1: "fc_send c1 = fc_send c @ take n data" "fc_recv c1 = fc_recv c" "fl_cl (fc_file c1) - fl_sent (fc_file c1) = int (length (drop n data))"
      "fl_keepalive (fc_file c1) = keep" using n f(2,4) by (auto simp: c1_def)
  have "sending (drop n data) keep c1"
  proof -
    have "drop (pos + n) content = drop n (drop pos content)" by (simp add: add.commute)
    then have "drop (pos + n) content = drop n data @ rest" unfolding f(7) using n by simp
    then show ?thesis using f n by (auto simp: sending_def c1_def Let_def)
  qed
  moreover have "fl_sent (fc_file c1) \<ge> fl_cl (fc_file c1) \<longleftrightarrow> drop n data = []" using c1(3) by auto
  ultimately show ?thesis
    using step c1 by (intro exI [of _ "take n data"] exI [of _ "drop n data"]) (auto simp: sent_all_def file_done_def n_def)
qed

lemma transfer_done: "sent_all keep c \<Longrightarrow> mg_http_transfer_file_data id c = Some c"
  by (simp add: sent_all_def mg_http_transfer_file_data_def mg_http_free_proto_data_file_def)

definition progress :: "bytes \<Rightarrow> bool \<Rightarrow> file_conn \<Rightarrow> bool" where
  "progress data keep c \<longleftrightarrow> (if data = [] then sent_all keep c else sending data keep c)"

lemma transfer_progress:
  assumes "progress data keep c"
  shows "\<exists>d data' c'. mg_http_transfer_file_data id c = Some c' \<and> data = d @ data' \<and>
    length d = min (MG_MAX_HTTP_SEND_MBUF - length (fc_send c)) (length data) \<and>
    fc_send c' = fc_send c @ d \<and> progress data' keep c'"
proof (cases "data = []")
  case True
  then have "sent_all keep c" using assms by (simp add: progress_def)
  with True assms show ?thesis by (intro exI [of _ "[]"] exI [of _ c]) (simp add: transfer_done)
next
  case False
  then have "sending data keep c" using assms by (simp add: progress_def)
  from transfer_sending [OF this] show ?thesis unfolding progress_def by blast
qed

lemma progress_send: "progress data keep (c\<lparr>fc_send := s\<rparr>) = progress data keep c"
  by (simp add: progress_def sending_def sent_all_def)

lemma pump_progress:
  assumes "progress data keep c"
  shows "\<exists>d data' out' c'. file_pump ks out c = Some (out', c') \<and> data = d @ data' \<and>
    out' @ fc_send c' = out @ fc_send c @ d \<and> progress data' keep c' \<and>
    (length (fc_send c) \<le> m \<and> MG_MAX_HTTP_SEND_MBUF \<le> m \<and> (\<forall>k \<in> set ks. m \<le> k) \<longrightarrow> length data' = length data - MG_MAX_HTTP_SEND_MBUF * length ks)"
  using assms
proof (induction ks arbitrary: data out c)
  case Nil
  then show ?case by (intro exI [of _ "[]"] exI [of _ data] exI [of _ out] exI [of _ c]) simp
next
  case (Cons k ks)
  let ?c = "c\<lparr>fc_send := drop k (fc_send c)\<rparr>"
  obtain d data1 c1 where 1: "mg_http_transfer_file_data id ?c = Some c1" "data = d @ data1"
      "length d = min (MG_MAX_HTTP_SEND_MBUF - length (fc_send ?c)) (length data)" "fc_send c1 = fc_send ?c @ d" "progress data1 keep c1"
    using transfer_progress [of data keep ?c] Cons.prems progress_send by blast
  obtain d' data2 out' c' where 2: "file_pump ks (out @ take k (fc_send c)) c1 = Some (out', c')" "data1 = d' @ data2"
      "out' @ fc_send c' = (out @ take k (fc_send c)) @ fc_send c1 @ d'" "progress data2 keep c'"
      "length (fc_send c1) \<le> m \<and> MG_MAX_HTTP_SEND_MBUF \<le> m \<and> (\<forall>k \<in> set ks. m \<le> k) \<longrightarrow>
        length data2 = length data1 - MG_MAX_HTTP_SEND_MBUF * length ks"
    using Cons.IH [OF 1(5)] by blast
  have "length data2 = length data - MG_MAX_HTTP_SEND_MBUF * length (k # ks)"
    if "length (fc_send c) \<le> m" "MG_MAX_HTTP_SEND_MBUF \<le> m" "\<forall>k \<in> set (k # ks). m \<le> k"
  proof -
    have "fc_send ?c = []" using that(1,3) by simp
    then have d: "length d = min MG_MAX_HTTP_SEND_MBUF (length data)" "fc_send c1 = d" using 1(3,4) by simp_all
    then have "length data2 = length data1 - MG_MAX_HTTP_SEND_MBUF * length ks" using 2(5) that(2,3) by auto
    moreover have "length data1 = length data - MG_MAX_HTTP_SEND_MBUF" using 1(2) d(1) by simp
    ultimately show ?thesis by simp
  qed
  moreover have "file_pump (k # ks) out c = Some (out', c')" using 1(1) 2(1) by simp
  moreover have "data = (d @ d') @ data2" using 1(2) 2(2) by simp
  moreover have "out' @ fc_send c' = out @ fc_send c @ d @ d'" 
    using 2(3) 1(4) append_take_drop_id [of k "fc_send c"] by (simp del: append_take_drop_id)
  ultimately show ?case using 2(4) by (intro exI [of _ "d @ d'"] exI [of _ data2] exI [of _ out'] exI [of _ c']) blast
qed

text \<open>The head of a reply with a file.\<close>

definition file_head :: "int \<Rightarrow> bytes \<Rightarrow> bytes \<Rightarrow> bytes \<Rightarrow> bytes \<Rightarrow> bool \<Rightarrow> int \<Rightarrow> bytes \<Rightarrow> file_stat \<Rightarrow> bytes" where
  "file_head status_code extra_headers current_time last_modified mime_type keepalive cl rng st =
     mg_send_response_line_s status_code extra_headers @
     cstr ''Date: '' @ current_time @ crlf @ cstr ''Last-Modified: '' @ last_modified @ crlf @
     cstr ''Accept-Ranges: bytes'' @ crlf @ cstr ''Content-Type: '' @ c_string mime_type @ crlf @
     cstr ''Connection: '' @ (if keepalive then cstr ''keep-alive'' else cstr ''close'') @ crlf @
     cstr ''Content-Length: '' @ cstr (dec_nat (nat cl)) @ crlf @ rng @ cstr ''Etag: '' @ mg_http_construct_etag 50 st @ crlf @ crlf"

lemma file_sent:
  assumes "fs path = Inr (st, content)" "st_size st = int (length content)" "length content < 2 ^ 63"
    and "mg_gmt_time_string 50 now = Some current_time" "mg_gmt_time_string 50 (st_mtime st) = Some last_modified"
    and "fc_file c = mg_http_free_proto_data_file"
    and "serve_range (map_option (ref_str buf) (mg_get_http_header buf hm (cstr ''Range''))) (st_size st) = (status_code, cl, rng, pos)"
    and "keep = keep_alive (map_option (ref_str buf) (mg_get_http_header buf hm (cstr ''Connection''))) (opt_str buf (hm_proto hm))"
    and "reply = file_head status_code extra current_time last_modified mime keep cl rng st @ take (nat cl) (drop pos content)"
  shows "pos + nat cl \<le> length content \<and>
    (\<exists>c1. mg_http_serve_file fs now buf hm path mime extra c = Some c1 \<and>
      (\<forall>ks. \<exists>out c2 rest. file_pump ks [] c1 = Some (out, c2) \<and> out @ fc_send c2 @ rest = fc_send c @ reply \<and>
        (rest = [] \<longleftrightarrow> sent_all keep c2) \<and>
        ((\<forall>k \<in> set ks. length (fc_send c @ reply) + MG_MAX_HTTP_SEND_MBUF \<le> k) \<and> nat cl \<le> MG_MAX_HTTP_SEND_MBUF * length ks
          \<longrightarrow> sent_all keep c2)))"
proof -
  define slice where "slice = take (nat cl) (drop pos content)"
  have w: "0 \<le> cl" "int pos + cl \<le> int (length content)" using serve_range_within [OF assms(7)] assms(2) by simp_all
  then have len: "length slice = nat cl" "pos + nat cl \<le> length content" by (auto simp: slice_def)
  have cl64: "unat (word_of_int cl :: u64) = nat cl"
  proof -
    have "cl \<le> int (length content)" using w by linarith
    moreover have "int (length content) < 2 ^ 63" using assms(3) by simp
    ultimately have "cl < 2 ^ 64" by simp
    with w(1) show ?thesis by (simp add: unsigned_of_int take_bit_int_eq_self)
  qed
  define head where "head = file_head status_code extra current_time last_modified mime keep cl rng st"
  define c0 where "c0 = c\<lparr>fc_send := fc_send c @ head,
      fc_file := (fc_file c)\<lparr>fl_fp := Some (content, pos), fl_cl := cl, fl_keepalive := keep, fl_type := DATA_FILE\<rparr>\<rparr>"
  have serve: "mg_http_serve_file fs now buf hm path mime extra c = mg_http_transfer_file_data id c0"
    unfolding mg_http_serve_file_def assms(1) c0_def head_def file_head_def using assms(4,5,7,8) cl64 by (simp add: Let_def)
  have "sending slice keep c0"
  proof -
    have "drop pos content = slice @ drop (nat cl) (drop pos content)" unfolding slice_def by (rule append_take_drop_id [symmetric])
    then show ?thesis
      using w len(1) assms(3) by (auto simp: sending_def c0_def assms(6) mg_http_free_proto_data_file_def Let_def)
  qed
  from transfer_sending [OF this] obtain d data c1 where 1: "mg_http_transfer_file_data id c0 = Some c1" "slice = d @ data"
      "fc_send c1 = fc_send c @ head @ d" "progress data keep c1"
    unfolding progress_def by (auto simp: c0_def)
  have reply: "fc_send c @ reply = fc_send c1 @ data" by (simp add: assms(9) head_def [symmetric] slice_def [symmetric] 1(2,3))
  have "\<exists>out c2 rest. file_pump ks [] c1 = Some (out, c2) \<and> out @ fc_send c2 @ rest = fc_send c @ reply \<and>
        (rest = [] \<longleftrightarrow> sent_all keep c2) \<and>
        ((\<forall>k \<in> set ks. length (fc_send c @ reply) + MG_MAX_HTTP_SEND_MBUF \<le> k) \<and> nat cl \<le> MG_MAX_HTTP_SEND_MBUF * length ks
          \<longrightarrow> sent_all keep c2)" for ks
  proof -
    obtain d' data' out c2 where 2: "file_pump ks [] c1 = Some (out, c2)" "data = d' @ data'"
        "out @ fc_send c2 = [] @ fc_send c1 @ d'" "progress data' keep c2"
        "length (fc_send c1) \<le> length (fc_send c @ reply) + MG_MAX_HTTP_SEND_MBUF \<and>
          MG_MAX_HTTP_SEND_MBUF \<le> length (fc_send c @ reply) + MG_MAX_HTTP_SEND_MBUF \<and>
          (\<forall>k \<in> set ks. length (fc_send c @ reply) + MG_MAX_HTTP_SEND_MBUF \<le> k) \<longrightarrow>
          length data' = length data - MG_MAX_HTTP_SEND_MBUF * length ks"
      using pump_progress [OF 1(4), of ks "[]" "length (fc_send c @ reply) + MG_MAX_HTTP_SEND_MBUF"] by blast
    have "out @ fc_send c2 @ data' = fc_send c @ reply" unfolding reply 2(2) using 2(3) by (metis append.assoc append_Nil)
    moreover have fin: "data' = [] \<longleftrightarrow> sent_all keep c2"
      using 2(4) by (auto simp: progress_def sending_def sent_all_def mg_http_free_proto_data_file_def Let_def split: if_splits)
    moreover have "sent_all keep c2" if "\<forall>k \<in> set ks. length (fc_send c @ reply) + MG_MAX_HTTP_SEND_MBUF \<le> k"
        "nat cl \<le> MG_MAX_HTTP_SEND_MBUF * length ks"
    proof -
      have "length (fc_send c1) \<le> length (fc_send c @ reply) + MG_MAX_HTTP_SEND_MBUF" unfolding reply by simp
      with 2(5) that(1) have "length data' = length data - MG_MAX_HTTP_SEND_MBUF * length ks" by simp
      moreover have "length data \<le> nat cl" using len(1) 1(2) by simp
      ultimately show ?thesis using that(2) fin by simp
    qed
    ultimately show ?thesis using 2(1) by blast
  qed
  then show ?thesis using len(2) serve 1(1) by auto
qed

text \<open>C19: A file that can be opened is sent whole when the request has no Range header, one in another unit or one that counts from
the end; a request for bytes=a-b or bytes=a- gets exactly the bytes at the positions a to b or from a on with status 206 and their
Content-Range, or status 416 and no bytes when they are not all in the file (of less than 10^14 bytes, so that the line with the range
fits its buffer). The reply is its head, with the length of these bytes as Content-Length, then the bytes. However the network takes the
bytes and whenever the connection is polled, what has been sent and what is in the send buffer is the start of it, at the end all of it,
and then the file is closed and the connection too unless the request keeps it alive; polls that find the send buffer drained end it
after one for each 4096 bytes.\<close>

theorem file_served:
  assumes "fs path = Inr (st, content)" "st_size st = int (length content)" "length content < 10 ^ 14"
    and "mg_gmt_time_string 50 now = Some current_time" "mg_gmt_time_string 50 (st_mtime st) = Some last_modified"
    and "fc_file c = mg_http_free_proto_data_file"
    and "map_option (ref_str buf) (mg_get_http_header buf hm (cstr ''Range'')) = range_value asked" "asked_ok asked"
    and "served content asked = (status_code, rng, body)"
    and "keep = keeps (map_option (ref_str buf) (mg_get_http_header buf hm (cstr ''Connection''))) (opt_str buf (hm_proto hm))"
    and "reply = file_head status_code extra current_time last_modified mime keep (int (length body)) rng st @ body"
  shows "\<exists>c1. mg_http_serve_file fs now buf hm path mime extra c = Some c1 \<and>
      (\<forall>ks. \<exists>out c2 rest. file_pump ks [] c1 = Some (out, c2) \<and> out @ fc_send c2 @ rest = fc_send c @ reply \<and>
        (rest = [] \<longleftrightarrow> sent_all keep c2) \<and>
        ((\<forall>k \<in> set ks. length (fc_send c @ reply) + MG_MAX_HTTP_SEND_MBUF \<le> k) \<and> length body \<le> MG_MAX_HTTP_SEND_MBUF * length ks
          \<longrightarrow> sent_all keep c2))"
proof -
  obtain pos where pos: "serve_range (range_value asked) (int (length content)) = (status_code, int (length body), rng, pos)"
      "body = take (length body) (drop pos content)"
    using serve_range_served [OF assms(8,3,9)] by blast
  have "length content < 2 ^ 63" using assms(3) by simp
  from file_sent [of fs path st content now current_time last_modified c buf hm status_code "int (length body)" rng pos keep reply extra mime,
      OF assms(1,2) this assms(4,5,6)]
  show ?thesis using pos assms(2,7,10,11) keep_alive_keeps by simp
qed

definition demo_stat :: file_stat where "demo_stat = \<lparr>st_mtime = 0, st_size = 5\<rparr>"

definition idle_file_conn :: file_conn where
  "idle_file_conn = \<lparr>fc_recv = [], fc_send = [], fc_send_and_close = False, fc_file = mg_http_free_proto_data_file\<rparr>"

definition range_request :: bytes where
  "range_request = http_request (cstr ''GET'') (cstr ''/f'') (cstr ''HTTP/1.0'') [(cstr ''Range'', cstr ''bytes=1-3'')]"

lemma file_served_witness:
  "\<exists>hm head c1 out c2. mg_parse_http range_request True = Some (Message (length range_request) hm) \<and>
    mg_http_serve_file (\<lambda>_. Inr (demo_stat, cstr ''hello'')) 0 range_request hm (cstr ''/f'') (cstr ''text/plain'') [] idle_file_conn = Some c1 \<and>
    file_pump [8000] [] c1 = Some (out, c2) \<and> out @ fc_send c2 = head @ cstr ''ell'' \<and> sent_all False c2"
proof -
  have "case mg_parse_http range_request True of Some (Message n hm) \<Rightarrow> n = length range_request \<and>
      map_option (ref_str range_request) (mg_get_http_header range_request hm (cstr ''Range'')) = Some (cstr ''bytes=1-3'') \<and>
      mg_get_http_header range_request hm (cstr ''Connection'') = None \<and> opt_str range_request (hm_proto hm) = cstr ''HTTP/1.0'' | _ \<Rightarrow> False"
    by code_simp
  then obtain hm where hm: "mg_parse_http range_request True = Some (Message (length range_request) hm)"
      "map_option (ref_str range_request) (mg_get_http_header range_request hm (cstr ''Range'')) = Some (cstr ''bytes=1-3'')"
      "mg_get_http_header range_request hm (cstr ''Connection'') = None" "opt_str range_request (hm_proto hm) = cstr ''HTTP/1.0''"
    by (auto split: option.splits http_parse.splits)
  define date where "date = the (mg_gmt_time_string 50 0)"
  have d: "mg_gmt_time_string 50 0 = Some date" unfolding date_def by code_simp
  define rng where "rng = content_range (cstr ''1-3'') 5"
  have r: "served (cstr ''hello'') (Between 1 3) = (206, rng, cstr ''ell'')" unfolding rng_def by code_simp
  have v: "range_value (Between 1 3) = Some (cstr ''bytes=1-3'')" by code_simp
  have len: "length (file_head 206 [] date date (cstr ''text/plain'') False (int (length (cstr ''ell''))) rng demo_stat) \<le> 3000"
    unfolding date_def rng_def by code_simp
  let ?head = "file_head 206 [] date date (cstr ''text/plain'') False (int (length (cstr ''ell''))) rng demo_stat"
  let ?fs = "\<lambda>_ :: bytes. Inr (demo_stat, cstr ''hello'') :: errno \<times> bool + file_stat \<times> bytes"
  have p: "?fs (cstr ''/f'') = Inr (demo_stat, cstr ''hello'')"
    "st_size demo_stat = int (length (cstr ''hello''))" "length (cstr ''hello'') < 10 ^ 14" "mg_gmt_time_string 50 (st_mtime demo_stat) = Some date"
    "fc_file idle_file_conn = mg_http_free_proto_data_file"
    "map_option (ref_str range_request) (mg_get_http_header range_request hm (cstr ''Range'')) = range_value (Between 1 3)"
    "asked_ok (Between 1 3)"
    "False = keeps (map_option (ref_str range_request) (mg_get_http_header range_request hm (cstr ''Connection''))) (opt_str range_request (hm_proto hm))"
    unfolding hm(2,3,4) v using d by (simp_all add: demo_stat_def idle_file_conn_def keeps_def)
  obtain c1 where c1: "mg_http_serve_file (\<lambda>_. Inr (demo_stat, cstr ''hello'')) 0 range_request hm (cstr ''/f'') (cstr ''text/plain'') [] idle_file_conn = Some c1"
      "\<exists>out c2 rest. file_pump [8000] [] c1 = Some (out, c2) \<and>
        out @ fc_send c2 @ rest = fc_send idle_file_conn @ ?head @ cstr ''ell'' \<and>
        (rest = [] \<longleftrightarrow> sent_all False c2) \<and>
        ((\<forall>k \<in> set [8000]. length (fc_send idle_file_conn @ ?head @ cstr ''ell'') + MG_MAX_HTTP_SEND_MBUF \<le> k) \<and>
          length (cstr ''ell'') \<le> MG_MAX_HTTP_SEND_MBUF * length [8000 :: nat] \<longrightarrow> sent_all False c2)"
    using file_served [where fs = ?fs and path = "cstr ''/f''" and now = 0 and mime = "cstr ''text/plain''" and extra = "[]",
        OF p(1,2,3) d p(4,5,6,7) r p(8) refl] by blast
  have "length (fc_send idle_file_conn @ ?head @ cstr ''ell'') + MG_MAX_HTTP_SEND_MBUF \<le> 8000"
    using len by (simp add: idle_file_conn_def MG_MAX_HTTP_SEND_MBUF_def del: cstr_Cons)
  moreover have "length (cstr ''ell'') \<le> MG_MAX_HTTP_SEND_MBUF * length [8000 :: nat]" by (simp add: MG_MAX_HTTP_SEND_MBUF_def)
  ultimately obtain out c2 where "file_pump [8000] [] c1 = Some (out, c2)" "sent_all False c2"
      "out @ fc_send c2 = fc_send idle_file_conn @ ?head @ cstr ''ell''"
    using c1(2) by auto
  moreover have "fc_send idle_file_conn @ ?head @ cstr ''ell'' = ?head @ cstr ''ell''"
    by (simp add: idle_file_conn_def)
  ultimately show ?thesis using hm(1) c1(1) by metis
qed
end
