(* ===== verification/MgHandshake.thy ===== *)
theory MgHandshake
  imports MgWebsocket MgHttp MgHttpCoding MgSha1
begin

text \<open>
  The WebSocket handshake (mongoose/src/mg_http_websocket.c and mg_http.c of 3rdLib/mongoose/mongoose.c): the request of a
  client, the reply of a server, and the switch of a connection from HTTP to WebSocket. The random nonce is a parameter,
  as are the user's handlers, which do not touch the receive buffer while the connection is switched.
\<close>

subsection \<open>Requests and replies\<close>

definition ws_magic :: bytes where "ws_magic = cstr ''258EAFA5-E914-47DA-95CA-C5AB0DC85B11''"

text \<open>\<open>buf\<close> is the memory the message's strings point into; what is appended to the send buffer.\<close>

definition mg_ws_handshake :: "bytes \<Rightarrow> bytes \<Rightarrow> http_message \<Rightarrow> bytes \<Rightarrow> bytes option" where
  "mg_ws_handshake junk buf hm key = do {
     sha \<leftarrow> mg_hash_sha1_v junk [key, ws_magic];
     let b64_sha = butlast (cs_base64_encode sha);
     let proto = (case mg_get_http_header buf hm (cstr ''Sec-WebSocket-Protocol'') of
           None \<Rightarrow> []
         | Some s \<Rightarrow> cstr ''Sec-WebSocket-Protocol: '' @ c_string (ref_str buf s) @ crlf);
     Some (cstr ''HTTP/1.1 101 Switching Protocols'' @ crlf @ cstr ''Upgrade: websocket'' @ crlf @ cstr ''Connection: Upgrade'' @ crlf @
       proto @ cstr ''Sec-WebSocket-Accept: '' @ b64_sha @ crlf @ crlf) }"

text \<open>
  The request: \<open>nonce\<close> are the 16 random bytes. The host is printed up to the start of the path, with which it is thought to
  share a string: \<open>host_len\<close> is the difference of the two pointers and \<open>host_mem\<close> the memory from the host on.
\<close>

definition fmt_prec :: "int \<Rightarrow> bytes \<Rightarrow> bytes" where
  "fmt_prec n s = (if n < 0 then c_string s else take (nat n) (c_string s))"

definition mg_send_websocket_handshake3v ::
    "bytes \<Rightarrow> bytes \<Rightarrow> bytes \<Rightarrow> bytes \<Rightarrow> bytes \<Rightarrow> int \<Rightarrow> bytes \<Rightarrow> bytes \<Rightarrow> bytes \<Rightarrow> bytes \<Rightarrow> bytes" where
  "mg_send_websocket_handshake3v junk nonce path host host_mem host_len protocol extra_headers user pass =
     (let key = butlast (cs_base64_encode nonce);
          auth = (if length user > 0 then mg_basic_auth_header junk user pass [] else [])
      in cstr ''GET '' @ c_string path @ cstr '' HTTP/1.1'' @ crlf @ cstr ''Upgrade: websocket'' @ crlf @ cstr ''Connection: Upgrade'' @ crlf @
         c_string auth @ cstr ''Sec-WebSocket-Version: 13'' @ crlf @ cstr ''Sec-WebSocket-Key: '' @ key @ crlf @
         (if length host > 0 then cstr ''Host: '' @ fmt_prec host_len host_mem @ crlf else []) @
         (if length protocol > 0 then cstr ''Sec-WebSocket-Protocol: '' @ c_string protocol @ crlf else []) @
         c_string extra_headers @ crlf)"

definition mg_send_websocket_handshake :: "bytes \<Rightarrow> bytes \<Rightarrow> bytes \<Rightarrow> bytes \<Rightarrow> bytes" where
  "mg_send_websocket_handshake junk nonce path extra_headers =
     mg_send_websocket_handshake3v junk nonce path [] [] 0 [] extra_headers [] []"

subsection \<open>The switch\<close>

datatype ws_event = MG_EV_POLL int | MG_EV_RECV | MG_EV_WEBSOCKET_HANDSHAKE_REQUEST | MG_EV_WEBSOCKET_HANDSHAKE_DONE

record 'h ws_up =
  up_nc :: ws_conn
  up_close_immediately :: bool
  up_is_websocket :: bool
  up_ws_handler :: bool
  up_last_io_time :: int
  up_handler :: 'h

definition MG_WEBSOCKET_PING_INTERVAL_SECONDS :: int where "MG_WEBSOCKET_PING_INTERVAL_SECONDS = 5"

text \<open>The event handler of a WebSocket connection: the user's handler, then the frames that have come, or a ping.\<close>

definition mg_ws_handler ::
    "('h \<Rightarrow> ws_event \<Rightarrow> ('h, 'z) ws_up_scheme \<Rightarrow> ('h, 'z) ws_up_scheme) \<Rightarrow> ('h \<Rightarrow> ws_handler) \<Rightarrow> (nat \<Rightarrow> bytes) \<Rightarrow> ws_event \<Rightarrow> ('h, 'z) ws_up_scheme \<Rightarrow> ('h, 'z) ws_up_scheme option" where
  "mg_ws_handler call frames rnds ev c =
     (let c = call (up_handler c) ev c in
      case ev of
        MG_EV_RECV \<Rightarrow> map_option (\<lambda>nc. c\<lparr>up_nc := nc\<rparr>) (ws_recv_loop (frames (up_handler c)) rnds 0 (up_nc c))
      | MG_EV_POLL now \<Rightarrow> Some (if up_is_websocket c \<and> now > up_last_io_time c + MG_WEBSOCKET_PING_INTERVAL_SECONDS then
            c\<lparr>up_nc := mg_send_websocket_frame (rnds 0) (ucast WEBSOCKET_OP_PING) [] (up_nc c)\<rparr> else c)
      | _ \<Rightarrow> Some c)"

text \<open>
  What the HTTP handler does with a whole message that starts or answers a handshake; \<open>None\<close> inside when the message is
  neither. The request is removed from the receive buffer before its header is used: the strings then point into
  \<open>mem\<close>, the buffer's memory after the move.
\<close>

definition up_switch :: "nat \<Rightarrow> ('h, 'z) ws_up_scheme \<Rightarrow> ('h, 'z) ws_up_scheme" where
  "up_switch req_len c = c\<lparr>up_nc := (up_nc c)\<lparr>ws_recv := drop req_len (ws_recv (up_nc c))\<rparr>, up_ws_handler := True,
     up_is_websocket := True\<rparr>"

definition mg_http_ws_upgrade ::
    "('h \<Rightarrow> ws_event \<Rightarrow> ('h, 'z) ws_up_scheme \<Rightarrow> ('h, 'z) ws_up_scheme) \<Rightarrow> ('h \<Rightarrow> ws_handler) \<Rightarrow> (nat \<Rightarrow> bytes) \<Rightarrow> bytes \<Rightarrow> (bytes \<times> 'h) list \<Rightarrow>
      http_message \<Rightarrow> nat \<Rightarrow> ('h, 'z) ws_up_scheme \<Rightarrow> ('h, 'z) ws_up_scheme option option" where
  "mg_http_ws_upgrade call frames rnds junk eps hm req_len c =
     (let io = ws_recv (up_nc c); vec = mg_get_http_header io hm (cstr ''Sec-WebSocket-Key'') in
      if \<not> ws_listener (up_nc c) \<and> mg_get_http_header io hm (cstr ''Sec-WebSocket-Accept'') \<noteq> None then
        (let c = up_switch req_len c; c = call (up_handler c) MG_EV_WEBSOCKET_HANDSHAKE_DONE c
         in map_option Some (mg_ws_handler call frames rnds MG_EV_RECV c))
      else if ws_listener (up_nc c) \<and> vec \<noteq> None then
        (let c = up_switch req_len c;
             mem = blit io 0 (drop req_len io);
             c = (case mg_http_get_endpoint_handler (Some eps) (opt_str mem (hm_uri hm)) of
                    None \<Rightarrow> c | Some h \<Rightarrow> c\<lparr>up_handler := h\<rparr>);
             c = call (up_handler c) MG_EV_WEBSOCKET_HANDSHAKE_REQUEST c
         in if \<not> (up_close_immediately c \<or> ws_send_and_close (up_nc c)) then do {
              c \<leftarrow> (if ws_send (up_nc c) = [] then do {
                     reply \<leftarrow> mg_ws_handshake junk mem hm (ref_str mem (the vec));
                     Some (c\<lparr>up_nc := (up_nc c)\<lparr>ws_send := reply\<rparr>\<rparr>) }
                   else Some c);
              let c = call (up_handler c) MG_EV_WEBSOCKET_HANDSHAKE_DONE c;
              map_option Some (mg_ws_handler call frames rnds MG_EV_RECV c) }
            else Some (Some c))
      else Some None)"

subsection \<open>What is sent\<close>

text \<open>The accept value as RFC 6455 has it.\<close>

definition ws_accept :: "bytes \<Rightarrow> bytes" where
  "ws_accept key = base64_pad (base64_encode_body (sha1 (key @ ws_magic)))"

definition upgrade_headers :: "(bytes \<times> bytes) list" where
  "upgrade_headers = [(cstr ''Upgrade'', cstr ''websocket''), (cstr ''Connection'', cstr ''Upgrade'')]"

definition opt_header :: "string \<Rightarrow> bytes \<Rightarrow> (bytes \<times> bytes) list" where
  "opt_header k v = (if v = [] then [] else [(cstr k, v)])"

definition ws_request_headers :: "bytes \<Rightarrow> bytes \<Rightarrow> bytes \<Rightarrow> bytes \<Rightarrow> (bytes \<times> bytes) list \<Rightarrow> (bytes \<times> bytes) list" where
  "ws_request_headers auth key host protocol extra = upgrade_headers @ opt_header ''Authorization'' auth @
     [(cstr ''Sec-WebSocket-Version'', cstr ''13''), (cstr ''Sec-WebSocket-Key'', key)] @ opt_header ''Host'' host @
     opt_header ''Sec-WebSocket-Protocol'' protocol @ extra"

definition ws_reply :: "bytes \<Rightarrow> bytes option \<Rightarrow> bytes" where
  "ws_reply key protocol = http_reply (cstr ''HTTP/1.1'') 101 (cstr ''Switching Protocols'')
     (upgrade_headers @ (case protocol of None \<Rightarrow> [] | Some p \<Rightarrow> [(cstr ''Sec-WebSocket-Protocol'', p)]) @
      [(cstr ''Sec-WebSocket-Accept'', ws_accept key)])"

lemma mg_ws_handshake_reply:
  assumes "length junk = 64" "length key < 2 ^ 32 - 64"
  shows "mg_ws_handshake junk buf hm key =
    Some (ws_reply key (map_option (\<lambda>s. c_string (ref_str buf s)) (mg_get_http_header buf hm (cstr ''Sec-WebSocket-Protocol''))))"
proof -
  have "mg_hash_sha1_v junk [key, ws_magic] = Some (sha1 (key @ ws_magic))"
    using mg_hash_sha1_v_sha1 [of junk "[key, ws_magic]"] assms by (simp add: ws_magic_def)
  moreover have "code_bytes 101 = [49, 48, 49]" by (simp add: code_bytes_def digit_byte_def)
  ultimately show ?thesis
    by (simp add: mg_ws_handshake_def cs_base64_encode_def ws_reply_def ws_accept_def http_reply_def header_lines_def
      upgrade_headers_def crlf_def split: option.split)
qed

lemma b64_char: "n < 64 \<Longrightarrow> isprint (b64_alphabet ! n) \<and> b64_alphabet ! n \<noteq> 32 \<and> b64_alphabet ! n \<noteq> 58"
proof -
  have "list_all (\<lambda>c. isprint c \<and> c \<noteq> 32 \<and> c \<noteq> 58) b64_alphabet" "length b64_alphabet = 64" by code_simp+
  then show "n < 64 \<Longrightarrow> isprint (b64_alphabet ! n) \<and> b64_alphabet ! n \<noteq> 32 \<and> b64_alphabet ! n \<noteq> 58"
    unfolding list_all_length by simp
qed

lemmas b64_sextet = sextets [THEN b64_char]

lemma b64_text:
  "c \<in> set (base64_pad (base64_encode_body s)) \<Longrightarrow> isprint c \<and> c \<noteq> 32 \<and> c \<noteq> 58"
proof -
  have "isprint c \<and> c \<noteq> 32 \<and> c \<noteq> 58" if "c \<in> set (base64_encode_body s)" for c
    using that
  proof (induction s rule: triple_induct)
    case (three a b d s)
    then show ?case using b64_sextet by auto
  qed (use b64_sextet in auto)
  then show "c \<in> set (base64_pad (base64_encode_body s)) \<Longrightarrow> isprint c \<and> c \<noteq> 32 \<and> c \<noteq> 58"
    by (auto simp: base64_pad_def isprint_def)
qed

lemma b64_nonempty: "s \<noteq> [] \<Longrightarrow> base64_pad (base64_encode_body s) \<noteq> []"
  by (subst base64_encode_body.simps) (simp add: base64_pad_def Let_def)

lemma good_b64: "s \<noteq> [] \<Longrightarrow> http_token k \<Longrightarrow> 58 \<notin> set k \<Longrightarrow> good_header (k, base64_pad (base64_encode_body s))"
  using b64_text [of _ s] b64_nonempty [of s] hd_in_set [of "base64_pad (base64_encode_body s)"]
    last_in_set [of "base64_pad (base64_encode_body s)"]
  by (auto simp: good_header_def)


text \<open>The credentials of the request.\<close>

definition auth_value :: "bytes \<Rightarrow> bytes \<Rightarrow> bytes" where
  "auth_value user pass = (if user = [] then [] else
     cstr ''Basic '' @ base64_pad (base64_encode_body (user @ (if pass = [] then [] else 58 # pass))))"

definition extra_lines :: "(bytes \<times> bytes) list \<Rightarrow> bytes" where
  "extra_lines extra = concat (map (\<lambda>(k, v). k @ [58, 32] @ v @ [13, 10]) extra)"

lemma c_string_id: "0 \<notin> set b \<Longrightarrow> c_string b = b"
  by (auto simp: c_string_def takeWhile_eq_all_conv)

lemma basic_auth_text:
  assumes "length junk = 3" "user \<noteq> []"
  shows "mg_basic_auth_header junk user pass [] = cstr ''Authorization: '' @ auth_value user pass @ [13, 10]"
  using assms(2) b64_out_update [OF assms(1)] by (simp add: mg_basic_auth_header_def auth_value_def cs_base64_update_append Let_def)

lemma good_header_zero: "good_header h \<Longrightarrow> 0 \<notin> set (fst h) \<and> 0 \<notin> set (snd h)"
  by (auto simp: good_header_def http_token_def isprint_def)

lemma auth_value_good: "user \<noteq> [] \<Longrightarrow> good_header (cstr ''Authorization'', auth_value user pass)"
  using good_b64 [of "user @ (if pass = [] then [] else 58 # pass)" "[65]"]
  by (auto simp: auth_value_def good_header_def http_token_def isprint_def)

definition opt_good :: "string \<Rightarrow> bytes \<Rightarrow> bool" where
  "opt_good k v \<longleftrightarrow> v = [] \<or> good_header (cstr k, v)"

lemma handshake_request:
  assumes "length junk = 3" "0 \<notin> set path" "0 \<notin> set protocol" "\<forall>h \<in> set extra. good_header h"
    and "host = [] \<longleftrightarrow> hostname = []" "fmt_prec host_len host_mem = hostname"
  shows "mg_send_websocket_handshake3v junk nonce path host host_mem host_len protocol (extra_lines extra) user pass =
    http_request (cstr ''GET'') path (cstr ''HTTP/1.1'')
      (ws_request_headers (auth_value user pass) (base64_pad (base64_encode_body nonce)) hostname protocol extra)"
proof -
  have x: "0 \<notin> set (extra_lines extra)" using assms(4) good_header_zero by (fastforce simp: extra_lines_def)
  have av: "user \<noteq> [] \<Longrightarrow> 0 \<notin> set (mg_basic_auth_header junk user pass [])"
    using good_header_zero [OF auth_value_good, of user pass] by (simp add: basic_auth_text [OF assms(1)])
  have a: "(if length user > 0 then mg_basic_auth_header junk user pass [] else []) =
      extra_lines (opt_header ''Authorization'' (auth_value user pass))" (is "?a = _")
    using basic_auth_text [OF assms(1), of user pass]
    by (cases "user = []") (simp_all add: extra_lines_def opt_header_def auth_value_def)
  have ca: "c_string ?a = ?a" using av by (cases "user = []") (simp_all add: c_string_id)
  have hl: "header_lines (hs @ extra) = extra_lines hs @ extra_lines extra @ [13, 10]" for hs
    by (simp add: header_lines_def extra_lines_def)
  have hl: "header_lines (ws_request_headers (auth_value user pass) (base64_pad (base64_encode_body nonce)) hostname protocol extra) =
      extra_lines upgrade_headers @ ?a @ extra_lines [(cstr ''Sec-WebSocket-Version'', cstr ''13''),
        (cstr ''Sec-WebSocket-Key'', base64_pad (base64_encode_body nonce))] @
      extra_lines (opt_header ''Host'' hostname) @ extra_lines (opt_header ''Sec-WebSocket-Protocol'' protocol) @
      extra_lines extra @ [13, 10]"
    unfolding a by (simp add: ws_request_headers_def header_lines_def extra_lines_def)
  show ?thesis
    unfolding http_request_def hl mg_send_websocket_handshake3v_def Let_def ca c_string_id [OF x] c_string_id [OF assms(2)] c_string_id [OF assms(3)] assms(6)
    using assms(5) by (cases "hostname = []"; cases "protocol = []")
      (simp_all add: cs_base64_encode_def extra_lines_def upgrade_headers_def opt_header_def crlf_def)
qed

lemma length_base64: "length (base64_pad (base64_encode_body s)) = 4 * ((length s + 2) div 3)"
proof (induction s rule: triple_induct)
  case (three a b c s)
  have "(length s + 3 + 2) div 3 = Suc ((length s + 2) div 3)" by simp
  with three show ?case by simp
qed simp_all

lemma sha1_nonempty: "sha1 m \<noteq> []"
  by (simp add: sha1_def be32_bytes_def split: prod.split)

subsection \<open>Both sides\<close>

lemma opt_good_header: "opt_good k v \<Longrightarrow> \<forall>h \<in> set (opt_header k v). good_header h"
  by (auto simp: opt_good_def opt_header_def)

lemma find_in_set: "find P xs = Some x \<Longrightarrow> x \<in> set xs"
  by (auto simp: find_Some_iff)

lemma literal_headers:
  "\<forall>h \<in> set upgrade_headers. good_header h" "good_header (cstr ''Sec-WebSocket-Version'', cstr ''13'')"
  by (simp_all add: upgrade_headers_def good_header_def http_token_def isprint_def)

lemma b64_header:
  assumes "s \<noteq> []"
  shows "good_header (cstr ''Sec-WebSocket-Key'', base64_pad (base64_encode_body s))"
    "good_header (cstr ''Sec-WebSocket-Accept'', base64_pad (base64_encode_body s))"
  by (rule good_b64 [OF assms]; simp add: http_token_def isprint_def)+

lemma length_opt_header: "length (opt_header k v) \<le> 1"
  by (simp add: opt_header_def)

lemma request_headers_good:
  assumes "nonce \<noteq> []" "opt_good ''Host'' host" "opt_good ''Sec-WebSocket-Protocol'' protocol" "\<forall>h \<in> set extra. good_header h"
  shows "\<forall>h \<in> set (ws_request_headers (auth_value user pass) (base64_pad (base64_encode_body nonce)) host protocol extra). good_header h"
proof -
  have "opt_good ''Authorization'' (auth_value user pass)"
    using auth_value_good by (cases "user = []") (simp_all add: opt_good_def auth_value_def)
  from opt_good_header [OF this] opt_good_header [OF assms(2)] opt_good_header [OF assms(3)] literal_headers b64_header(1) [OF assms(1)] assms(4)
  show ?thesis unfolding ws_request_headers_def by (simp only: set_append list.set Un_iff insert_iff ball_Un ball_simps)
qed

lemma request_headers_find:
  "find (\<lambda>h. same_name (fst h) (cstr ''Sec-WebSocket-Key'')) (ws_request_headers auth key host protocol extra) =
     Some (cstr ''Sec-WebSocket-Key'', key)"
  "\<forall>h \<in> set extra. \<not> same_name (fst h) (cstr ''Sec-WebSocket-Protocol'') \<Longrightarrow>
   find (\<lambda>h. same_name (fst h) (cstr ''Sec-WebSocket-Protocol'')) (ws_request_headers auth key host protocol extra) =
     (if protocol = [] then None else Some (cstr ''Sec-WebSocket-Protocol'', protocol))"
proof -
  show "find (\<lambda>h. same_name (fst h) (cstr ''Sec-WebSocket-Key'')) (ws_request_headers auth key host protocol extra) =
     Some (cstr ''Sec-WebSocket-Key'', key)"
    by (simp add: ws_request_headers_def upgrade_headers_def opt_header_def same_name_def tolower_def)
  let ?P = "\<lambda>h. same_name (fst h) (cstr ''Sec-WebSocket-Protocol'')"
  assume "\<forall>h \<in> set extra. \<not> ?P h"
  then have "find ?P extra = None" unfolding find_None_iff by blast
  then show "find ?P (ws_request_headers auth key host protocol extra) =
     (if protocol = [] then None else Some (cstr ''Sec-WebSocket-Protocol'', protocol))"
    by (simp add: ws_request_headers_def upgrade_headers_def opt_header_def same_name_def tolower_def)
qed

lemma reply_headers_find:
  "find (\<lambda>h. same_name (fst h) (cstr ''Sec-WebSocket-Accept'')) (upgrade_headers @
     (case protocol of None \<Rightarrow> [] | Some p \<Rightarrow> [(cstr ''Sec-WebSocket-Protocol'', p)]) @ [(cstr ''Sec-WebSocket-Accept'', a)]) =
   Some (cstr ''Sec-WebSocket-Accept'', a)"
  by (simp add: upgrade_headers_def same_name_def tolower_def split: option.split)

lemma ws_recv_loop_idle: "ws_recv nc = [] \<Longrightarrow> ws_reass_len nc = 0 \<Longrightarrow> ws_recv_loop h rnds k nc = Some nc"
  by (subst ws_recv_loop.simps) (simp add: mg_deliver_websocket_data_def ws_lengths_def Let_def)

text \<open>A user's handler that leaves the connection alone.\<close>

definition quiet :: "'h \<Rightarrow> ws_event \<Rightarrow> 'h ws_up \<Rightarrow> 'h ws_up" where "quiet h ev c = c"

definition ws_open :: "'h ws_up \<Rightarrow> ws_conn \<Rightarrow> bool" where
  "ws_open c nc \<longleftrightarrow> up_is_websocket c \<and> up_ws_handler c \<and> up_nc c = nc"

definition ws_waiting :: "bool \<Rightarrow> bytes \<Rightarrow> 'h ws_up \<Rightarrow> bool" where
  "ws_waiting listener buf c \<longleftrightarrow> ws_listener (up_nc c) = listener \<and> ws_recv (up_nc c) = buf \<and> ws_send (up_nc c) = [] \<and>
     ws_reass_len (up_nc c) = 0 \<and> \<not> up_close_immediately c \<and> \<not> ws_send_and_close (up_nc c)"

lemma header_value:
  assumes "mg_parse_http buf b = Some (Message n hm)" "map (ref_pair buf) (hm_headers hm) = hdrs" "\<forall>h \<in> set hdrs. good_header h" "0 \<notin> set name"
  shows "map_option (ref_str buf) (mg_get_http_header buf hm name) = map_option snd (find (\<lambda>h. same_name (fst h) name) hdrs)"
proof -
  have "message_in (length buf) hm"
    using parse_http_in [OF assms(1)] unfolding message_in_def ref_in_def by (meson le_trans)
  then show ?thesis using header_lookup [of buf hm name hdrs] assms(2,3,4) good_header_zero by blast
qed

lemma c_string_option:
  "map_option f x = y \<Longrightarrow> (\<And>p. y = Some p \<Longrightarrow> 0 \<notin> set p) \<Longrightarrow> map_option (\<lambda>s. c_string (f s)) x = y"
  by (cases x) (auto simp: c_string_id)

lemma ws_server_upgrade:
  assumes parse: "mg_parse_http request True = Some (Message (length request) hm)" "map (ref_pair request) (hm_headers hm) = hdrs"
    and "\<forall>h \<in> set hdrs. good_header h"
    and "find (\<lambda>h. same_name (fst h) (cstr ''Sec-WebSocket-Key'')) hdrs = Some (k, key)" "length key < 2 ^ 32 - 64" "length junk = 64"
    and s: "ws_waiting True request s"
  shows "\<exists>s'. mg_http_ws_upgrade quiet frames rnds junk eps hm (length request) s = Some (Some s') \<and>
    ws_open s' ((up_nc s)\<lparr>ws_recv := [], ws_send := ws_reply key
      (map_option snd (find (\<lambda>h. same_name (fst h) (cstr ''Sec-WebSocket-Protocol'')) hdrs))\<rparr>)"
proof -
  obtain vec where vec: "mg_get_http_header request hm (cstr ''Sec-WebSocket-Key'') = Some vec" "ref_str request vec = key"
    using header_value [OF parse assms(3), of "cstr ''Sec-WebSocket-Key''"] assms(4) by auto
  have "map_option (ref_str request) (mg_get_http_header request hm (cstr ''Sec-WebSocket-Protocol'')) =
      map_option snd (find (\<lambda>h. same_name (fst h) (cstr ''Sec-WebSocket-Protocol'')) hdrs)" (is "?a = ?p")
    using header_value [OF parse assms(3), of "cstr ''Sec-WebSocket-Protocol''"] by simp
  moreover have "0 \<notin> set p" if "?p = Some p" for p
    using that assms(3) good_header_zero find_in_set by fastforce
  ultimately have p: "map_option (\<lambda>s. c_string (ref_str request s)) (mg_get_http_header request hm (cstr ''Sec-WebSocket-Protocol'')) = ?p"
    by (rule c_string_option)
  have "mg_ws_handshake junk request hm key = Some (ws_reply key ?p)"
    using mg_ws_handshake_reply [OF assms(6,5), of request hm] unfolding p .
  then show ?thesis
    using s vec
    by (simp add: mg_http_ws_upgrade_def Let_def quiet_def up_switch_def blit_def mg_ws_handler_def ws_waiting_def ws_recv_loop_idle
        ws_open_def del: cstr_Cons split: option.split)
qed

lemma ws_client_upgrade:
  assumes "good_header (cstr ''Sec-WebSocket-Accept'', ws_accept key)"
    and "\<And>p. protocol = Some p \<Longrightarrow> good_header (cstr ''Sec-WebSocket-Protocol'', p)" "ws_waiting False (ws_reply key protocol) c"
  shows "\<exists>hm c'. mg_parse_http (ws_reply key protocol) False = Some (Message (length (ws_reply key protocol)) hm) \<and>
    says_status (ws_reply key protocol) hm (cstr ''HTTP/1.1'') 101 (cstr ''Switching Protocols'') \<and>
    map_option (ref_str (ws_reply key protocol)) (mg_get_http_header (ws_reply key protocol) hm (cstr ''Sec-WebSocket-Accept'')) = Some (ws_accept key) \<and>
    mg_http_ws_upgrade quiet frames rnds junk eps hm (length (ws_reply key protocol)) c = Some (Some c') \<and>
    ws_open c' ((up_nc c)\<lparr>ws_recv := []\<rparr>)"
proof -
  let ?r = "ws_reply key protocol"
  let ?h = "upgrade_headers @ (case protocol of None \<Rightarrow> [] | Some p \<Rightarrow> [(cstr ''Sec-WebSocket-Protocol'', p)]) @
      [(cstr ''Sec-WebSocket-Accept'', ws_accept key)]"
  have "\<forall>h \<in> set (case protocol of None \<Rightarrow> [] | Some p \<Rightarrow> [(cstr ''Sec-WebSocket-Protocol'', p)]). good_header h"
    using assms(2) by (cases protocol) (simp_all del: cstr_Cons)
  with literal_headers(1) assms(1) have g: "\<forall>h \<in> set ?h. good_header h"
    by (simp only: set_append list.set Un_iff insert_iff ball_Un ball_simps)
  have l: "length ?h \<le> 39" by (simp add: upgrade_headers_def split: option.split)
  have "http_token (cstr ''HTTP/1.1'')" "\<forall>c \<in> set (cstr ''Switching Protocols''). isprint c" "cstr ''Switching Protocols'' \<noteq> []"
    by (simp_all add: http_token_def isprint_def)
  then obtain hm where hm: "mg_parse_http ?r False = Some (Message (length ?r) hm)"
      "says_status ?r hm (cstr ''HTTP/1.1'') 101 (cstr ''Switching Protocols'')" "map (ref_pair ?r) (hm_headers hm) = ?h"
    using mg_parse_http_reads_reply [of "cstr ''HTTP/1.1''" 101 "cstr ''Switching Protocols''" ?h ?r "[]"] g l
    by (auto simp: ws_reply_def simp del: cstr_Cons)
  have v: "map_option (ref_str ?r) (mg_get_http_header ?r hm (cstr ''Sec-WebSocket-Accept'')) = Some (ws_accept key)"
    using header_value [OF hm(1,3) g, of "cstr ''Sec-WebSocket-Accept''"] by (simp add: reply_headers_find [simplified])
  then have "mg_get_http_header ?r hm (cstr ''Sec-WebSocket-Accept'') \<noteq> None" by auto
  then have "\<exists>c'. mg_http_ws_upgrade quiet frames rnds junk eps hm (length ?r) c = Some (Some c') \<and> ws_open c' ((up_nc c)\<lparr>ws_recv := []\<rparr>)"
    using assms(3)
    by (simp add: mg_http_ws_upgrade_def Let_def quiet_def up_switch_def mg_ws_handler_def ws_waiting_def ws_recv_loop_idle
        ws_open_def del: cstr_Cons)
  then show ?thesis using hm(1,2) v by blast
qed

text \<open>C8: The opening handshake, from one side to the other and back: what \<open>mg_send_websocket_handshake3v\<close> sends (with or without
credentials, host, protocol and more headers) is parsed by the server, which answers 101 with the protocol asked for and, as the accept
value, the Base64 form of the SHA-1 digest of the key and the fixed identifier of RFC 6455, and switches to WebSocket; the client
parses this answer, finds that value in it, and switches too. Nothing is left in either receive buffer.\<close>

theorem ws_handshake_completes:
  assumes "length junk3 = 3" "length junk = 64" "length nonce = 16" "http_token path"
    and "\<forall>h \<in> set extra. good_header h \<and> \<not> same_name (fst h) (cstr ''Sec-WebSocket-Protocol'')" "length extra \<le> 32"
    and "host = [] \<longleftrightarrow> hostname = []" "fmt_prec host_len host_mem = hostname" "opt_good ''Host'' hostname"
    and "opt_good ''Sec-WebSocket-Protocol'' protocol" "key = base64_pad (base64_encode_body nonce)"
    and "request = mg_send_websocket_handshake3v junk3 nonce path host host_mem host_len protocol (extra_lines extra) user pass"
    and "reply = ws_reply key (if protocol = [] then None else Some protocol)"
    and "ws_waiting True request s" "ws_waiting False reply c"
  shows "\<exists>hm s' hm' c'. mg_parse_http request True = Some (Message (length request) hm) \<and>
    says_line request hm (cstr ''GET'') path (cstr ''HTTP/1.1'') \<and>
    mg_http_ws_upgrade quiet frames rnds junk eps hm (length request) s = Some (Some s') \<and>
    ws_open s' ((up_nc s)\<lparr>ws_recv := [], ws_send := reply\<rparr>) \<and>
    mg_parse_http reply False = Some (Message (length reply) hm') \<and>
    map_option (ref_str reply) (mg_get_http_header reply hm' (cstr ''Sec-WebSocket-Accept'')) =
      Some (base64_pad (base64_encode_body (sha1 (key @ ws_magic)))) \<and>
    mg_http_ws_upgrade quiet frames rnds junk eps hm' (length reply) c = Some (Some c') \<and> ws_open c' ((up_nc c)\<lparr>ws_recv := []\<rparr>)"
proof -
  let ?h = "ws_request_headers (auth_value user pass) key hostname protocol extra"
  have n: "nonce \<noteq> []" using assms(3) by auto
  have z: "0 \<notin> set path" "0 \<notin> set protocol"
    using assms(4) good_header_zero [of "(cstr ''Sec-WebSocket-Protocol'', protocol)"] assms(10)
    by (auto simp: http_token_def isprint_def opt_good_def)
  have e: "\<forall>h \<in> set extra. good_header h" "\<forall>h \<in> set extra. \<not> same_name (fst h) (cstr ''Sec-WebSocket-Protocol'')"
    using assms(5) by blast+
  have g: "\<forall>h \<in> set ?h. good_header h" unfolding assms(11) by (rule request_headers_good [OF n assms(9,10) e(1)])
  have l: "length ?h \<le> 39"
    using assms(6) length_opt_header [of "''Authorization''" "auth_value user pass"] length_opt_header [of "''Host''" hostname]
      length_opt_header [of "''Sec-WebSocket-Protocol''" protocol] by (simp add: ws_request_headers_def upgrade_headers_def)
  have r: "request = http_request (cstr ''GET'') path (cstr ''HTTP/1.1'') ?h @ []"
    unfolding assms(11,12) by (simp only: handshake_request [OF assms(1) z e(1) assms(7,8)] append_Nil2)
  have "http_token (cstr ''GET'')" "http_token (cstr ''HTTP/1.1'')" by (simp_all add: http_token_def isprint_def)
  then obtain hm where hm: "mg_parse_http request True = Some (Message (length request) hm)"
      "says_line request hm (cstr ''GET'') path (cstr ''HTTP/1.1'')" "map (ref_pair request) (hm_headers hm) = ?h"
    using mg_parse_http_reads [OF _ assms(4) _ g l r] unfolding r append_Nil2 by blast
  have "length key < 2 ^ 32 - 64" unfolding assms(11) length_base64 assms(3) by simp
  moreover have p: "map_option snd (find (\<lambda>h. same_name (fst h) (cstr ''Sec-WebSocket-Protocol'')) ?h) =
      (if protocol = [] then None else Some protocol)" unfolding request_headers_find(2) [OF e(2)] by simp
  ultimately obtain s' where s: "mg_http_ws_upgrade quiet frames rnds junk eps hm (length request) s = Some (Some s')"
      "ws_open s' ((up_nc s)\<lparr>ws_recv := [], ws_send := reply\<rparr>)"
    using ws_server_upgrade [OF hm(1,3) g request_headers_find(1) _ assms(2,14), of frames rnds eps]
    unfolding p assms(13) by blast
  have "good_header (cstr ''Sec-WebSocket-Accept'', ws_accept key)" unfolding ws_accept_def by (rule b64_header(2) [OF sha1_nonempty])
  from ws_client_upgrade [OF this, of "if protocol = [] then None else Some protocol" c frames rnds junk eps] assms(10,15)
  show ?thesis using hm(1,2) s unfolding assms(13) ws_accept_def [symmetric] opt_good_def by (auto split: if_splits)
qed

text \<open>A connection on which nothing else has happened.\<close>

definition idle_up :: "bool \<Rightarrow> bytes \<Rightarrow> unit ws_up" where
  "idle_up listener buf = \<lparr>up_nc = \<lparr>ws_recv = buf, ws_send = [], ws_reass_len = 0, ws_no_defrag = False, ws_send_and_close = False,
     ws_listener = listener\<rparr>, up_close_immediately = False, up_is_websocket = False, up_ws_handler = False, up_last_io_time = 0, up_handler = ()\<rparr>"

lemma idle_up_waiting: "ws_waiting listener buf (idle_up listener buf)"
  by (simp add: ws_waiting_def idle_up_def)

definition chat_request :: bytes where
  "chat_request = mg_send_websocket_handshake3v [0, 0, 0] (replicate 16 0) (cstr ''/chat'') (cstr ''h'') (cstr ''h:80/chat'') 4 (cstr ''p'')
     (extra_lines [(cstr ''A'', cstr ''b'')]) (cstr ''u'') (cstr ''w'')"

definition chat_reply :: bytes where
  "chat_reply = ws_reply (base64_pad (base64_encode_body (replicate 16 0))) (Some (cstr ''p''))"

lemma ws_handshake_completes_witness:
  "\<exists>hm s' hm' c'. mg_parse_http chat_request True = Some (Message (length chat_request) hm) \<and>
    mg_http_ws_upgrade quiet (\<lambda>_ _ _ nc. nc) (\<lambda>_. []) (replicate 64 0) [] hm (length chat_request) (idle_up True chat_request) = Some (Some s') \<and>
    up_is_websocket s' \<and> ws_send (up_nc s') = chat_reply \<and> mg_parse_http chat_reply False = Some (Message (length chat_reply) hm') \<and>
    mg_http_ws_upgrade quiet (\<lambda>_ _ _ nc. nc) (\<lambda>_. []) (replicate 64 0) [] hm' (length chat_reply) (idle_up False chat_reply) = Some (Some c') \<and>
    up_is_websocket c'"
proof -
  have 1: "length [0, 0, 0 :: byte] = 3" "length (replicate 64 (0 :: byte)) = 64" "length (replicate 16 (0 :: byte)) = 16" "http_token (cstr ''/chat'')"
    by (simp_all add: http_token_def isprint_def)
  have 2: "\<forall>h \<in> set [(cstr ''A'', cstr ''b'')]. good_header h \<and> \<not> same_name (fst h) (cstr ''Sec-WebSocket-Protocol'')"
    "length [(cstr ''A'', cstr ''b'')] \<le> 32"
    by (simp_all add: good_header_def http_token_def isprint_def same_name_def)
  have 3: "cstr ''h'' = [] \<longleftrightarrow> cstr ''h:80'' = []" "fmt_prec 4 (cstr ''h:80/chat'') = cstr ''h:80''" "opt_good ''Host'' (cstr ''h:80'')"
    "opt_good ''Sec-WebSocket-Protocol'' (cstr ''p'')"
    by (simp_all add: good_header_def http_token_def isprint_def opt_good_def fmt_prec_def c_string_def)
  have 4: "chat_reply = ws_reply (base64_pad (base64_encode_body (replicate 16 0))) (if cstr ''p'' = [] then None else Some (cstr ''p''))"
    by (simp add: chat_reply_def)
  from ws_handshake_completes [OF 1 2 3 refl chat_request_def 4 idle_up_waiting idle_up_waiting, of "\<lambda>_ _ _ nc. nc" "\<lambda>_. []" "[]"]
  show ?thesis unfolding ws_open_def by (elim exE conjE, intro exI conjI) (assumption | simp)+
qed

text \<open>C35: When enough bytes follow the request in the same read to lie where its key was, the answer is wrong: the request is removed from the receive buffer first,
the key's string still points to its old place in the buffer, and the accept value is computed from the bytes that have been moved there.\<close>

theorem ws_upgrade_pipelined:
  assumes "ws_waiting True (request @ rest) s" "mg_get_http_header (request @ rest) hm (cstr ''Sec-WebSocket-Key'') = Some vec"
    and "fst vec + snd vec \<le> length rest" "snd vec < 2 ^ 32 - 64" "length junk = 64"
  shows "\<exists>s' p. mg_http_ws_upgrade quiet frames rnds junk eps hm (length request) s =
      map_option Some (mg_ws_handler quiet frames rnds MG_EV_RECV s') \<and>
    ws_open s' ((up_nc s)\<lparr>ws_recv := rest, ws_send := ws_reply (take (snd vec) (drop (fst vec) rest)) p\<rparr>)"
proof -
  let ?mem = "blit (request @ rest) 0 rest"
  have k: "ref_str ?mem vec = take (snd vec) (drop (fst vec) rest)"
    using assms(3) by (simp add: ref_str_def blit_def)
  have "length (take (snd vec) (drop (fst vec) rest)) < 2 ^ 32 - 64" using assms(4) by simp
  from mg_ws_handshake_reply [OF assms(5) this, of ?mem hm] obtain p
    where "mg_ws_handshake junk ?mem hm (ref_str ?mem vec) = Some (ws_reply (take (snd vec) (drop (fst vec) rest)) p)"
    unfolding k by blast
  moreover define s2 where "s2 = (case mg_http_get_endpoint_handler (Some eps) (opt_str ?mem (hm_uri hm)) of
      None \<Rightarrow> up_switch (length request) s | Some h \<Rightarrow> (up_switch (length request) s)\<lparr>up_handler := h\<rparr>)"
  moreover define s' where "s' = s2\<lparr>up_nc := (up_nc s2)\<lparr>ws_send := ws_reply (take (snd vec) (drop (fst vec) rest)) p\<rparr>\<rparr>"
  moreover have "up_nc s2 = (up_nc s)\<lparr>ws_recv := rest\<rparr>" "up_close_immediately s2 = up_close_immediately s" "up_is_websocket s2 \<and> up_ws_handler s2"
    using assms(1) by (auto simp: s2_def up_switch_def ws_waiting_def split: option.split)
  ultimately have "ws_open s' ((up_nc s)\<lparr>ws_recv := rest, ws_send := ws_reply (take (snd vec) (drop (fst vec) rest)) p\<rparr>)"
      "mg_http_ws_upgrade quiet frames rnds junk eps hm (length request) s = map_option Some (mg_ws_handler quiet frames rnds MG_EV_RECV s')"
    using assms(1,2) by (simp_all add: mg_http_ws_upgrade_def Let_def quiet_def ws_waiting_def ws_open_def s2_def [symmetric] del: cstr_Cons)
  then show ?thesis by blast
qed

definition short_request :: bytes where
  "short_request = http_request (cstr ''GET'') (cstr ''/'') (cstr ''HTTP/1.1'') [(cstr ''Sec-WebSocket-Key'', cstr ''kkkk'')]"

lemma ws_upgrade_pipelined_witness:
  "\<exists>hm s' p. mg_parse_http (short_request @ replicate 60 7) True = Some (Message (length short_request) hm) \<and>
    mg_http_ws_upgrade quiet (\<lambda>_ _ _ nc. nc) (\<lambda>_. []) (replicate 64 0) [] hm (length short_request) (idle_up True (short_request @ replicate 60 7)) =
      map_option Some (mg_ws_handler quiet (\<lambda>_ _ _ nc. nc) (\<lambda>_. []) MG_EV_RECV s') \<and> ws_send (up_nc s') = ws_reply [7, 7, 7, 7] p"
proof -
  let ?b = "short_request @ replicate 60 7"
  have "case mg_parse_http ?b True of Some (Message n hm) \<Rightarrow> n = length short_request \<and>
      mg_get_http_header ?b hm (cstr ''Sec-WebSocket-Key'') = Some (35, 4) | _ \<Rightarrow> False" by code_simp
  then obtain hm where hm: "mg_parse_http ?b True = Some (Message (length short_request) hm)"
      "mg_get_http_header ?b hm (cstr ''Sec-WebSocket-Key'') = Some (35, 4)" by (auto split: option.splits http_parse.splits)
  have t: "take 4 (drop 35 (replicate 60 7)) = [7, 7, 7, 7 :: byte]" by (simp add: numeral_eq_Suc)
  from ws_upgrade_pipelined [OF idle_up_waiting hm(2), of "replicate 64 0" "\<lambda>_ _ _ nc. nc" "\<lambda>_. []" "[]"]
  obtain s' p where "mg_http_ws_upgrade quiet (\<lambda>_ _ _ nc. nc) (\<lambda>_. []) (replicate 64 0) [] hm (length short_request) (idle_up True ?b) =
      map_option Some (mg_ws_handler quiet (\<lambda>_ _ _ nc. nc) (\<lambda>_. []) MG_EV_RECV s')"
      "ws_send (up_nc s') = ws_reply [7, 7, 7, 7] p"
    unfolding fst_conv snd_conv t ws_open_def by auto
  with hm(1) show ?thesis by blast
qed
end
