(* ===== verification/MgHttpServer.thy ===== *)
theory MgHttpServer
  imports MgHttpReply MgHandshake
begin

text \<open>
  The event handler of an HTTP connection (mg_http_handler and its helpers in mongoose/src/mg_http.c of
  3rdLib/mongoose/mongoose.c), on the server and on the client side: it collects bytes until a message is whole, hands body
  data over as it comes, chooses the endpoint, checks its password file, calls the user and goes on with the next message.
  The connection is the one of \<open>MgHandshake\<close> with what HTTP keeps on it: the protocol's data (\<open>http_pd\<close>), the limit of the
  receive buffer, and the user's own memory (\<open>hc_app\<close>). Configuration: no CGI, no streaming multipart, with file system
  and WebSocket. The flags modelled are among those that mg_call lets a handler change. The user's handler may do anything to
  the connection but take bytes out of the receive buffer while a chunk is delivered to it, which is the subject of
  MG_F_DELETE_CHUNK.
\<close>

subsection \<open>State\<close>

text \<open>The reassembled length of a frame, also part of the protocol's data in the code, is in \<open>ws_conn\<close>.\<close>

record 'h http_pd =
  pd_file :: http_file
  pd_chunk_body_len :: nat
  pd_endpoint_handler :: "'h option"
  pd_rcvd :: u64

record ('h, 'a) http_conn = "'h ws_up" +
  hc_delete_chunk :: bool
  hc_recv_mbuf_limit :: nat
  hc_pd :: "'h http_pd"
  hc_app :: 'a

datatype http_event = MG_EV_TRANSPORT ws_event | MG_EV_CLOSE | MG_EV_SEND nat | MG_EV_HTTP_CHUNK http_message
  | MG_EV_HTTP_REQUEST http_message | MG_EV_HTTP_REPLY http_message

record 'h endpoint =
  ep_uri_pattern :: bytes
  ep_auth_domain :: "bytes option"
  ep_auth_file :: "bytes option"
  ep_handler :: 'h

text \<open>
  What the handler works with: the user's handlers, the frames' ones, random masks, the content of uninitialised memory,
  the allocator, the clock, the files, and the endpoints of the listening connection (none on a client).
\<close>

record ('h, 'a) http_env =
  en_call :: "'h \<Rightarrow> http_event \<Rightarrow> ('h, 'a) http_conn \<Rightarrow> ('h, 'a) http_conn"
  en_frames :: "'h \<Rightarrow> ws_handler"
  en_rnds :: "nat \<Rightarrow> bytes"
  en_junk :: bytes
  en_al :: allocator
  en_mem :: "string \<Rightarrow> nat \<Rightarrow> byte"
  en_now :: nat
  en_fopen :: "bytes \<Rightarrow> bytes option"
  en_endpoints :: "'h endpoint list"

definition MG_MAX_HTTP_REQUEST_SIZE :: nat where "MG_MAX_HTTP_REQUEST_SIZE = 8192"

text \<open>\<open>memset\<close> to zero by calloc; mg_http_conn_destructor closes the file, and the next use starts from zero.\<close>

definition mg_http_get_proto_data :: "'h http_pd" where
  "mg_http_get_proto_data = \<lparr>pd_file = mg_http_free_proto_data_file, pd_chunk_body_len = 0, pd_endpoint_handler = None, pd_rcvd = 0\<rparr>"

abbreviation hc_recv :: "('h, 'a) http_conn \<Rightarrow> bytes" where "hc_recv c \<equiv> ws_recv (up_nc c)"

definition set_recv :: "bytes \<Rightarrow> ('h, 'a) http_conn \<Rightarrow> ('h, 'a) http_conn" where
  "set_recv b c = c\<lparr>up_nc := (up_nc c)\<lparr>ws_recv := b\<rparr>\<rparr>"

definition mg_http_conn_destructor :: "('h, 'a) http_conn \<Rightarrow> ('h, 'a) http_conn" where
  "mg_http_conn_destructor c = c\<lparr>hc_pd := mg_http_get_proto_data, up_nc := (up_nc c)\<lparr>ws_reass_len := 0\<rparr>\<rparr>"

subsection \<open>Delivering a body\<close>

definition mbuf_cut :: "u64 \<Rightarrow> bytes \<Rightarrow> bytes" where
  "mbuf_cut n b = (if n > 0 \<and> unat n \<le> length b then drop (unat n) b else b)"

definition deliver_chunk :: "('h, 'a) http_env \<Rightarrow> http_message \<Rightarrow> nat \<Rightarrow> ('h, 'a) http_conn \<Rightarrow> (http_message \<times> ('h, 'a) http_conn) option" where
  "deliver_chunk env hm req_len c = do {
     let hm = hm\<lparr>hm_body_len := of_nat (length (hc_recv c)) - of_nat req_len\<rparr>;
     let io = hc_recv c;
     let c = en_call env (up_handler c) (MG_EV_HTTP_CHUNK hm) (c\<lparr>hc_delete_chunk := False\<rparr>);
     _ \<leftarrow> ensure (hc_recv c = io);
     Some (hm, if hc_delete_chunk c then set_recv (take req_len io) c else c) }"

text \<open>mg_handle_chunked for any handler. The second branch of the last step works on the buffer's memory behind its length.\<close>

definition handle_chunked ::
    "('h, 'a) http_env \<Rightarrow> http_message \<Rightarrow> nat \<Rightarrow> ('h, 'a) http_conn \<Rightarrow> (http_message \<times> ('h, 'a) http_conn) option" where
  "handle_chunked env hm req_len c = do {
     let buf = drop req_len (hc_recv c);
     let blen = length buf;
     let body_len = pd_chunk_body_len (hc_pd c);
     _ \<leftarrow> ensure (body_len \<le> blen);
     (i, body_len, buf, hm_len, zero) \<leftarrow> chunk_loop body_len body_len buf None;
     let hm = (case hm_len of None \<Rightarrow> hm | Some k \<Rightarrow> hm\<lparr>hm_body_len := of_nat k\<rparr>);
     if i > body_len then do {
       _ \<leftarrow> ensure (i \<le> blen);
       let io = take req_len (hc_recv c) @ take body_len buf @ drop i buf;
       let c = set_recv io (c\<lparr>hc_pd := (hc_pd c)\<lparr>pd_chunk_body_len := body_len\<rparr>, hc_delete_chunk := False\<rparr>);
       let c = en_call env (up_handler c) (MG_EV_HTTP_CHUNK hm) c;
       _ \<leftarrow> ensure (hc_recv c = io);
       let (hm, c) = (if hc_delete_chunk c then
            (hm\<lparr>hm_body_len := 0\<rparr>, set_recv (take req_len io @ drop i buf) (c\<lparr>hc_pd := (hc_pd c)\<lparr>pd_chunk_body_len := 0\<rparr>\<rparr>))
          else (hm, c));
       Some (if zero then hm\<lparr>hm_message_len := of_nat (pd_chunk_body_len (hc_pd c)) + of_nat blen - of_nat i + of_nat (hm_body_pos hm)\<rparr> else hm, c) }
     else Some (hm, set_recv (take req_len (hc_recv c) @ buf) c) }"

subsection \<open>Endpoints\<close>

definition mg_http_call_endpoint_handler ::
    "('h, 'a) http_env \<Rightarrow> (http_message \<Rightarrow> http_event) \<Rightarrow> http_message \<Rightarrow> ('h, 'a) http_conn \<Rightarrow> ('h, 'a) http_conn option" where
  "mg_http_call_endpoint_handler env ev hm c = do {
     let io = hc_recv c;
     let ep = (if ev hm = MG_EV_HTTP_REQUEST hm then
         mg_http_get_endpoint_handler (Some (map (\<lambda>e. (ep_uri_pattern e, e)) (en_endpoints env))) (opt_str io (hm_uri hm)) else None);
     (case ep of
        None \<Rightarrow> Some (en_call env (case pd_endpoint_handler (hc_pd c) of None \<Rightarrow> up_handler c | Some h \<Rightarrow> h) (ev hm) c)
      | Some e \<Rightarrow> do {
          ok \<leftarrow> mg_http_is_authorized (en_al env) (en_mem env) (en_now env) (en_fopen env) io hm (opt_str io (hm_uri hm))
            (case hm_uri hm of None \<Rightarrow> [] | Some (p, n) \<Rightarrow> drop (p + n) io) (ep_auth_domain e) (ep_auth_file e) MG_AUTH_FLAG_IS_GLOBAL_PASS_FILE;
          if \<not> ok then do {
            domain \<leftarrow> ep_auth_domain e;
            Some (c\<lparr>up_nc := (up_nc c)\<lparr>ws_send := ws_send (up_nc c) @ mg_http_send_digest_auth_request (en_now env) domain\<rparr>\<rparr>) }
          else
            let c = c\<lparr>hc_pd := (hc_pd c)\<lparr>pd_endpoint_handler := Some (ep_handler e)\<rparr>\<rparr>
            in Some (en_call env (ep_handler e) (ev hm) c) }) }"

text \<open>A new endpoint comes first; it is protected when both domain and file are given.\<close>

definition mg_register_http_endpoint_opt :: "bytes \<Rightarrow> 'h \<Rightarrow> bytes option \<Rightarrow> bytes option \<Rightarrow> 'h endpoint list \<Rightarrow> 'h endpoint list" where
  "mg_register_http_endpoint_opt uri_path h domain pass_file eps =
     (let auth = domain \<noteq> None \<and> pass_file \<noteq> None in
      \<lparr>ep_uri_pattern = uri_path, ep_auth_domain = (if auth then domain else None),
       ep_auth_file = (if auth then pass_file else None), ep_handler = h\<rparr> # eps)"

definition mg_register_http_endpoint :: "bytes \<Rightarrow> 'h \<Rightarrow> 'h endpoint list \<Rightarrow> 'h endpoint list" where
  "mg_register_http_endpoint uri_path h = mg_register_http_endpoint_opt uri_path h None None"

subsection \<open>The event handler\<close>


text \<open>A whole message is there. The result says whether the next one follows in the buffer.\<close>

definition http_message_done ::
    "('h, 'a) http_env \<Rightarrow> http_message \<Rightarrow> nat \<Rightarrow> ('h, 'a) http_conn \<Rightarrow> (bool \<times> ('h, 'a) http_conn) option" where
  "http_message_done env hm req_len c = do {
     let trigger_ev = (if ws_listener (up_nc c) then MG_EV_HTTP_REQUEST else MG_EV_HTTP_REPLY);
     (hm, c) \<leftarrow> deliver_chunk env hm req_len c;
     c \<leftarrow> mg_http_call_endpoint_handler env trigger_ev hm c;
     let c = set_recv (mbuf_cut (hm_message_len hm) (hc_recv c)) c;
     let c = c\<lparr>hc_pd := (hc_pd c)\<lparr>pd_rcvd := pd_rcvd (hc_pd c) - hm_message_len hm\<rparr>\<rparr>;
     if fl_fp (pd_file (hc_pd c)) \<noteq> None then Some (False, c)
     else
       let c = mg_http_conn_destructor c
       in if length (hc_recv c) > 0 then
            Some (True, c\<lparr>hc_pd := mg_http_get_proto_data\<lparr>pd_rcvd := of_nat (length (hc_recv c))\<rparr>\<rparr>)
          else Some (False, c) }"

definition http_parsed ::
    "('h, 'a) http_env \<Rightarrow> http_message \<Rightarrow> nat \<Rightarrow> ('h, 'a) http_conn \<Rightarrow> (bool \<times> ('h, 'a) http_conn) option" where
  "http_parsed env hm req_len c = do {
     (hm, c) \<leftarrow> (case mg_get_http_header (hc_recv c) hm (cstr ''Transfer-Encoding'') of
         Some s \<Rightarrow> (if mg_vcasecmp (ref_str (hc_recv c) s) (cstr ''chunked'') = 0 then handle_chunked env hm req_len c else Some (hm, c))
       | None \<Rightarrow> Some (hm, c));
     up \<leftarrow> mg_http_ws_upgrade (\<lambda>h ev. en_call env h (MG_EV_TRANSPORT ev)) (en_frames env) (en_rnds env) (en_junk env)
        (map (\<lambda>e. (ep_uri_pattern e, ep_handler e)) (en_endpoints env)) hm req_len c;
     (case up of
        Some c \<Rightarrow> Some (False, c)
      | None \<Rightarrow>
          if hm_message_len hm > pd_rcvd (hc_pd c) then do {
            (hm, c) \<leftarrow> deliver_chunk env hm req_len c;
            Some (False, if hc_recv_mbuf_limit c > 0 \<and> length (hc_recv c) \<ge> hc_recv_mbuf_limit c then c\<lparr>up_close_immediately := True\<rparr> else c) }
          else http_message_done env hm req_len c) }"

partial_function (option) http_again :: "('h, 'a) http_env \<Rightarrow> ('h, 'a) http_conn \<Rightarrow> ('h, 'a) http_conn option" where
  "http_again env c = do {
     parse \<leftarrow> mg_parse_http (hc_recv c) (ws_listener (up_nc c));
     (case parse of
        Malformed \<Rightarrow> Some (c\<lparr>up_close_immediately := True\<rparr>)
      | Incomplete \<Rightarrow> Some (if length (hc_recv c) \<ge> MG_MAX_HTTP_REQUEST_SIZE then c\<lparr>up_close_immediately := True\<rparr> else c)
      | Message req_len hm \<Rightarrow> do {
          r \<leftarrow> http_parsed env hm req_len c;
          if fst r then http_again env (snd r) else Some (snd r) }) }"

declare http_again.simps [code] ws_recv_loop.simps [code]




subsection \<open>Requests as the user sees them\<close>

record http_req =
  rq_method :: bytes
  rq_uri :: bytes
  rq_proto :: bytes
  rq_headers :: "(bytes \<times> bytes) list"
  rq_body :: bytes

definition req_head :: "http_req \<Rightarrow> bytes" where
  "req_head r = http_request (rq_method r) (rq_uri r) (rq_proto r) (rq_headers r)"

definition req_wire :: "http_req \<Rightarrow> bytes" where "req_wire r = req_head r @ rq_body r"

text \<open>A message as a handler reads it that takes the body by the length of the message. The body field itself, of which
deliver_chunk sets the length, runs to the end of the buffer (\<open>deliver_chunk_idle\<close>).\<close>

definition req_view :: "bytes \<Rightarrow> http_message \<Rightarrow> http_req" where
  "req_view buf hm = \<lparr>rq_method = opt_str buf (hm_method hm),
     rq_uri = opt_str buf (hm_uri hm) @ (case hm_query_string hm of None \<Rightarrow> [] | Some q \<Rightarrow> 63 # ref_str buf q),
     rq_proto = opt_str buf (hm_proto hm), rq_headers = map (ref_pair buf) (hm_headers hm),
     rq_body = take (unat (hm_message_len hm) - hm_body_pos hm) (drop (hm_body_pos hm) buf)\<rparr>"

definition complete_request :: "http_req \<Rightarrow> bool" where
  "complete_request r \<longleftrightarrow> http_token (rq_method r) \<and> http_token (rq_uri r) \<and> http_token (rq_proto r) \<and>
     (\<forall>h \<in> set (rq_headers r). good_header h \<and> \<not> same_name (fst h) (cstr ''Transfer-Encoding'') \<and>
        \<not> same_name (fst h) (cstr ''Sec-WebSocket-Key'')) \<and> length (rq_headers r) \<le> 39 \<and>
     length (req_head r) \<le> MG_MAX_HTTP_REQUEST_SIZE \<and> length (req_wire r) < 2 ^ 62 \<and>
     request_body (rq_method r) (of_nat (length (req_head r))) (rq_headers r) =
       (of_nat (length (rq_body r)), of_nat (length (req_wire r)))"

lemma parse_header_body_pos: "hm_body_pos (snd (snd (snd (parse_header buf s end len i req)))) = hm_body_pos req"
  by (simp add: parse_header_def case_prod_unfold Let_def)

lemma parse_headers_body_pos: "hm_body_pos (snd (mg_http_parse_headers buf s end len i req)) = hm_body_pos req"
proof (induction buf s "end" len i req rule: mg_http_parse_headers.induct)
  case (1 buf s "end" len i req)
  obtain b s' i' req' where p: "parse_header buf s end len i req = (b, s', i', req')" by (metis prod_cases4)
  have n: "hm_body_pos req' = hm_body_pos req" using parse_header_body_pos [of buf s "end" len i req] p by simp
  show ?case
  proof (cases "b \<and> i < MG_MAX_HTTP_HEADERS - 1")
    case True
    then have "hm_body_pos (snd (mg_http_parse_headers buf s' end len i' req')) = hm_body_pos req'"
      using "1.IH" [OF _ p [symmetric] _ refl refl] by blast
    with True p n show ?thesis by (subst mg_http_parse_headers.simps) simp
  next
    case False
    with p n show ?thesis by (subst mg_http_parse_headers.simps) (cases b; simp)
  qed
qed

lemma parse_http_body_pos:
  assumes "mg_parse_http buf is_req = Some (Message n hm)"
  shows "hm_body_pos hm = n"
proof -
  have r: "parse_request_line buf s e hm = Some (s', hm') \<Longrightarrow> hm_body_pos hm' = hm_body_pos hm" for s e hm s' hm'
    by (auto simp: parse_request_line_def Let_def case_prod_unfold split: if_splits option.splits)
  have t: "parse_status_line buf s e hm = Some (Some (s', hm')) \<Longrightarrow> hm_body_pos hm' = hm_body_pos hm" for s e hm s' hm'
    by (auto simp: parse_status_line_def Let_def case_prod_unfold split: if_splits bind_splits)
  show ?thesis
    using assms
    by (auto simp: mg_parse_http_def Let_def default_body_def parse_headers_body_pos no_message_def
        split: if_splits bind_splits option.splits dest!: r t)
qed

lemma request_whole:
  assumes "complete_request r" "buf = req_head r @ rest"
  obtains hm where "mg_parse_http buf True = Some (Message (length (req_head r)) hm)"
    "hm_message_len hm = of_nat (length (req_wire r))" "opt_str buf (hm_uri hm) = takeWhile (\<lambda>c. c \<noteq> 63) (rq_uri r)"
    "mg_get_http_header buf hm (cstr ''Transfer-Encoding'') = None" "mg_get_http_header buf hm (cstr ''Sec-WebSocket-Key'') = None"
    "req_view buf hm = r\<lparr>rq_body := take (length (rq_body r)) rest\<rparr>"
proof -
  have g: "http_token (rq_method r)" "http_token (rq_uri r)" "http_token (rq_proto r)" "\<forall>h \<in> set (rq_headers r). good_header h"
      "length (rq_headers r) \<le> 39" "length (req_wire r) < 2 ^ 62"
    using assms(1) by (auto simp: complete_request_def)
  let ?n = "length (req_head r)"
  obtain hm where hm: "mg_parse_http buf True = Some (Message ?n hm)" "says_line buf hm (rq_method r) (rq_uri r) (rq_proto r)"
      "map (ref_pair buf) (hm_headers hm) = rq_headers r" "body_fields hm = request_body (rq_method r) (of_nat ?n) (rq_headers r)"
    using mg_parse_http_reads [OF g(1-5), of buf rest] assms(2) by (auto simp: req_head_def)
  have none: "mg_get_http_header buf hm name = None" if "0 \<notin> set name" "\<forall>h \<in> set (rq_headers r). \<not> same_name (fst h) name" for name
  proof -
    have "find (\<lambda>h. same_name (fst h) name) (rq_headers r) = None" using that(2) by (auto simp: find_None_iff)
    then show ?thesis using header_value [OF hm(1,3) g(4) that(1)] by simp
  qed
  have len: "hm_message_len hm = of_nat (length (req_wire r))"
    using hm(4) assms(1) by (simp add: complete_request_def body_fields_def)
  have u: "opt_str buf (hm_uri hm) @ (case hm_query_string hm of None \<Rightarrow> [] | Some q \<Rightarrow> 63 # ref_str buf q) = rq_uri r"
      "63 \<notin> set (opt_str buf (hm_uri hm))" "opt_str buf (hm_method hm) = rq_method r" "opt_str buf (hm_proto hm) = rq_proto r"
    using hm(2) by (simp_all add: says_line_def)
  have "takeWhile (\<lambda>c. c \<noteq> 63) (rq_uri r) = opt_str buf (hm_uri hm)"
    unfolding u(1) [symmetric] using u(2) by (cases "hm_query_string hm") (auto simp: takeWhile_append takeWhile_eq_all_conv)
  then have path: "opt_str buf (hm_uri hm) = takeWhile (\<lambda>c. c \<noteq> 63) (rq_uri r)" by simp
  have "unat (hm_message_len hm) = length (req_wire r)"
    unfolding len using g(6) by (simp add: unsigned_of_nat take_bit_nat_eq_self)
  then have b: "take (unat (hm_message_len hm) - hm_body_pos hm) (drop (hm_body_pos hm) buf) = take (length (rq_body r)) rest"
    by (simp add: parse_http_body_pos [OF hm(1)] assms(2) req_wire_def)
  have view: "req_view buf hm = r\<lparr>rq_body := take (length (rq_body r)) rest\<rparr>"
    unfolding req_view_def u hm(3) b by (rule http_req.equality) simp_all
  show thesis
  proof (rule that [OF hm(1) len path _ _ view])
    show "mg_get_http_header buf hm (cstr ''Transfer-Encoding'') = None" "mg_get_http_header buf hm (cstr ''Sec-WebSocket-Key'') = None"
      using assms(1) by (intro none; auto simp: complete_request_def)+
  qed
qed



subsection \<open>Serving requests\<close>





text \<open>A server's connection between two events: what is in the receive buffer, what the user remembers, what was sent.\<close>

definition serving :: "('h, 'a) http_conn \<Rightarrow> bytes \<Rightarrow> 'a \<times> bytes \<Rightarrow> ('h, 'a) http_conn" where
  "serving c w s = c\<lparr>up_nc := (up_nc c)\<lparr>ws_recv := w, ws_send := snd s\<rparr>, hc_app := fst s,
     hc_pd := mg_http_get_proto_data\<lparr>pd_rcvd := of_nat (length w)\<rparr>\<rparr>"



lemma serving_sel [simp]:
  "ws_recv (up_nc (serving c w s)) = w" "ws_send (up_nc (serving c w s)) = snd s" "hc_app (serving c w s) = fst s"
  "hc_pd (serving c w s) = mg_http_get_proto_data\<lparr>pd_rcvd := of_nat (length w)\<rparr>"
  "ws_listener (up_nc (serving c w s)) = ws_listener (up_nc c)" "hc_recv_mbuf_limit (serving c w s) = hc_recv_mbuf_limit c"
  "hc_delete_chunk (serving c w s) = hc_delete_chunk c" "up_handler (serving c w s) = up_handler c"
  by (simp_all add: serving_def)







lemma http_parsed_plain:
  assumes "ws_listener (up_nc c)" "mg_get_http_header (hc_recv c) hm (cstr ''Transfer-Encoding'') = None"
    "mg_get_http_header (hc_recv c) hm (cstr ''Sec-WebSocket-Key'') = None"
  shows "http_parsed env hm n c =
    (if hm_message_len hm > pd_rcvd (hc_pd c) then do {
       (hm, c) \<leftarrow> deliver_chunk env hm n c;
       Some (False, if hc_recv_mbuf_limit c > 0 \<and> length (hc_recv c) \<ge> hc_recv_mbuf_limit c then c\<lparr>up_close_immediately := True\<rparr> else c) }
     else http_message_done env hm n c)"
  using assms by (simp add: http_parsed_def mg_http_ws_upgrade_def Let_def)

lemma message_len_word:
  assumes "complete_request r" "length buf < 2 ^ 62"
  shows "of_nat (length (req_wire r)) > (of_nat (length buf) :: u64) \<longleftrightarrow> length buf < length (req_wire r)"
    "unat (of_nat (length (req_wire r)) :: u64) = length (req_wire r)"
  using assms by (simp_all add: complete_request_def word_less_nat_alt unsigned_of_nat take_bit_nat_eq_self)

















definition demo_env :: "(nat \<Rightarrow> http_event \<Rightarrow> (nat, 'a) http_conn \<Rightarrow> (nat, 'a) http_conn) \<Rightarrow> (nat, 'a) http_env" where
  "demo_env call = \<lparr>en_call = call, en_frames = (\<lambda>_ _ _ nc. nc), en_rnds = (\<lambda>_. [0, 0, 0, 0]), en_junk = [], en_al = al_big,
     en_mem = (\<lambda>_ _. 0), en_now = 0, en_fopen = (\<lambda>_. None), en_endpoints = mg_register_http_endpoint (cstr ''/api'') 7 []\<rparr>"

definition demo_conn :: "'a \<Rightarrow> (nat, 'a) http_conn" where
  "demo_conn a = \<lparr>up_nc = \<lparr>ws_recv = [], ws_send = [], ws_reass_len = 0, ws_no_defrag = False, ws_send_and_close = False,
       ws_listener = True\<rparr>, up_close_immediately = False, up_is_websocket = False, up_ws_handler = False, up_last_io_time = 0,
     up_handler = 1, hc_delete_chunk = False, hc_recv_mbuf_limit = 2 ^ 64 - 1, hc_pd = mg_http_get_proto_data, hc_app = a\<rparr>"

definition get_a :: http_req where
  "get_a = \<lparr>rq_method = cstr ''GET'', rq_uri = cstr ''/a'', rq_proto = cstr ''HTTP/1.1'', rq_headers = [(cstr ''A'', cstr ''b'')], rq_body = []\<rparr>"

definition post_api :: http_req where
  "post_api = \<lparr>rq_method = cstr ''POST'', rq_uri = cstr ''/api/x?y'', rq_proto = cstr ''HTTP/1.1'',
     rq_headers = [(cstr ''Content-Length'', cstr ''2'')], rq_body = [65, 66]\<rparr>"

lemma demo_requests: "complete_request get_a" "complete_request post_api"
proof -
  have 1: "request_body (cstr ''GET'') (of_nat (length (req_head get_a))) [(cstr ''A'', cstr ''b'')] = (0, of_nat (length (req_head get_a)))"
    by code_simp
  have 2: "request_body (cstr ''POST'') (of_nat (length (req_head post_api))) [(cstr ''Content-Length'', cstr ''2'')] =
      (2, of_nat (length (req_head post_api)) + 2)" by code_simp
  have 3: "length (req_head get_a) = 25" "length (req_head post_api) = 45" by code_simp+
  have 4: "http_token (cstr ''GET'')" "http_token (cstr ''POST'')" "http_token (cstr ''/a'')" "http_token (cstr ''/api/x?y'')" "http_token (cstr ''HTTP/1.1'')"
    "good_header (cstr ''A'', cstr ''b'')" "good_header (cstr ''Content-Length'', cstr ''2'')"
    "\<not> same_name (cstr ''A'') (cstr ''Transfer-Encoding'')" "\<not> same_name (cstr ''A'') (cstr ''Sec-WebSocket-Key'')"
    "\<not> same_name (cstr ''Content-Length'') (cstr ''Transfer-Encoding'')" "\<not> same_name (cstr ''Content-Length'') (cstr ''Sec-WebSocket-Key'')"
    by code_simp+
  show "complete_request get_a"
    using 1 3 4 by (simp add: complete_request_def get_a_def req_wire_def MG_MAX_HTTP_REQUEST_SIZE_def del: cstr_Cons)
  show "complete_request post_api"
    using 2 3 4 by (simp add: complete_request_def post_api_def req_wire_def MG_MAX_HTTP_REQUEST_SIZE_def del: cstr_Cons)
qed



subsection \<open>A handler that deletes what it was given\<close>

definition deletes_chunks :: "('h \<Rightarrow> http_event \<Rightarrow> ('h, 'a) http_conn \<Rightarrow> ('h, 'a) http_conn) \<Rightarrow> bool" where
  "deletes_chunks call \<longleftrightarrow> (\<forall>h ev c. call h ev c = (case ev of MG_EV_HTTP_CHUNK hm \<Rightarrow> c\<lparr>hc_delete_chunk := True\<rparr> | _ \<Rightarrow> c))"

lemma deletes_call:
  assumes "deletes_chunks (en_call env)"
  shows "en_call env h (MG_EV_HTTP_CHUNK hm) c = c\<lparr>hc_delete_chunk := True\<rparr>" "en_call env h (MG_EV_HTTP_REQUEST hm) c = c"
  using assms by (simp_all add: deletes_chunks_def)

lemma deliver_chunk_deleted:
  assumes "deletes_chunks (en_call env)"
  shows "deliver_chunk env hm n c = Some (hm\<lparr>hm_body_len := of_nat (length (hc_recv c)) - of_nat n\<rparr>,
    set_recv (take n (hc_recv c)) (c\<lparr>hc_delete_chunk := True\<rparr>))"
  by (simp add: deliver_chunk_def deletes_call [OF assms] Let_def)

lemma set_recv_serving: "hc_pd (set_recv w (serving c v s)) = hc_pd (serving c v s)"
  "set_recv w ((serving c v s)\<lparr>hc_delete_chunk := b, hc_pd := p\<rparr>) = (serving (c\<lparr>hc_delete_chunk := b\<rparr>) w s)\<lparr>hc_pd := p\<rparr>"
  by (simp_all add: set_recv_def serving_def)

text \<open>C34: A handler that asks for the body's bytes to be deleted once it has got them (MG_F_DELETE_CHUNK) keeps the
request: the bytes behind the header are gone, so the message is longer than the buffer and mbuf_remove takes nothing out.
The header stays in the buffer, parsed again as that of a request whose body has not come.\<close>

theorem deleted_body_request_stays:
  assumes "deletes_chunks (en_call env)" "en_endpoints env = []" "ws_listener (up_nc c)" "hc_recv_mbuf_limit c = 0 \<or> length (req_head r) < hc_recv_mbuf_limit c" "ws_reass_len (up_nc c) = 0"
    and "complete_request r" "rq_body r \<noteq> []"
  shows "http_again env (serving c (req_wire r) s) = Some (serving (c\<lparr>hc_delete_chunk := True\<rparr>) (req_head r) s)"
proof -
  let ?n = "length (req_head r)" and ?c = "c\<lparr>hc_delete_chunk := True\<rparr>"
  have nonempty: "req_head r \<noteq> []" by (simp add: req_head_def http_request_def)
  have small: "length (req_wire r) < 2 ^ 62" using assms(6) by (simp add: complete_request_def)
  have less: "?n < length (req_wire r)" using assms(7) by (simp add: req_wire_def)
  obtain hm where hm: "mg_parse_http (req_wire r) True = Some (Message ?n hm)" "hm_message_len hm = of_nat (length (req_wire r))"
      "mg_get_http_header (req_wire r) hm (cstr ''Transfer-Encoding'') = None" "mg_get_http_header (req_wire r) hm (cstr ''Sec-WebSocket-Key'') = None"
    using request_whole [OF assms(6), of "req_wire r" "rq_body r"] by (auto simp: req_wire_def)
  obtain hm' where hm': "mg_parse_http (req_head r) True = Some (Message ?n hm')" "hm_message_len hm' = of_nat (length (req_wire r))"
      "mg_get_http_header (req_head r) hm' (cstr ''Transfer-Encoding'') = None" "mg_get_http_header (req_head r) hm' (cstr ''Sec-WebSocket-Key'') = None"
    using request_whole [OF assms(6), of "req_head r" "[]"] by auto
  have cut: "mbuf_cut (of_nat (length (req_wire r))) (req_head r) = req_head r"
    using message_len_word(2) [OF assms(6) small] less by (simp add: mbuf_cut_def)
  have "http_message_done env hm ?n (serving c (req_wire r) s) = Some (True, serving ?c (req_head r) s)"
  proof -
    define x where "x = set_recv (req_head r) ((serving c (req_wire r) s)\<lparr>hc_delete_chunk := True\<rparr>)"
    define hm1 where "hm1 = hm\<lparr>hm_body_len := of_nat (length (req_wire r)) - of_nat ?n\<rparr>"
    have x: "hc_recv x = req_head r" "ws_listener (up_nc x)" "fl_fp (pd_file (hc_pd x)) = None" "pd_endpoint_handler (hc_pd x) = None"
      using assms(3) by (simp_all add: x_def set_recv_def serving_def mg_http_get_proto_data_def mg_http_free_proto_data_file_def)
    have "deliver_chunk env hm ?n (serving c (req_wire r) s) = Some (hm1, x)"
      unfolding deliver_chunk_deleted [OF assms(1)] by (simp add: hm1_def x_def req_wire_def)
    moreover have "mg_http_call_endpoint_handler env MG_EV_HTTP_REQUEST hm1 x = Some x"
      by (simp add: mg_http_call_endpoint_handler_def assms(2) mg_http_get_endpoint_handler_def x(4) deletes_call [OF assms(1)])
    moreover have "mg_http_conn_destructor ((set_recv (req_head r) x)\<lparr>hc_pd := p\<rparr>)\<lparr>hc_pd := mg_http_get_proto_data\<lparr>pd_rcvd := of_nat ?n\<rparr>\<rparr> =
        serving ?c (req_head r) s" for p
    proof -
      have "(up_nc c)\<lparr>ws_recv := req_head r, ws_send := snd s, ws_reass_len := 0\<rparr> = (up_nc c)\<lparr>ws_recv := req_head r, ws_send := snd s\<rparr>"
        by (rule ws_conn.equality) (simp_all add: assms(5))
      then show ?thesis
        by (intro http_conn.equality)
          (simp_all add: mg_http_conn_destructor_def x_def set_recv_def serving_def, (rule ws_conn.equality; simp add: assms(5)))
    qed
    moreover have "hc_recv (mg_http_conn_destructor ((set_recv (req_head r) x)\<lparr>hc_pd := p\<rparr>)) = req_head r" for p
      by (simp add: mg_http_conn_destructor_def set_recv_def)
    ultimately show ?thesis
      using assms(3) hm(2) cut x nonempty by (simp add: http_message_done_def hm1_def set_recv_def Let_def)
  qed
  then have 1: "http_parsed env hm ?n (serving c (req_wire r) s) = Some (True, serving ?c (req_head r) s)"
    using http_parsed_plain [of "serving c (req_wire r) s" hm env ?n] hm(2-4) assms(3) by simp
  have "hm_message_len hm' > pd_rcvd (hc_pd (serving ?c (req_head r) s))"
    using message_len_word(1) [OF assms(6), of "req_head r"] less small hm'(2) by simp
  moreover have "deliver_chunk env hm' ?n (serving ?c (req_head r) s) =
      Some (hm'\<lparr>hm_body_len := of_nat ?n - of_nat ?n\<rparr>, serving ?c (req_head r) s)"
    unfolding deliver_chunk_deleted [OF assms(1)] by (simp add: set_recv_def serving_def)
  ultimately have "http_parsed env hm' ?n (serving ?c (req_head r) s) = Some (False, serving ?c (req_head r) s)"
    using http_parsed_plain [of "serving ?c (req_head r) s" hm' env ?n] hm'(3,4) assms(3,4) by auto
  then have 2: "http_again env (serving ?c (req_head r) s) = Some (serving ?c (req_head r) s)"
    using hm'(1) assms(3) by (subst http_again.simps) simp
  show ?thesis using hm(1) 1 2 assms(3) by (subst http_again.simps) simp
qed


definition delete_env :: "(nat, unit) http_env" where
  "delete_env = (demo_env (\<lambda>h ev c. case ev of MG_EV_HTTP_CHUNK hm \<Rightarrow> c\<lparr>hc_delete_chunk := True\<rparr> | _ \<Rightarrow> c))\<lparr>en_endpoints := []\<rparr>"

lemma deleted_body_request_stays_witness:
  "http_again delete_env (serving (demo_conn ()) (req_wire post_api) ((), [])) =
   Some (serving ((demo_conn ())\<lparr>hc_delete_chunk := True\<rparr>) (req_head post_api) ((), []))"
proof (rule deleted_body_request_stays)
  show "deletes_chunks (en_call delete_env)" by (simp add: deletes_chunks_def delete_env_def demo_env_def)
  show "en_endpoints delete_env = []" by (simp add: delete_env_def)
  show "rq_body post_api \<noteq> []" by (simp add: post_api_def)
  have "length (req_head post_api) = 45" by code_simp
  then show "hc_recv_mbuf_limit (demo_conn ()) = 0 \<or> length (req_head post_api) < hc_recv_mbuf_limit (demo_conn ())"
    by (simp add: demo_conn_def)
qed (simp_all add: demo_conn_def demo_requests)

end
