(* ===== verification/Spec2Isabelle.thy ===== *)
theory Spec2Isabelle
  imports UsLoop MgBase64 MgMbuf MgStr MgUri MgWebsocket MgHttp MgHttpCoding MgLocalPath MgMqtt MgDns MgCoap MgMultipart MgSha1 MgMd5 MgHttpAuth MgHttpReply MgHttpServer
begin

text \<open>
  The repository is a collection of networking examples. Two C programs in it carry logic of their own and are
  modelled here: the event-driven socket library uSockets (src/SocketExams/uSockets/src) and the networking
  library mongoose (src/SocketExams/3rdLib/mongoose/mongoose.c, one amalgamated file, and mongoose.h). The two do
  not call each other; they share only the vocabulary of the theory Prelude.

  \<^bold>\<open>uSockets.\<close> A loop owns contexts, a context a doubly linked list of sockets, and a socket starts with a poll that
  is registered with epoll under the socket's address. A sweep every four seconds counts the sockets' timeouts down
  and calls on_timeout; a handler may close, move or write to any socket, so the sweep keeps an iterator in the
  context that unlinking repairs. Closed sockets are queued and freed at the end of an iteration.
  \<^item> UsTypes: the structs of internal/common.h, internal/loop.h and internal/eventing/epoll.h and the world: a heap
    split by struct, the epoll instance, the open descriptors, the log of system calls.
  \<^item> UsBsd: internal/networking/bsd.h in its Linux configuration.
  \<^item> UsPoll: eventing/epoll.c: polls, timers, asyncs.
  \<^item> UsLinks: the lists of context.c; \<open>ctx_list\<close> relates the pointers to the list of addresses.
  \<^item> UsSocket: socket.c and context.c: write, shutdown, timeout, close, listen, connect, adopt.
  \<^item> UsLoop: loop.c and the run loop of epoll.c: sweep, dispatch, deferred free. What the application does in a
    callback is the parameter \<open>env\<close>. The locales \<open>timeout_handler\<close> and \<open>local_handler\<close> state what the sweep relies on
    from a handler and prove the sweep's theorem from it; they are interpreted on handlers that keep the sockets
    and on handlers that close them.

  \<^bold>\<open>mongoose.\<close> The parts modelled are those that compute: what comes out of a connection's receive buffer and what
  goes into its send buffer. A \<open>struct mg_str\<close> or an mbuf is the list of its bytes, a pointer into a buffer a
  position in it.
  \<^item> MgBase64 (cs_base64.c), MgMbuf (mbuf.c), MgStr (mg_str.c, str_util.c, parts of mg_util.c): the common layer.
  \<^item> MgUri (mg_uri.c): parsing, assembling and normalising URIs.
  \<^item> MgWebsocket (mg_http_websocket.c): frames, masking, fragments, control frames, the receive loop.
  \<^item> MgHash, MgSha1, MgMd5 (cs_sha1.c, cs_md5.c, mg_hash functions): the two incremental hashes. The locale
    \<open>incremental_hash\<close> states what they share, a block function and the padding, and proves once that cutting the input does
    not matter; it is interpreted on the code's definitions as \<open>sha1_hash\<close> and \<open>md5_hash\<close>. HMAC-SHA-1 is built on the first.
  \<^item> MgHttp (mg_http.c): the request length, the request and status lines, the headers.
  \<^item> MgHttpCoding (mg_http.c, mg_util.c): percent coding, form variables, chunked bodies, parameters of a header,
    basic authentication, the choice of an endpoint.
  \<^item> MgHttpAuth (mg_http.c): digest authentication: the client's header, the nonce, the htdigest file, the check.
  \<^item> MgHandshake (mg_http_websocket.c, mg_http.c): the opening handshake on both sides and the switch of a connection.
  \<^item> MgHttpReply (mg_http.c): status lines, redirects, errors, dates, types by extension, ranges, and a file sent piece by
    piece as the send buffer drains; the files and the clock are parameters.
  \<^item> MgHttpServer (mg_http.c): mg_http_handler: whole and partial messages, chunked bodies, endpoints with their password
    files, the next message in the buffer. Its connection extends the one of MgHandshake, and it calls the parser, the
    chunk loop, the upgrade, the file transfer and the digest check of the other theories.
  \<^item> MgLocalPath (mg_http.c): from a URI to a path below a document root; the file system is a parameter.
  \<^item> MgMqtt (mg_mqtt.c, mg_mqtt_server.c): the parser, the senders, the receive loop and the broker.
  \<^item> MgDns (mg_dns.c, mg_dns_server.c, mg_resolv.c): the parser, compressed names, the encoders, the server's replies
    and the resolver's event handler.
  \<^item> MgCoap (mg_coap.c): the parser and composer of messages with their delta-coded options, and the event handler.
  \<^item> MgMultipart (mg_http.c): the state machine that takes the parts of a multipart request out of the receive buffer.

  \<^bold>\<open>Conventions.\<close> \<open>None\<close> as the outcome of a step is undefined behaviour of the C code (a null or dangling pointer,
  a read outside a buffer, a signed overflow, an uninitialised value) or a loop that does not return; an error the
  code reports is a value. Loops whose end is not structural are functions with a measure (\<open>skip_name\<close>,
  \<open>uncompress_loop\<close>, \<open>sub_scan\<close>, \<open>local_path_loop\<close> and the like), and where the code's end depends on a handler or on
  its arguments \<open>partial_function (option)\<close> (\<open>mqtt_recv_loop\<close>, \<open>encode_name_loop\<close>, \<open>http_again\<close>, the sweep and the run loop); there the
  theorems state that a result exists. No definition runs on fuel: the hops over DNS pointers are bounded by the
  code's own count of 15, the records by its arrays of 32. Reads of packets go through partial functions (\<open>rd\<close>, \<open>rd1\<close>), so that a
  theorem with a result also says that no read left the packet. Allocation succeeds, except where a definition says what
  the code does when it fails; the sizes in MgMbuf are size_t and wrap, and its theorems hold below 2 PiB. Integers are words where they wrap in the code and natural numbers with the bound in
  the theorem where a length cannot reach it.

  \<^bold>\<open>What is shown.\<close>
  \<^item> Round trips: Base64, percent coding, basic and digest credentials, HTTP requests and error replies, WebSocket frames and
    the whole opening handshake, MQTT PUBLISH and CONNECT, DNS queries, CoAP messages.
  \<^item> Safety: a URI never leads out of the served directory; the DNS parser and decompressor stay in the packet and in
    the destination; the strings of a parsed HTTP message lie in its header; closing and adopting sockets keeps lists, heap and epoll in step; no descriptor leaks.
  \<^item> Streams: the same bytes cut anywhere give the same answers (HTTP header, WebSocket frames and fragments, chunked
    bodies, whole HTTP requests with their endpoints, MQTT messages of every kind, the Base64 encoder); of a served file exactly
    the bytes asked for go out, in order and complete however the send buffer drains.
  \<^item> State machines: the timeout sweep and the deferred free, the broker's sessions and deliveries (in every reachable broker),
    the resolver's single callback, the parts of a multipart request.
  \<^item> Refinement and equivalence: mbuf insertion against list insertion, the streaming encoder against the one-shot one,
    SHA-1, MD5 and HMAC-SHA-1 against the definitions of FIPS 180-4, RFC 1321 and RFC 2104.
  \<^item> Deviations: several theorems state what the code does where that is not what it means to do (timer resolution,
    a poll resized while it has no events, the context list, the sizeof in the broker, the TCP prefix of a DNS reply,
    the length of a chunked message, the URI over-read, the errors the CoAP handler hides, the size of a short multipart part,
    a WebSocket upgrade that other bytes follow, a digest response cut short by the client, a request whose body was deleted
    while it came, a rewrite rule that fails but still cuts the URI).

  \<^bold>\<open>Configuration.\<close> The defaults of mongoose.h on a Unix system: 40 headers, requests of 8192 bytes, 4096 bytes in the send
  buffer, WebSocket, file system and digest authentication on, CGI and streaming multipart off in the HTTP handler (the
  streaming multipart functions are modelled on their own in MgMultipart). uSockets is built with epoll and LIBUS_NO_SSL.

  \<^bold>\<open>Not modelled.\<close> Of uSockets: ssl.c (a wrapper of OpenSSL, of which only headers are here) and the libuv back end. Of
  mongoose: the connection manager over select (mg_net.c), the
  HTTP functions that list directories, take uploads, proxy, run CGI programs or SSI and DAV commands, SOCKS, and the ports
  to embedded platforms. The other directories are C++ and C# examples
  (RJCommon, websock_net, the clients and servers, CXXTest, CsharpExams) or headers of third-party libraries.
\<close>

end
